(* ===== verification/Relay_Prelude.thy ===== *)
theory Relay_Prelude
  imports Main "HOL-Library.Word"
begin

text \<open>
  The vocabulary shared by the component theories: the machine types of the Go source, the
  Go-level outcomes (a returned value or a run-time panic), slicing with its bounds check,
  big-endian integers, and generic list lemmas. Lemmas that the component proofs use as
  rewrite rules are declared \<open>[simp]\<close> or collected in a named bundle.
\<close>

unbundle bit_operations_syntax

section \<open>Machine types\<close>

type_synonym byte = "8 word"
type_synonym bytes = "byte list"
type_synonym u16 = "16 word"
type_synonym u32 = "32 word"
type_synonym u64 = "64 word"

lemma unat_u32_less: "unat (l :: u32) < 4294967296"
proof -
  have "unat l < 2 ^ LENGTH(32)" by (rule unsigned_less)
  then show ?thesis by simp
qed

named_theorems wire_defs "definitions of the byte-level encoders"
named_theorems msg_types "the frame type constants"

section \<open>Go outcomes\<close>

text \<open>A Go call either returns a value or panics (slice bounds, send on a closed channel).\<close>

datatype 'a go = Ret 'a | Panic

text \<open>
  The slice expression \<open>b[lo:hi]\<close>: a run-time panic unless \<open>lo \<le> hi\<close> and \<open>hi\<close> is within
  the slice. (Go checks \<open>hi\<close> against the capacity; every slice this is used on is a whole
  buffer whose capacity equals its length.)
\<close>

definition go_slice :: "'a list \<Rightarrow> nat \<Rightarrow> nat \<Rightarrow> 'a list go" where
  "go_slice b lo hi =
     (if lo \<le> hi \<and> hi \<le> length b then Ret (take (hi - lo) (drop lo b)) else Panic)"

lemma go_slice_Ret_iff:
  "go_slice b lo hi = Ret x \<longleftrightarrow> lo \<le> hi \<and> hi \<le> length b \<and> x = take (hi - lo) (drop lo b)"
  by (auto simp: go_slice_def)

lemma go_slice_Panic_iff: "go_slice b lo hi = Panic \<longleftrightarrow> hi < lo \<or> length b < hi"
  by (auto simp: go_slice_def)

section \<open>Big-endian integers\<close>

text \<open>
  The byte at bit offset \<open>8 * i\<close> of a word, as Go's conversion \<open>byte(v >> (8*i))\<close> truncates
  it, and the shifted widening \<open>uintN(b) << (8*i)\<close> that puts it back.
\<close>

definition byte_at :: "'a::len word \<Rightarrow> nat \<Rightarrow> byte" where
  "byte_at v i = ucast (drop_bit (8 * i) v)"

definition put_byte :: "byte \<Rightarrow> nat \<Rightarrow> 'a::len word" where
  "put_byte b i = push_bit (8 * i) (ucast b)"

lemma bit_byte_at [simp]: "bit (byte_at v i) n \<longleftrightarrow> n < 8 \<and> bit v (8 * i + n)"
  by (auto simp: byte_at_def bit_simps)

lemma bit_put_byte:
  "bit (put_byte b i :: 'a::len word) n \<longleftrightarrow> n < LENGTH('a) \<and> 8 * i \<le> n \<and> n < 8 * i + 8 \<and> bit b (n - 8 * i)"
proof -
  have "bit b m \<Longrightarrow> m < 8" for m
    using bit_imp_le_length [of b m] by simp
  then show ?thesis
    by (fastforce simp: put_byte_def bit_simps)
qed

lemma bit_put_byte_at [simp]:
  "bit (put_byte (byte_at (v :: 'a::len word) i) i :: 'a word) n \<longleftrightarrow> 8 * i \<le> n \<and> n < 8 * i + 8 \<and> bit v n"
  by (auto simp: bit_put_byte dest: bit_imp_le_length)

section \<open>Buffers\<close>

text \<open>
  \<open>copy(dst[off:], src)\<close>: Go copies as many bytes as fit and leaves the rest of the
  destination alone.
\<close>

definition copy_at :: "'a list \<Rightarrow> nat \<Rightarrow> 'a list \<Rightarrow> 'a list" where
  "copy_at dst off src =
     (let n = min (length dst - off) (length src)
      in take off dst @ take n src @ drop (off + n) dst)"

lemma copy_at_exact:
  "length dst = off + length src \<Longrightarrow> copy_at dst off src = take off dst @ src"
  by (simp add: copy_at_def)

lemma make_5 [simp]: "replicate (5 + n) (x::'a) = [x, x, x, x, x] @ replicate n x"
  by (simp add: numeral_eq_Suc)

lemma make_8 [simp]: "replicate (8 + n) (x::'a) = [x, x, x, x, x, x, x, x] @ replicate n x"
  by (simp add: numeral_eq_Suc)

section \<open>Association lists\<close>

lemma map_of_filter:
  assumes "distinct (map fst entries)"
  shows "map_of [e \<leftarrow> entries. keep e] key =
    Option.bind (map_of entries key) (\<lambda>v. if keep (key, v) then Some v else None)"
  using assms
proof (induction entries)
  case (Cons e entries)
  obtain k v where e: "e = (k, v)" by fastforce
  from Cons.prems have "k = key \<Longrightarrow> map_of entries key = None" by (auto simp: e map_of_eq_None_iff)
  with Cons show ?case by (auto simp: e)
qed simp

end
