(* ===== verification/Go_Errors.thy ===== *)
theory Go_Errors
  imports Relay_Prelude
begin

text \<open>
  Error values of the relay. Go errors are compared with \<open>errors.Is\<close> and \<open>errors.As\<close>, which
  walk the chain built by \<open>%w\<close>; the datatype keeps that chain, so the classification
  functions of the source are translated as they are written.
\<close>

section \<open>Error values\<close>

datatype go_err =
    EOF                          \<comment> \<open>\<open>io.EOF\<close>\<close>
  | UnexpectedEOF                \<comment> \<open>\<open>io.ErrUnexpectedEOF\<close>\<close>
  | NetErrClosed                 \<comment> \<open>\<open>net.ErrClosed\<close>\<close>
  | ErrClosedPipe                \<comment> \<open>\<open>io.ErrClosedPipe\<close>\<close>
  | NetErr string bool           \<comment> \<open>another \<open>net.Error\<close>: its text and its \<open>Timeout()\<close>\<close>
  | ECONNRESET | EPIPE           \<comment> \<open>\<open>syscall\<close> errors\<close>
  | VersionRefusalError u16 u16  \<comment> \<open>\<open>session.VersionRefusalError{Min, Max}\<close>\<close>
  | Opaque string                \<comment> \<open>an error with no structure the relay inspects\<close>
  | StoreErrInboxFull            \<comment> \<open>\<open>store.ErrInboxFull\<close>\<close>
  | ErrInboxFull                 \<comment> \<open>\<open>relay.ErrInboxFull\<close>\<close>
  | ErrRateLimited               \<comment> \<open>\<open>relay.ErrRateLimited\<close>\<close>
  | ErrTooManyReceiveSessions    \<comment> \<open>\<open>relay.ErrTooManyReceiveSessions\<close>\<close>
  | ErrPushBodyTooShort          \<comment> \<open>\<open>relay.ErrPushBodyTooShort\<close>\<close>
  | ErrEnvelopeTooLarge          \<comment> \<open>\<open>relay.ErrEnvelopeTooLarge\<close>\<close>
  | ErrPushRecipientMalformed    \<comment> \<open>\<open>relay.ErrPushRecipientMalformed\<close>\<close>
  | ErrRecipientMismatch         \<comment> \<open>\<open>relay.ErrRecipientMismatch\<close>\<close>
  | ErrNotExist | ErrExist       \<comment> \<open>\<open>fs.ErrNotExist\<close>, \<open>fs.ErrExist\<close>\<close>
  | Wrapped string go_err string \<comment> \<open>\<open>fmt.Errorf\<close> with one \<open>%w\<close>: text before, error, text after\<close>

text \<open>\<open>errors.Is(err, target)\<close> for a sentinel target: equality anywhere along the chain.\<close>

fun errors_Is :: "go_err \<Rightarrow> go_err \<Rightarrow> bool" where
  "errors_Is (Wrapped p e s) target \<longleftrightarrow> Wrapped p e s = target \<or> errors_Is e target"
| "errors_Is e target \<longleftrightarrow> e = target"

text \<open>
  \<open>errors.As\<close> with a \<open>net.Error\<close> target finds the first error of the chain that has a
  \<open>Timeout\<close> method; \<open>net.ErrClosed\<close> and the two \<open>syscall.Errno\<close> codes have one that answers
  false. A \<open>net.OpError\<close> delegates \<open>Timeout\<close> to the error it wraps, so it is a \<open>Wrapped\<close> error.
\<close>

fun as_net_Error :: "go_err \<Rightarrow> bool option" where
  "as_net_Error (Wrapped p e s) = as_net_Error e"
| "as_net_Error (NetErr m t) = Some t"
| "as_net_Error NetErrClosed = Some False"
| "as_net_Error ECONNRESET = Some False"
| "as_net_Error EPIPE = Some False"
| "as_net_Error _ = None"

section \<open>Messages\<close>

text \<open>The verb \<open>%d\<close> on a non-negative integer, and on any integer.\<close>

fun dec_digits :: "nat \<Rightarrow> string" where
  "dec_digits n = (if n < 10 then [char_of (48 + n)] else dec_digits (n div 10) @ [char_of (48 + n mod 10)])"

declare dec_digits.simps [simp del]

definition fmt_d :: "int \<Rightarrow> string" where
  "fmt_d i = (if i < 0 then CHR ''-'' # dec_digits (nat (- i)) else dec_digits (nat i))"

text \<open>The text \<open>err.Error()\<close> of each error.\<close>

fun Error_msg :: "go_err \<Rightarrow> string" where
  "Error_msg EOF = ''EOF''"
| "Error_msg UnexpectedEOF = ''unexpected EOF''"
| "Error_msg NetErrClosed = ''use of closed network connection''"
| "Error_msg ErrClosedPipe = ''io: read/write on closed pipe''"
| "Error_msg (NetErr m t) = m"
| "Error_msg ECONNRESET = ''connection reset by peer''"
| "Error_msg EPIPE = ''broken pipe''"
| "Error_msg (VersionRefusalError a b) =
     ''session: unsupported transport version (supported '' @ dec_digits (unat a) @ ''..'' @ dec_digits (unat b) @ '')''"
| "Error_msg (Opaque m) = m"
| "Error_msg StoreErrInboxFull = ''store: recipient inbox full''"
| "Error_msg ErrInboxFull = ''relay: recipient inbox full''"
| "Error_msg ErrRateLimited = ''relay: push rate limited''"
| "Error_msg ErrTooManyReceiveSessions = ''relay: too many concurrent receive sessions for this device''"
| "Error_msg ErrPushBodyTooShort = ''relay: push body too short (want '' @ [CHR 0xE2, CHR 0x89, CHR 0xA5] @ '' 32 bytes for recipient key)''"
| "Error_msg ErrEnvelopeTooLarge = ''relay: envelope too large''"
| "Error_msg ErrPushRecipientMalformed = ''relay: envelope recipient_pub missing or malformed''"
| "Error_msg ErrRecipientMismatch = ''relay: push routing prefix does not match the envelope recipient''"
| "Error_msg ErrNotExist = ''file does not exist''"
| "Error_msg ErrExist = ''file already exists''"
| "Error_msg (Wrapped p e s) = p @ Error_msg e @ s"

text \<open>\<open>strings.Contains\<close>.\<close>

fun contains :: "string \<Rightarrow> string \<Rightarrow> bool" where
  "contains s [] \<longleftrightarrow> True"
| "contains [] (c # cs) \<longleftrightarrow> False"
| "contains (x # xs) (c # cs) \<longleftrightarrow> take (Suc (length cs)) (x # xs) = c # cs \<or> contains xs (c # cs)"

lemma contains_append: "contains (p @ sub @ s) sub"
proof (cases sub)
  case (Cons c cs)
  have "contains (p @ (c # cs) @ s) (c # cs)"
    by (induction p) auto
  with Cons show ?thesis by simp
qed simp

end
