(* ===== verification/Envelope.thy ===== *)
theory Envelope
  imports Relay_Prelude
begin

text \<open>
  Routing identity and the one Envelope field the relay reads: \<open>internal/relay/envelope.go\<close> and
  the protobuf wire reader of \<open>internal/relay/envelope_recipient.go\<close>. The reader is compared
  with a declarative description of the protobuf wire format.
\<close>

section \<open>Types and constants\<close>

text \<open>\<open>type RecipientKey [32]byte\<close>: a byte list; every key the code builds has length 32.\<close>

type_synonym RecipientKey = bytes

record DeliveryBlob =
  BlobID :: int
  Env :: bytes

definition ProtocolMaxEnvelopeBytes :: int where "ProtocolMaxEnvelopeBytes = 65482"

text \<open>\<open>30 * 24 * time.Hour\<close>, in nanoseconds.\<close>

definition relay_DefaultTTL :: int where "relay_DefaultTTL = 30 * 24 * (3600 * 1000000000)"

definition envelopeRecipientPubField :: u64 where "envelopeRecipientPubField = 3"

section \<open>Varints\<close>

text \<open>The loop of \<open>readVarint\<close>: the bytes from index \<open>i\<close> on, with the value read so far.\<close>

fun varint_from :: "bytes \<Rightarrow> nat \<Rightarrow> u64 \<Rightarrow> u64 \<times> nat" where
  "varint_from [] i v = (0, 0)"
| "varint_from (c # cs) i v =
     (if \<not> i < 10 then (0, 0)
      else if i = 9 \<and> c > 1 then (0, 0)
      else let v = v OR push_bit (7 * i) (ucast (c AND 0x7F)) in
        if c < 0x80 then (v, i + 1) else varint_from cs (i + 1) v)"

definition readVarint :: "bytes \<Rightarrow> u64 \<times> nat" where
  "readVarint b = varint_from b 0 0"

lemma varint_from_consumed: "varint_from b i v = (w, n) \<Longrightarrow> n \<noteq> 0 \<Longrightarrow> i < n \<and> n \<le> i + length b \<and> n \<le> 10"
  by (induction b i v arbitrary: w n rule: varint_from.induct)
     (fastforce simp: Let_def split: if_splits)+

lemma readVarint_consumed: "readVarint b = (v, n) \<Longrightarrow> n \<noteq> 0 \<Longrightarrow> 0 < n \<and> n \<le> length b \<and> n \<le> 10"
  using varint_from_consumed [of b 0 0 v n] by (simp add: readVarint_def)

section \<open>Reading \<open>recipient_pub\<close>\<close>

text \<open>One constructor per error text of \<open>extractEnvelopeRecipient\<close>, with its arguments.\<close>

datatype extract_error =
    TruncatedTag nat
  | FieldNumberZero nat
  | TruncatedVarint u64 nat
  | Truncated64 u64 nat
  | TruncatedLength u64 nat
  | ClaimsTooMany u64 u64 nat
  | RecipientLength u64
  | Truncated32 u64 nat
  | UnsupportedWireType u64 u64
  | NoRecipientPub
  | AmbiguousRecipient nat

text \<open>The \<open>for\<close> loop, with the loop variables \<open>pos\<close>, \<open>key\<close> and \<open>found\<close>.\<close>

function extract_loop :: "bytes \<Rightarrow> nat \<Rightarrow> RecipientKey \<Rightarrow> nat \<Rightarrow> extract_error + RecipientKey \<times> nat" where
  "extract_loop envelope pos key found =
     (if \<not> pos < length envelope then Inr (key, found)
      else case readVarint (drop pos envelope) of (tag, n) \<Rightarrow>
        if n = 0 then Inl (TruncatedTag pos)
        else let pos1 = pos + n; fieldNum = drop_bit 3 tag; wireType = tag AND 0x7 in
          if fieldNum = 0 then Inl (FieldNumberZero (pos1 - n))
          else if wireType = 0 then
            (case readVarint (drop pos1 envelope) of (_, n) \<Rightarrow>
               if n = 0 then Inl (TruncatedVarint fieldNum pos1)
               else extract_loop envelope (pos1 + n) key found)
          else if wireType = 1 then
            (if length envelope - pos1 < 8 then Inl (Truncated64 fieldNum pos1)
             else extract_loop envelope (pos1 + 8) key found)
          else if wireType = 2 then
            (case readVarint (drop pos1 envelope) of (len, n) \<Rightarrow>
               if n = 0 then Inl (TruncatedLength fieldNum pos1)
               else let pos2 = pos1 + n in
                 if (of_nat (length envelope - pos2) :: u64) < len
                 then Inl (ClaimsTooMany fieldNum len (length envelope - pos2))
                 else if fieldNum = envelopeRecipientPubField then
                   (if len \<noteq> 32 then Inl (RecipientLength len)
                    else extract_loop envelope (pos2 + unat len) (take 32 (drop pos2 envelope)) (found + 1))
                 else extract_loop envelope (pos2 + unat len) key found)
          else if wireType = 5 then
            (if length envelope - pos1 < 4 then Inl (Truncated32 fieldNum pos1)
             else extract_loop envelope (pos1 + 4) key found)
          else Inl (UnsupportedWireType wireType fieldNum))"
  by pat_completeness auto
termination
  by (relation "measure (\<lambda>(envelope, pos, key, found). length envelope - pos)") auto

declare extract_loop.simps [simp del]

definition extractEnvelopeRecipient :: "bytes \<Rightarrow> extract_error + RecipientKey" where
  "extractEnvelopeRecipient envelope =
     (case extract_loop envelope 0 (replicate 32 0) 0 of
        Inl e \<Rightarrow> Inl e
      | Inr (key, found) \<Rightarrow>
          if found = 0 then Inl NoRecipientPub
          else if found > 1 then Inl (AmbiguousRecipient found)
          else Inr key)"

section \<open>The wire format, declaratively\<close>

text \<open>
  A varint is a list of at most ten bytes whose last byte alone has its top bit clear; the
  tenth may carry one value bit only. Its value is the base-128 number of its low seven bits,
  least significant group first. The encoding need not be the shortest one.
\<close>

definition is_varint :: "bytes \<Rightarrow> bool" where
  "is_varint bs \<longleftrightarrow> bs \<noteq> [] \<and> length bs \<le> 10 \<and> (\<forall>b \<in> set (butlast bs). 0x80 \<le> b) \<and> last bs < 0x80 \<and>
     (length bs = 10 \<longrightarrow> last bs \<le> 1)"

fun varint_value :: "bytes \<Rightarrow> nat" where
  "varint_value [] = 0"
| "varint_value (c # cs) = unat c mod 128 + 128 * varint_value cs"

lemma unat_or_push_bit:
  fixes v :: u64 and w :: u64
  assumes "unat v < 2 ^ k" "unat w * 2 ^ k + unat v < 2 ^ 64"
  shows "unat (v OR push_bit k w) = unat v + unat w * 2 ^ k"
proof -
  have "\<not> bit v n \<or> \<not> bit (push_bit k w) n" for n
  proof (cases "n < k")
    case False
    with assms(1) have "unat v < 2 ^ n"
      by (meson less_le_trans not_less one_le_numeral power_increasing)
    then have "\<not> bit (unat v) n"
      by (metis bit_take_bit_iff less_irrefl_nat take_bit_nat_eq_self)
    then show ?thesis by (simp add: bit_unsigned_iff)
  qed (simp add: bit_simps)
  then have "v AND push_bit k w = 0"
    by (intro bit_word_eqI) (simp add: bit_and_iff)
  then have "v OR push_bit k w = v + push_bit k w"
    by (simp add: disjunctive_add_eq_or)
  also have "\<dots> = of_nat (unat v + unat w * 2 ^ k)"
    by (simp add: push_bit_eq_mult)
  finally have "unat (v OR push_bit k w) = (unat v + unat w * 2 ^ k) mod 2 ^ 64"
    by (simp only: unat_of_nat) simp
  with assms(2) show ?thesis by simp
qed

text \<open>The varint shape seen from index \<open>i\<close> of the loop.\<close>

definition varint_tail :: "nat \<Rightarrow> bytes \<Rightarrow> bool" where
  "varint_tail i bs \<longleftrightarrow> bs \<noteq> [] \<and> i + length bs \<le> 10 \<and> (\<forall>b \<in> set (butlast bs). 0x80 \<le> b) \<and>
     last bs < 0x80 \<and> (i + length bs = 10 \<longrightarrow> last bs \<le> 1)"

lemma is_varint_tail: "is_varint bs \<longleftrightarrow> varint_tail 0 bs"
  by (auto simp: is_varint_def varint_tail_def)

lemma varint_tail_Cons:
  "varint_tail i (c # cs) \<longleftrightarrow>
     (if c < 0x80 then cs = [] \<and> i < 10 \<and> (i = 9 \<longrightarrow> c \<le> 1) else varint_tail (i + 1) cs)"
  by (auto simp: varint_tail_def not_less)

lemma unat_low7: "unat (ucast (c AND 0x7F) :: u64) = unat (c :: byte) mod 128"
proof -
  have "c AND 0x7F = take_bit 7 c"
    by (simp add: take_bit_eq_mask mask_numeral)
  then have "unat (c AND 0x7F) = unat c mod 128"
    by (simp add: unsigned_take_bit_eq take_bit_eq_mod unat_mod)
  moreover have "unat (ucast (c AND 0x7F) :: u64) = unat (c AND 0x7F)"
    by (simp add: unsigned_ucast_eq take_bit_nat_eq_self_iff)
       (rule less_trans [OF unsigned_less], simp)
  ultimately show ?thesis by simp
qed

text \<open>One round of the loop on values: the next seven bits are added above the ones read.\<close>

lemma varint_round:
  fixes v :: u64 and c :: byte
  assumes v: "unat v < 2 ^ (7 * i)" and i: "i < 10" "i = 9 \<longrightarrow> c \<le> 1"
  shows "unat (v OR push_bit (7 * i) (ucast (c AND 0x7F))) = unat v + unat c mod 128 * 2 ^ (7 * i)"
    and "i < 9 \<Longrightarrow> unat v + unat c mod 128 * 2 ^ (7 * i) < 2 ^ (7 * (i + 1))"
proof -
  have small: "unat v + unat c mod 128 * 2 ^ (7 * i) < 2 ^ (7 * (i + 1))"
  proof -
    have "unat c mod 128 + 1 \<le> 128" by (simp add: Suc_le_eq)
    then have "(unat c mod 128 + 1) * 2 ^ (7 * i) \<le> 128 * 2 ^ (7 * i)" by (rule mult_le_mono1)
    also have "\<dots> = 2 ^ (7 * (i + 1))" by (simp add: power_add)
    finally show ?thesis using v unfolding add_mult_distrib by linarith
  qed
  then show "i < 9 \<Longrightarrow> unat v + unat c mod 128 * 2 ^ (7 * i) < 2 ^ (7 * (i + 1))" .
  have "unat c mod 128 * 2 ^ (7 * i) + unat v < 2 ^ 64"
  proof (cases "i = 9")
    case True
    with i have "unat c \<le> 1" by (simp add: word_le_nat_alt)
    with v True show ?thesis by (auto simp: le_Suc_eq)
  next
    case False
    with i have "(2::nat) ^ (7 * (i + 1)) \<le> 2 ^ 63" by (intro power_increasing) auto
    with small show ?thesis by simp
  qed
  then show "unat (v OR push_bit (7 * i) (ucast (c AND 0x7F))) = unat v + unat c mod 128 * 2 ^ (7 * i)"
    using unat_or_push_bit [OF v, of "ucast (c AND 0x7F)"] by (simp add: unat_low7)
qed

lemma varint_from_tail:
  assumes "varint_tail i bs" "unat v < 2 ^ (7 * i)"
  shows "\<exists>w. varint_from (bs @ rest) i v = (w, i + length bs) \<and>
             unat w = unat v + varint_value bs * 2 ^ (7 * i)"
  using assms
proof (induction bs arbitrary: i v)
  case Nil
  then show ?case by (simp add: varint_tail_def)
next
  case (Cons c cs)
  from Cons.prems(1) have i: "i < 10" "i = 9 \<longrightarrow> c \<le> 1"
    by (auto simp: varint_tail_def word_le_nat_alt word_less_nat_alt split: if_splits)
  let ?v = "v OR push_bit (7 * i) (ucast (c AND 0x7F))"
  note rnd = varint_round [OF Cons.prems(2) i]
  show ?case
  proof (cases "c < 0x80")
    case True
    with Cons.prems have "cs = []" by (simp add: varint_tail_Cons)
    with True i rnd(1) show ?thesis by (auto simp: not_less Let_def)
  next
    case False
    with Cons.prems have t: "varint_tail (i + 1) cs" by (simp add: varint_tail_Cons)
    then have "i < 9" by (cases cs) (auto simp: varint_tail_def)
    then have "unat ?v < 2 ^ (7 * (i + 1))" using rnd by simp
    from Cons.IH [OF t this] obtain w where
      "varint_from (cs @ rest) (i + 1) ?v = (w, i + 1 + length cs)"
      "unat w = unat ?v + varint_value cs * 2 ^ (7 * (i + 1))" by blast
    with False i \<open>i < 9\<close> rnd(1) show ?thesis
      by (simp add: Let_def algebra_simps power_add)
  qed
qed

lemma varint_from_Some:
  assumes "varint_from b i v = (w, n)" "n \<noteq> 0"
  shows "\<exists>bs rest. b = bs @ rest \<and> varint_tail i bs"
  using assms
proof (induction b i v arbitrary: w n rule: varint_from.induct)
  case (2 c cs i v)
  show ?case
  proof (cases "c < 0x80")
    case True
    with "2.prems" have "varint_tail i [c]" by (auto simp: varint_tail_Cons not_less split: if_splits)
    then show ?thesis by (intro exI [of _ "[c]"] exI [of _ cs]) simp
  next
    case False
    with 2 obtain bs rest where "cs = bs @ rest" "varint_tail (i + 1) bs"
      by (fastforce simp: Let_def split: if_splits)
    with False show ?thesis by (intro exI [of _ "c # bs"] exI [of _ rest]) (simp add: varint_tail_Cons)
  qed
qed simp

text \<open>
  \<open>readVarint\<close> consumes \<open>n > 0\<close> bytes and returns \<open>v\<close> exactly when the first \<open>n\<close> bytes
  are a well-formed protobuf varint of value \<open>v\<close>: no varint of up to ten bytes is refused, none
  is misread, and the 64-bit accumulator never overflows.
\<close>

lemma readVarint_iff:
  "readVarint b = (v, n) \<and> n \<noteq> 0 \<longleftrightarrow>
     (\<exists>bs rest. b = bs @ rest \<and> is_varint bs \<and> n = length bs \<and> unat v = varint_value bs)"
proof
  assume r: "readVarint b = (v, n) \<and> n \<noteq> 0"
  then obtain bs rest where b: "b = bs @ rest" "varint_tail 0 bs"
    using varint_from_Some [of b 0 0 v n] by (auto simp: readVarint_def)
  from varint_from_tail [OF b(2), of 0 rest] r b
  show "\<exists>bs rest. b = bs @ rest \<and> is_varint bs \<and> n = length bs \<and> unat v = varint_value bs"
    by (auto simp: readVarint_def is_varint_tail)
next
  assume "\<exists>bs rest. b = bs @ rest \<and> is_varint bs \<and> n = length bs \<and> unat v = varint_value bs"
  then obtain bs rest where b: "b = bs @ rest" "varint_tail 0 bs" "n = length bs" "unat v = varint_value bs"
    by (auto simp: is_varint_tail)
  from varint_from_tail [OF b(2), of 0 rest] b show "readVarint b = (v, n) \<and> n \<noteq> 0"
    by (auto simp: readVarint_def varint_tail_def word_unat_eq_iff)
qed

section \<open>Wire messages\<close>

text \<open>
  A protobuf message is a sequence of fields, each a tag varint (field number times eight plus
  wire type) and a payload. The deprecated group types 3 and 4 and the invalid types 6 and 7
  have no constructor, and field number 0 is excluded.
\<close>

datatype wire_field = FVarint nat nat | FI64 nat bytes | FLen nat bytes | FI32 nat bytes

definition is_tag :: "nat \<Rightarrow> nat \<Rightarrow> bytes \<Rightarrow> bool" where
  "is_tag n wt tb \<longleftrightarrow> is_varint tb \<and> 0 < n \<and> varint_value tb = 8 * n + wt"

fun field_wire :: "wire_field \<Rightarrow> bytes \<Rightarrow> bool" where
  "field_wire (FVarint n v) bs \<longleftrightarrow> (\<exists>tb vb. bs = tb @ vb \<and> is_tag n 0 tb \<and> is_varint vb \<and> varint_value vb = v)"
| "field_wire (FI64 n p) bs \<longleftrightarrow> (\<exists>tb. bs = tb @ p \<and> is_tag n 1 tb \<and> length p = 8)"
| "field_wire (FLen n p) bs \<longleftrightarrow>
     (\<exists>tb lb. bs = tb @ lb @ p \<and> is_tag n 2 tb \<and> is_varint lb \<and> varint_value lb = length p)"
| "field_wire (FI32 n p) bs \<longleftrightarrow> (\<exists>tb. bs = tb @ p \<and> is_tag n 5 tb \<and> length p = 4)"

fun wire_message :: "bytes \<Rightarrow> wire_field list \<Rightarrow> bool" where
  "wire_message env [] \<longleftrightarrow> env = []"
| "wire_message env (f # fs) \<longleftrightarrow> (\<exists>a b. env = a @ b \<and> field_wire f a \<and> wire_message b fs)"

text \<open>The payloads of the length-delimited fields numbered 3, in order.\<close>

fun recipients :: "wire_field list \<Rightarrow> bytes list" where
  "recipients [] = []"
| "recipients (FLen n p # fs) = (if n = 3 then p # recipients fs else recipients fs)"
| "recipients (_ # fs) = recipients fs"

lemma readVarint_append:
  "is_varint bs \<Longrightarrow> \<exists>v. readVarint (bs @ rest) = (v, length bs) \<and> unat v = varint_value bs"
  using varint_from_tail [of 0 bs 0 rest] by (auto simp: readVarint_def is_varint_tail)

lemma readVarint_split:
  assumes "readVarint (drop pos env) = (v, n)" "n \<noteq> 0"
  obtains bs where "drop pos env = bs @ drop (pos + n) env" "is_varint bs" "n = length bs"
    "unat v = varint_value bs" "pos + n \<le> length env"
proof -
  obtain bs rest where b: "drop pos env = bs @ rest" "is_varint bs" "n = length bs" "unat v = varint_value bs"
    using assms readVarint_iff by metis
  from b have "drop n (drop pos env) = rest" by simp
  then have "drop (pos + n) env = rest" by (simp add: add.commute)
  moreover have "pos + n \<le> length env" using readVarint_consumed [OF assms] by fastforce
  ultimately show ?thesis using b that [of bs] by simp
qed

lemma unat_tag_parts:
  fixes tag :: u64
  shows "unat (drop_bit 3 tag) = unat tag div 8" "unat (tag AND 7) = unat tag mod 8"
proof -
  show "unat (drop_bit 3 tag) = unat tag div 8"
    by (simp add: drop_bit_eq_div unat_div)
  have "tag AND 7 = take_bit 3 tag" by (simp add: take_bit_eq_mask mask_numeral)
  then show "unat (tag AND 7) = unat tag mod 8"
    by (simp add: unsigned_take_bit_eq take_bit_eq_mod unat_mod)
qed

lemma drop_drop_append: "drop p env = a @ b \<Longrightarrow> drop (p + length a) env = b"
  by (metis add.commute append_eq_conv_conj drop_drop)

lemma is_tag_read:
  assumes "is_tag n wt tb" "wt < 8" "drop pos env = tb @ r"
  shows "\<exists>tag. readVarint (drop pos env) = (tag, length tb) \<and> unat (drop_bit 3 tag) = n \<and>
    unat (tag AND 7) = wt \<and> drop (pos + length tb) env = r \<and> tb \<noteq> [] \<and>
    pos + length tb + length r = length env \<and> pos < length env \<and> 0 < n"
proof -
  obtain tag where t: "readVarint (tb @ r) = (tag, length tb)" "unat tag = 8 * n + wt"
    using readVarint_append assms(1) by (metis is_tag_def)
  have tb: "tb \<noteq> []" using assms(1) by (auto simp: is_tag_def is_varint_def)
  then have "pos + length tb + length r = length env" "pos < length env"
    using arg_cong [OF assms(3), of length] by (cases tb; force)+
  then show ?thesis
    using t tb assms drop_drop_append [OF assms(3)] by (auto simp: unat_tag_parts is_tag_def)
qed

text \<open>The comparisons of \<open>extract_loop\<close> on words, read as natural numbers.\<close>

lemma u64_eq_numeral:
  "(w :: u64) = 0 \<longleftrightarrow> unat w = 0" "w = 1 \<longleftrightarrow> unat w = 1" "w = 2 \<longleftrightarrow> unat w = 2"
  "w = 3 \<longleftrightarrow> unat w = 3" "w = 5 \<longleftrightarrow> unat w = 5" "w = 32 \<longleftrightarrow> unat w = 32"
  by (simp_all add: word_unat_eq_iff)

lemma of_nat_less_len:
  "n < 2 ^ 63 \<Longrightarrow> ((of_nat n :: u64) < len) \<longleftrightarrow> n < unat len"
  by (simp add: word_less_nat_alt unat_of_nat)

text \<open>One round of the loop over each kind of field.\<close>

lemma extract_FVarint:
  assumes "drop pos env = a @ b" "field_wire (FVarint n v) a"
  shows "extract_loop env pos key found = extract_loop env (pos + length a) key found"
proof -
  from assms obtain tb vb where f: "a = tb @ vb" "is_tag n 0 tb" "is_varint vb" by auto
  with assms have d: "drop pos env = tb @ vb @ b" by simp
  obtain w where w: "readVarint (vb @ b) = (w, length vb)" using readVarint_append [OF f(3)] by blast
  have "vb \<noteq> []" using f(3) by (auto simp: is_varint_def)
  then show ?thesis
    using is_tag_read [OF f(2) _ d] f(1) w
    by (auto simp: extract_loop.simps [of env pos] Let_def u64_eq_numeral add.assoc)
qed

lemma extract_FI64:
  assumes "drop pos env = a @ b" "field_wire (FI64 n p) a"
  shows "extract_loop env pos key found = extract_loop env (pos + length a) key found"
proof -
  from assms obtain tb where f: "a = tb @ p" "is_tag n 1 tb" "length p = 8" by auto
  with assms have d: "drop pos env = tb @ p @ b" by simp
  show ?thesis
    using is_tag_read [OF f(2) _ d] f(1,3)
    by (auto simp: extract_loop.simps [of env pos] Let_def u64_eq_numeral add.assoc)
qed

lemma extract_FI32:
  assumes "drop pos env = a @ b" "field_wire (FI32 n p) a"
  shows "extract_loop env pos key found = extract_loop env (pos + length a) key found"
proof -
  from assms obtain tb where f: "a = tb @ p" "is_tag n 5 tb" "length p = 4" by auto
  with assms have d: "drop pos env = tb @ p @ b" by simp
  show ?thesis
    using is_tag_read [OF f(2) _ d] f(1,3)
    by (auto simp: extract_loop.simps [of env pos] Let_def u64_eq_numeral add.assoc)
qed

lemma extract_FLen:
  assumes "drop pos env = a @ b" "field_wire (FLen n p) a" "length env < 2 ^ 63" "n = 3 \<longrightarrow> length p = 32"
  shows "extract_loop env pos key found =
    extract_loop env (pos + length a) (if n = 3 then p else key) (if n = 3 then found + 1 else found)"
proof -
  from assms obtain tb lb where f: "a = tb @ lb @ p" "is_tag n 2 tb" "is_varint lb" "varint_value lb = length p"
    by auto
  with assms have d: "drop pos env = tb @ lb @ p @ b" by simp
  obtain len where len: "readVarint (lb @ p @ b) = (len, length lb)" "unat len = length p"
    using readVarint_append [OF f(3)] f(4) by metis
  have lb: "lb \<noteq> []" using f(3) by (auto simp: is_varint_def)
  have rest: "drop (pos + length tb + length lb) env = p @ b"
    using d by (blast intro: drop_drop_append)
  have rem: "length env - (pos + length tb + length lb) = length p + length b"
    using arg_cong [OF rest, of length] by simp
  have "length p + length b < 2 ^ 63" using assms(3) rem by linarith
  then have fits: "\<not> (of_nat (length p + length b) :: u64) < len"
    using len(2) by (subst of_nat_less_len) auto
  show ?thesis
    using is_tag_read [OF f(2) _ d] len lb rest rem fits f(1) assms(4)
    by (auto simp: extract_loop.simps [of env pos] Let_def u64_eq_numeral envelopeRecipientPubField_def add.assoc)
qed

lemmas extract_rounds = extract_FVarint extract_FI64 extract_FI32 extract_FLen

text \<open>Every well-formed message is walked to its end, collecting the recipient fields.\<close>

lemma extract_loop_complete:
  assumes "length env < 2 ^ 63" "wire_message (drop pos env) fs" "\<forall>p \<in> set (recipients fs). length p = 32"
  shows "extract_loop env pos key found = Inr (last (key # recipients fs), found + length (recipients fs))"
  using assms(2-)
proof (induction fs arbitrary: pos key found)
  case Nil
  then show ?case by (simp add: extract_loop.simps [of env pos])
next
  case (Cons f fs)
  then obtain a b where ab: "drop pos env = a @ b" "field_wire f a" "wire_message b fs" by auto
  have r: "\<forall>p \<in> set (recipients fs). length p = 32"
    using Cons.prems(2) by (cases f) (auto split: if_splits)
  have ih: "extract_loop env (pos + length a) key' found' =
      Inr (last (key' # recipients fs), found' + length (recipients fs))" for key' found'
    by (rule Cons.IH [OF _ r]) (use ab in \<open>simp add: drop_drop_append\<close>)
  show ?case
  proof (cases f)
    case (FLen n p)
    with ab Cons.prems(2) assms(1) show ?thesis
      by (subst extract_FLen [of pos env a b n p]) (auto simp: ih)
  qed (use ab ih in \<open>auto simp: extract_rounds(1-3) simp del: field_wire.simps\<close>)
qed

lemma field_wire_nonempty: "field_wire f a \<Longrightarrow> a \<noteq> []"
  by (cases f) (auto simp: is_tag_def is_varint_def)

lemma len_payload:
  assumes "readVarint (drop q env) = (len, m)" "m \<noteq> 0" "\<not> (of_nat (length env - (q + m)) :: u64) < len"
  shows "\<exists>lb p b. drop q env = lb @ p @ b \<and> is_varint lb \<and> varint_value lb = length p \<and> length p = unat len"
proof -
  from readVarint_split [OF assms(1,2)] obtain lb where lb: "drop q env = lb @ drop (q + m) env"
    "is_varint lb" "unat len = varint_value lb" .
  from assms(3) have "unat len \<le> length env - (q + m)"
    by (metis not_less le_trans mod_less_eq_dividend unat_of_nat word_less_nat_alt)
  with lb show ?thesis
    by (intro exI [of _ lb] exI [of _ "take (unat len) (drop (q + m) env)"]
        exI [of _ "drop (unat len) (drop (q + m) env)"]) (simp del: drop_drop)
qed

text \<open>A round that does not fail has read one field.\<close>

lemma extract_round_sound:
  assumes "pos < length env" "extract_loop env pos key found = Inr r"
  shows "\<exists>f a b. drop pos env = a @ b \<and> field_wire f a \<and> (\<forall>p. f = FLen 3 p \<longrightarrow> length p = 32)"
proof -
  obtain tag n where tag: "readVarint (drop pos env) = (tag, n)" by fastforce
  with assms have n: "n \<noteq> 0" and fz: "drop_bit 3 tag \<noteq> 0"
    by (auto simp: extract_loop.simps [of env pos] Let_def split: if_splits)
  from readVarint_split [OF tag n] obtain tb where tb: "drop pos env = tb @ drop (pos + n) env"
    "is_varint tb" "n = length tb" "unat tag = varint_value tb" "pos + n \<le> length env" .
  let ?fn = "unat (drop_bit 3 tag)" and ?wt = "unat (tag AND 7)"
  have is_tag: "is_tag ?fn ?wt tb"
    using tb fz by (simp add: is_tag_def unat_tag_parts u64_eq_numeral)
  define q where "q = pos + n"
  note eqs = extract_loop.simps [of env pos] Let_def u64_eq_numeral tag n envelopeRecipientPubField_def
  consider "?wt = 0" | "?wt = 1" | "?wt = 2" | "?wt = 5"
    using assms fz by (auto simp: eqs split: if_splits)
  then show ?thesis
  proof cases
    case 1
    obtain v m where v: "readVarint (drop q env) = (v, m)" by fastforce
    with 1 assms fz have "m \<noteq> 0" by (auto simp: eqs q_def split: if_splits)
    from readVarint_split [OF v this] obtain vb where
      "drop q env = vb @ drop (q + m) env" "is_varint vb" "unat v = varint_value vb" .
    then show ?thesis
      using tb(1) is_tag 1 by (intro exI [of _ "FVarint ?fn (unat v)"] exI [of _ "tb @ vb"]
          exI [of _ "drop (q + m) env"]) (auto simp: q_def)
  next
    case 2
    with assms fz have "8 \<le> length env - q" by (auto simp: eqs q_def split: if_splits)
    then show ?thesis
      using tb(1) is_tag 2
      by (intro exI [of _ "FI64 ?fn (take 8 (drop q env))"] exI [of _ "tb @ take 8 (drop q env)"]
          exI [of _ "drop 8 (drop q env)"]) (auto simp: q_def simp del: drop_drop)
  next
    case 4
    with assms fz have "4 \<le> length env - q" by (auto simp: eqs q_def split: if_splits)
    then show ?thesis
      using tb(1) is_tag 4
      by (intro exI [of _ "FI32 ?fn (take 4 (drop q env))"] exI [of _ "tb @ take 4 (drop q env)"]
          exI [of _ "drop 4 (drop q env)"]) (auto simp: q_def simp del: drop_drop)
  next
    case 3
    obtain len m where len: "readVarint (drop q env) = (len, m)" by fastforce
    have m: "m \<noteq> 0" and le: "\<not> (of_nat (length env - (q + m)) :: u64) < len"
      and r: "?fn = 3 \<longrightarrow> unat len = 32"
      using 3 assms fz len by (auto simp: eqs q_def split: if_splits)
    from len_payload [OF len m le] obtain lb p b where "drop q env = lb @ p @ b" "is_varint lb"
      "varint_value lb = length p" "length p = unat len" by blast
    then show ?thesis
      using tb(1) is_tag 3 r
      by (intro exI [of _ "FLen ?fn p"] exI [of _ "tb @ lb @ p"] exI [of _ b]) (auto simp: q_def)
  qed
qed

lemma extract_loop_sound:
  assumes "length env < 2 ^ 63" "extract_loop env pos key found = Inr (k, m)"
  shows "\<exists>fs. wire_message (drop pos env) fs \<and> (\<forall>p \<in> set (recipients fs). length p = 32) \<and>
    k = last (key # recipients fs) \<and> m = found + length (recipients fs)"
  using assms(2)
proof (induction "length env - pos" arbitrary: pos key found rule: less_induct)
  case less
  show ?case
  proof (cases "pos < length env")
    case False
    with less.prems show ?thesis by (intro exI [of _ "[]"]) (simp add: extract_loop.simps [of env pos])
  next
    case True
    from extract_round_sound [OF True less.prems] obtain f a b where
      ab: "drop pos env = a @ b" "field_wire f a" "\<forall>p. f = FLen 3 p \<longrightarrow> length p = 32" by blast
    define key' where "key' = (case f of FLen n p \<Rightarrow> if n = 3 then p else key | _ \<Rightarrow> key)"
    define found' where "found' = (case f of FLen n p \<Rightarrow> if n = 3 then found + 1 else found | _ \<Rightarrow> found)"
    have "extract_loop env pos key found = extract_loop env (pos + length a) key' found'"
      using extract_rounds [OF ab(1)] ab(2,3) assms(1)
      by (cases f) (simp_all add: key'_def found'_def del: field_wire.simps)
    with less.prems have "extract_loop env (pos + length a) key' found' = Inr (k, m)" by simp
    moreover have "length env - (pos + length a) < length env - pos"
      using True field_wire_nonempty [OF ab(2)] by (cases a) auto
    ultimately obtain fs where "wire_message b fs" "\<forall>p \<in> set (recipients fs). length p = 32"
      "k = last (key' # recipients fs)" "m = found' + length (recipients fs)"
      using less.hyps [of "pos + length a" key' found'] ab(1) by (auto simp: drop_drop_append)
    then show ?thesis
      using ab by (intro exI [of _ "f # fs"]) (cases f; auto simp: key'_def found'_def simp del: field_wire.simps)
  qed
qed

text \<open>
  C7. \<open>extractEnvelopeRecipient\<close> returns a key exactly when the whole envelope is a well-formed
  sequence of protobuf fields (non-zero field numbers, wire types 0, 1, 2 and 5) in which field 3
  occurs exactly once as a length-delimited field, and that key is its 32-byte payload. (The
  length bound is Go's: no slice is longer than an \<open>int\<close>.)
\<close>

theorem extract_recipient_iff:
  assumes "length envelope < 2 ^ 63"
  shows "extractEnvelopeRecipient envelope = Inr key \<longleftrightarrow>
    length key = 32 \<and> (\<exists>fs. wire_message envelope fs \<and> recipients fs = [key])"
proof
  assume "extractEnvelopeRecipient envelope = Inr key"
  then have "extract_loop envelope 0 (replicate 32 0) 0 = Inr (key, 1)"
    by (auto simp: extractEnvelopeRecipient_def split: sum.splits if_splits prod.splits)
  from extract_loop_sound [OF assms this] obtain fs where fs: "wire_message envelope fs"
    "\<forall>p \<in> set (recipients fs). length p = 32" "key = last (replicate 32 0 # recipients fs)"
    "length (recipients fs) = 1" by auto
  from fs(3,4) have "recipients fs = [key]" by (cases "recipients fs") auto
  with fs(1,2) show "length key = 32 \<and> (\<exists>fs. wire_message envelope fs \<and> recipients fs = [key])" by auto
next
  assume "length key = 32 \<and> (\<exists>fs. wire_message envelope fs \<and> recipients fs = [key])"
  then obtain fs where "wire_message (drop 0 envelope) fs" "recipients fs = [key]" "length key = 32" by auto
  with extract_loop_complete [OF assms, of 0 fs] show "extractEnvelopeRecipient envelope = Inr key"
    by (simp add: extractEnvelopeRecipient_def)
qed

text \<open>An envelope with a varint field 1 and the recipient in field 3.\<close>

theorem extract_recipient_iff_witness:
  "length ([0x08, 0x96, 0x01, 0x1A, 0x20] @ replicate 32 7 :: bytes) < 2 ^ 63 \<and>
   extractEnvelopeRecipient ([0x08, 0x96, 0x01, 0x1A, 0x20] @ replicate 32 7) = Inr (replicate 32 7)"
proof -
  let ?e = "[0x08, 0x96, 0x01, 0x1A, 0x20] @ replicate 32 7 :: bytes"
  have h: "length ?e < 2 ^ 63" by simp
  have "field_wire (FVarint 1 150) [0x08, 0x96, 0x01]"
    unfolding field_wire.simps
    by (intro exI [of _ "[0x08]"] exI [of _ "[0x96, 0x01]"]) (simp add: is_tag_def is_varint_def)
  moreover have "field_wire (FLen 3 (replicate 32 7)) ([0x1A, 0x20] @ replicate 32 7)"
    unfolding field_wire.simps
    by (intro exI [of _ "[0x1A]"] exI [of _ "[0x20]"]) (simp add: is_tag_def is_varint_def)
  ultimately have "wire_message ?e [FVarint 1 150, FLen 3 (replicate 32 7)]"
    unfolding wire_message.simps
    by (metis append.right_neutral append_Cons append_Nil)
  moreover have "recipients [FVarint 1 150, FLen 3 (replicate 32 7)] = [replicate 32 7]" by simp
  ultimately have "extractEnvelopeRecipient ?e = Inr (replicate 32 7)"
    unfolding extract_recipient_iff [OF h] by (metis length_replicate)
  with h show ?thesis by blast
qed

end
