(* ===== verification/Inbox_Store.thy ===== *)
theory Inbox_Store
  imports Go_Errors Envelope
begin

text \<open>
  The storage port of \<open>internal/store/inbox_store.go\<close>: the data it exchanges, the interface as
  a record of methods, and its contract as a locale over an abstract view of the store, the
  list of stored rows in arrival order. What every client may rely on is proved once, inside
  the locale; the SQLite and Postgres models interpret it.
\<close>

section \<open>Data\<close>

record InboxLimits =
  MaxBlobs :: int
  MaxBytes :: int

definition no_limits :: InboxLimits where "no_limits = \<lparr>MaxBlobs = 0, MaxBytes = 0\<rparr>"

record InboxBlob =
  ID :: int
  Envelope :: bytes

text \<open>One row of the \<open>inbox\<close> table, the same in both backends.\<close>

record inbox_row =
  row_id :: int
  recipient :: bytes
  envelope :: bytes
  expires_at :: int

definition row_blob :: "inbox_row \<Rightarrow> InboxBlob" where
  "row_blob r = \<lparr>ID = row_id r, Envelope = envelope r\<rparr>"

text \<open>
  The points at which a call into the database can fail. A call of the store is given the
  failures it meets (\<open>faults\<close>): a driver or disk error, a cancelled context. Statements that
  fail, and transactions that do not commit, have no effect.
\<close>

datatype db_step = BeginTx | Probe | Insert | Commit | Query | Scan nat | Rows | Delete | ReapExec | PingRow

type_synonym faults = "db_step \<Rightarrow> go_err option"

definition no_faults :: faults where "no_faults = (\<lambda>_. None)"

text \<open>A statement sent to the driver: the failure it meets there comes before its own.\<close>

definition run_stmt :: "faults \<Rightarrow> db_step \<Rightarrow> go_err + 'a \<Rightarrow> go_err + 'a" where
  "run_stmt f s r = (case f s of Some e \<Rightarrow> Inl e | None \<Rightarrow> r)"

text \<open>Wall-clock time and durations are nanoseconds; \<open>Unix()\<close> is whole seconds, rounded down.\<close>

definition Unix :: "int \<Rightarrow> int" where "Unix t = t div 1000000000"

section \<open>The interface\<close>

record 'st InboxStore =
  PutWithLimits :: "faults \<Rightarrow> int \<Rightarrow> 'st \<Rightarrow> bytes \<Rightarrow> bytes \<Rightarrow> int \<Rightarrow> InboxLimits \<Rightarrow> go_err option \<times> 'st"
  PeekAfter :: "faults \<Rightarrow> 'st \<Rightarrow> bytes \<Rightarrow> int \<Rightarrow> go_err + InboxBlob list"
  DeleteForRecipient :: "faults \<Rightarrow> 'st \<Rightarrow> bytes \<Rightarrow> int list \<Rightarrow> go_err option \<times> 'st"
  Reap :: "faults \<Rightarrow> int \<Rightarrow> 'st \<Rightarrow> go_err option \<times> 'st"
  Ping :: "faults \<Rightarrow> 'st \<Rightarrow> go_err option"

section \<open>Views of a row list\<close>

definition inbox_rows :: "inbox_row list \<Rightarrow> bytes \<Rightarrow> inbox_row list" where
  "inbox_rows rs k = filter (\<lambda>r. recipient r = k) rs"

definition inbox_count :: "inbox_row list \<Rightarrow> bytes \<Rightarrow> int" where
  "inbox_count rs k = int (length (inbox_rows rs k))"

definition inbox_bytes :: "inbox_row list \<Rightarrow> bytes \<Rightarrow> int" where
  "inbox_bytes rs k = int (sum_list (map (length \<circ> envelope) (inbox_rows rs k)))"

text \<open>The quota test: does one more envelope of this size fit?\<close>

definition quota_ok :: "InboxLimits \<Rightarrow> inbox_row list \<Rightarrow> bytes \<Rightarrow> bytes \<Rightarrow> bool" where
  "quota_ok lim rs k env \<longleftrightarrow>
     (MaxBlobs lim > 0 \<longrightarrow> inbox_count rs k < MaxBlobs lim) \<and>
     (MaxBytes lim > 0 \<longrightarrow> inbox_bytes rs k + int (length env) \<le> MaxBytes lim)"

text \<open>An Inbox within its quota, the property the test is there to keep.\<close>

definition within_limits :: "InboxLimits \<Rightarrow> inbox_row list \<Rightarrow> bytes \<Rightarrow> bool" where
  "within_limits lim rs k \<longleftrightarrow>
     (MaxBlobs lim > 0 \<longrightarrow> inbox_count rs k \<le> MaxBlobs lim) \<and>
     (MaxBytes lim > 0 \<longrightarrow> inbox_bytes rs k \<le> MaxBytes lim)"

lemma inbox_rows_append [simp]: "inbox_rows (rs @ qs) k = inbox_rows rs k @ inbox_rows qs k"
  by (simp add: inbox_rows_def)

lemma inbox_rows_Nil [simp]: "inbox_rows [] k = []"
  by (simp add: inbox_rows_def)

lemma inbox_rows_Cons [simp]:
  "inbox_rows (r # rs) k = (if recipient r = k then r # inbox_rows rs k else inbox_rows rs k)"
  by (simp add: inbox_rows_def)

lemma set_inbox_rows [simp]: "set (inbox_rows rs k) = {r \<in> set rs. recipient r = k}"
  by (auto simp: inbox_rows_def)

lemma inbox_count_snoc:
  "inbox_count (rs @ [r]) k = inbox_count rs k + (if recipient r = k then 1 else 0)"
  by (simp add: inbox_count_def)

lemma inbox_bytes_snoc:
  "inbox_bytes (rs @ [r]) k = inbox_bytes rs k + (if recipient r = k then int (length (envelope r)) else 0)"
  by (simp add: inbox_bytes_def)

lemma inbox_count_filter: "inbox_count (filter P rs) k \<le> inbox_count rs k"
  by (induction rs) (auto simp: inbox_count_def)

lemma inbox_bytes_filter: "inbox_bytes (filter P rs) k \<le> inbox_bytes rs k"
  by (induction rs) (auto simp: inbox_bytes_def)

lemma within_limits_filter: "within_limits lim rs k \<Longrightarrow> within_limits lim (filter P rs) k"
  using inbox_count_filter [of P rs k] inbox_bytes_filter [of P rs k]
  by (auto simp: within_limits_def)

lemma within_limits_snoc:
  "within_limits lim rs k \<Longrightarrow> quota_ok lim rs (recipient r) (envelope r) \<Longrightarrow> within_limits lim (rs @ [r]) k"
  by (auto simp: within_limits_def quota_ok_def inbox_count_snoc inbox_bytes_snoc)

lemma sorted_wrt_map_filter: "sorted_wrt R (map g xs) \<Longrightarrow> sorted_wrt R (map g (filter P xs))"
  by (induction xs) auto

lemma sort_key_id: "sorted_wrt (<) (map row_id rs) \<Longrightarrow> sort_key row_id (filter P rs) = filter P rs"
  by (simp add: sort_key_id_if_sorted sorted_wrt_map_filter strict_sorted_imp_sorted)

section \<open>The contract\<close>

text \<open>
  What every implementation promises about the list of stored rows when calls do not overlap.
  IDs are assigned in arrival order and never reused: \<open>last_id\<close> is the highest ID ever assigned.
  A call that fails leaves the rows as they were; a failed put may use up an ID.
\<close>

locale inbox_contract =
  fixes S :: "'st InboxStore"
    and invar :: "'st \<Rightarrow> bool"
    and rows :: "'st \<Rightarrow> inbox_row list"
    and last_id :: "'st \<Rightarrow> int"
  assumes rows_sorted: "invar st \<Longrightarrow> sorted_wrt (<) (map row_id (rows st))"
    and rows_bound: "invar st \<Longrightarrow> r \<in> set (rows st) \<Longrightarrow> 0 < row_id r \<and> row_id r \<le> last_id st"
    and put_ok: "invar st \<Longrightarrow> PutWithLimits S f now st k env ttl lim = (None, st') \<Longrightarrow>
      invar st' \<and> length k = 32 \<and> quota_ok lim (rows st) k env \<and> last_id st < last_id st' \<and>
      rows st' = rows st @ [\<lparr>row_id = last_id st', recipient = k, envelope = env, expires_at = Unix (now + ttl)\<rparr>]"
    and put_err: "invar st \<Longrightarrow> PutWithLimits S f now st k env ttl lim = (Some e, st') \<Longrightarrow>
      invar st' \<and> rows st' = rows st \<and> last_id st \<le> last_id st'"
    and put_full: "invar st \<Longrightarrow> length k = 32 \<Longrightarrow> \<not> quota_ok lim (rows st) k env \<Longrightarrow>
      \<exists>e. PutWithLimits S no_faults now st k env ttl lim = (Some e, st) \<and> errors_Is e StoreErrInboxFull"
    and put_progress: "invar st \<Longrightarrow> quota_ok lim (rows st) k env \<Longrightarrow> length k = 32 \<Longrightarrow>
      last_id st < 2 ^ 63 - 1 \<Longrightarrow> fst (PutWithLimits S no_faults now st k env ttl lim) = None"
    and peek_ok: "invar st \<Longrightarrow> PeekAfter S f st k a = Inr bs \<Longrightarrow>
      bs = map row_blob (filter (\<lambda>r. recipient r = k \<and> a < row_id r) (rows st))"
    and peek_progress: "invar st \<Longrightarrow> \<exists>bs. PeekAfter S no_faults st k a = Inr bs"
    and delete_ok: "invar st \<Longrightarrow> DeleteForRecipient S f st k ids = (None, st') \<Longrightarrow>
      invar st' \<and> last_id st' = last_id st \<and>
      rows st' = filter (\<lambda>r. \<not> (recipient r = k \<and> row_id r \<in> set ids)) (rows st)"
    and delete_err: "DeleteForRecipient S f st k ids = (Some e, st') \<Longrightarrow> st' = st"
    and delete_progress: "invar st \<Longrightarrow> fst (DeleteForRecipient S no_faults st k ids) = None"
    and reap_ok: "invar st \<Longrightarrow> Reap S f now st = (None, st') \<Longrightarrow>
      invar st' \<and> last_id st' = last_id st \<and> rows st' = filter (\<lambda>r. Unix now < expires_at r) (rows st)"
    and reap_err: "Reap S f now st = (Some e, st') \<Longrightarrow> st' = st"
    and reap_progress: "invar st \<Longrightarrow> fst (Reap S no_faults now st) = None"

text \<open>A store in which a failed put leaves no trace at all.\<close>

locale strict_inbox_contract = inbox_contract +
  assumes put_err_same: "PutWithLimits S f now st k env ttl lim = (Some e, st') \<Longrightarrow> st' = st"

text \<open>Histories: any sequence of calls, each with the clock and the failures it meets.\<close>

datatype store_op =
    OpPut faults int bytes bytes int InboxLimits
  | OpDelete faults bytes "int list"
  | OpReap faults int

fun exec_op :: "'st InboxStore \<Rightarrow> store_op \<Rightarrow> 'st \<Rightarrow> 'st" where
  "exec_op S (OpPut f now k env ttl lim) st = snd (PutWithLimits S f now st k env ttl lim)"
| "exec_op S (OpDelete f k ids) st = snd (DeleteForRecipient S f st k ids)"
| "exec_op S (OpReap f now) st = snd (Reap S f now st)"

text \<open>The operations entitled to remove a row: its owner's delete, and a reap after expiry.\<close>

fun may_remove :: "inbox_row \<Rightarrow> store_op \<Rightarrow> bool" where
  "may_remove r (OpPut f now k env ttl lim) \<longleftrightarrow> False"
| "may_remove r (OpDelete f k ids) \<longleftrightarrow> k = recipient r \<and> row_id r \<in> set ids"
| "may_remove r (OpReap f now) \<longleftrightarrow> expires_at r \<le> Unix now"

text \<open>The operations of one Inbox's owner and pushers; a reap sweeps every Inbox.\<close>

fun touches :: "bytes \<Rightarrow> store_op \<Rightarrow> bool" where
  "touches k (OpPut f now k' env ttl lim) \<longleftrightarrow> k' = k"
| "touches k (OpDelete f k' ids) \<longleftrightarrow> k' = k"
| "touches k (OpReap f now) \<longleftrightarrow> True"

context inbox_contract
begin

lemma exec_put_cases:
  assumes "invar st"
  shows "rows (exec_op S (OpPut f now k env ttl lim) st) = rows st \<or>
    (\<exists>r. rows (exec_op S (OpPut f now k env ttl lim) st) = rows st @ [r] \<and> recipient r = k \<and> envelope r = env \<and>
       quota_ok lim (rows st) k env)"
  by (cases "PutWithLimits S f now st k env ttl lim", cases "fst (PutWithLimits S f now st k env ttl lim)")
     (auto dest: put_err [OF assms] put_ok [OF assms])

lemma exec_delete_cases:
  assumes "invar st"
  shows "exec_op S (OpDelete f k ids) st = st \<or>
    rows (exec_op S (OpDelete f k ids) st) = filter (\<lambda>r. \<not> (recipient r = k \<and> row_id r \<in> set ids)) (rows st)"
  by (cases "DeleteForRecipient S f st k ids", cases "fst (DeleteForRecipient S f st k ids)")
     (auto dest: delete_err delete_ok [OF assms])

lemma exec_reap_cases:
  assumes "invar st"
  shows "exec_op S (OpReap f now) st = st \<or>
    rows (exec_op S (OpReap f now) st) = filter (\<lambda>r. Unix now < expires_at r) (rows st)"
  by (cases "Reap S f now st", cases "fst (Reap S f now st)")
     (auto dest: reap_err reap_ok [OF assms])

lemma exec_invar:
  assumes "invar st"
  shows "invar (exec_op S op st) \<and> last_id st \<le> last_id (exec_op S op st)"
proof (cases op)
  case (OpPut f now k env ttl lim)
  then show ?thesis
    by (cases "PutWithLimits S f now st k env ttl lim", cases "fst (PutWithLimits S f now st k env ttl lim)")
       (auto dest: put_err [OF assms] put_ok [OF assms] simp: assms)
next
  case (OpDelete f k ids)
  then show ?thesis
    by (cases "DeleteForRecipient S f st k ids", cases "fst (DeleteForRecipient S f st k ids)")
       (auto dest: delete_err delete_ok [OF assms] simp: assms)
next
  case (OpReap f now)
  then show ?thesis
    by (cases "Reap S f now st", cases "fst (Reap S f now st)")
       (auto dest: reap_err reap_ok [OF assms] simp: assms)
qed

lemma history_invar: "invar st \<Longrightarrow> invar (fold (exec_op S) ops st)"
  by (induction ops arbitrary: st) (simp_all add: exec_invar)

lemma history_last_id: "invar st \<Longrightarrow> last_id st \<le> last_id (fold (exec_op S) ops st)"
  by (induction ops arbitrary: st) (auto intro: order_trans dest: exec_invar)

text \<open>A row leaves only by an operation entitled to remove it.\<close>

lemma exec_keeps:
  assumes "invar st" "r \<in> set (rows st)" "\<not> may_remove r op"
  shows "r \<in> set (rows (exec_op S op st))"
proof (cases op)
  case (OpPut f now k env ttl lim)
  with assms(2,3) exec_put_cases [OF assms(1), of f now k env ttl lim] show ?thesis by auto
next
  case (OpDelete f k ids)
  with assms(2,3) exec_delete_cases [OF assms(1), of f k ids] show ?thesis by auto
next
  case (OpReap f now)
  with assms(2,3) exec_reap_cases [OF assms(1), of f now] show ?thesis by auto
qed

lemma history_keeps:
  assumes "invar st" "r \<in> set (rows st)" "\<forall>op \<in> set ops. \<not> may_remove r op"
  shows "r \<in> set (rows (fold (exec_op S) ops st))"
  using assms
proof (induction ops arbitrary: st)
  case (Cons op ops)
  have "r \<in> set (rows (exec_op S op st))"
    using Cons.prems by (intro exec_keeps) auto
  with Cons show ?case by (simp add: exec_invar)
qed simp

text \<open>When every put to an Inbox carries the same limits, the Inbox never exceeds them.\<close>

lemma exec_within:
  assumes "invar st" "within_limits lim (rows st) k"
    "\<And>f now env ttl lim'. op = OpPut f now k env ttl lim' \<Longrightarrow> lim' = lim"
  shows "within_limits lim (rows (exec_op S op st)) k"
proof (cases op)
  case (OpPut f now k' env ttl lim')
  show ?thesis
  proof (cases "k' = k")
    case True
    with OpPut assms(3) have "lim' = lim" by blast
    with True OpPut assms(2) exec_put_cases [OF assms(1), of f now k env ttl lim] show ?thesis
      by (metis within_limits_snoc)
  next
    case False
    with OpPut assms(2) exec_put_cases [OF assms(1), of f now k' env ttl lim'] show ?thesis
      by (auto simp: within_limits_def inbox_count_snoc inbox_bytes_snoc)
  qed
next
  case (OpDelete f k' ids)
  with assms(2) exec_delete_cases [OF assms(1), of f k' ids] show ?thesis
    by (metis within_limits_filter)
next
  case (OpReap f now)
  with assms(2) exec_reap_cases [OF assms(1), of f now] show ?thesis
    by (metis within_limits_filter)
qed

lemma history_within:
  assumes "invar st" "within_limits lim (rows st) k"
    "\<forall>f now env ttl lim'. OpPut f now k env ttl lim' \<in> set ops \<longrightarrow> lim' = lim"
  shows "within_limits lim (rows (fold (exec_op S) ops st)) k"
  using assms
proof (induction ops arbitrary: st)
  case (Cons op ops)
  have "within_limits lim (rows (exec_op S op st)) k"
    using Cons.prems by (intro exec_within) auto
  with Cons show ?case by (simp add: exec_invar)
qed simp

text \<open>The operations of one Inbox's owner and pushers do not reach another Inbox.\<close>

lemma exec_isolated:
  assumes "invar st" "\<not> touches k op"
  shows "inbox_rows (rows (exec_op S op st)) k = inbox_rows (rows st) k"
proof (cases op)
  case (OpPut f now k' env ttl lim')
  with assms(2) exec_put_cases [OF assms(1), of f now k' env ttl lim'] show ?thesis by auto
next
  case (OpDelete f k' ids)
  with assms(2) exec_delete_cases [OF assms(1), of f k' ids] show ?thesis
    by (auto simp: inbox_rows_def intro: filter_cong)
qed (use assms in auto)

text \<open>A new row is beyond every cursor taken from a row seen before it.\<close>

lemma put_beyond_cursor:
  assumes "invar st" "c = 0 \<or> (\<exists>r \<in> set (rows st0). c = row_id r)" "invar st0" "last_id st0 \<le> last_id st"
    "PutWithLimits S f now st k env ttl lim = (None, st')" "0 \<le> last_id st"
  shows "\<lparr>row_id = last_id st', recipient = k, envelope = env, expires_at = Unix (now + ttl)\<rparr>
           \<in> set (filter (\<lambda>r. recipient r = k \<and> c < row_id r) (rows st'))"
  using assms put_ok [OF assms(1,5)] rows_bound [OF assms(3)] by fastforce

end

end
