(* ===== verification/Sqlite_Store.thy ===== *)
theory Sqlite_Store
  imports Inbox_Store
begin

text \<open>
  The SQLite InboxStore of \<open>internal/store/sqlite/store.go\<close>: the database as a record, each SQL
  statement of the file as a function on it, and the methods of \<open>Store\<close> composed from them
  with their error wrapping. The theory ends with the interpretation of the storage contract.

  The driver is a parameter through \<open>faults\<close>: at every call into it an error may come back.
  What is relied on is SQLite's documented behaviour: a statement that fails has no effect, a
  transaction takes effect at its commit or not at all, \<open>AUTOINCREMENT\<close> assigns IDs above every
  ID the table ever held and fails once \<open>2^63 - 1\<close> is used up, and the single connection of
  the pool (\<open>SetMaxOpenConns(1)\<close>) serialises the calls.
\<close>

section \<open>The database\<close>

text \<open>
  One table, described by what the relay depends on: its column names, whether the ID column
  has \<open>AUTOINCREMENT\<close> and the recipient column its \<open>CHECK\<close>, the rows in ID order, and the
  table's entry in \<open>sqlite_sequence\<close>.
\<close>

record inbox_table =
  columns :: "string list"
  autoincrement :: bool
  check32 :: bool
  trows :: "inbox_row list"
  seq :: int

record db =
  user_version :: int
  wal :: bool
  inbox :: "inbox_table option"

definition inbox_columns :: "string list" where
  "inbox_columns = [''id'', ''recipient'', ''envelope'', ''expires_at'']"

text \<open>The table the \<open>schema\<close> constant creates.\<close>

definition fresh_inbox :: inbox_table where
  "fresh_inbox = \<lparr>columns = inbox_columns, autoincrement = True, check32 = True, trows = [], seq = 0\<rparr>"

text \<open>\<open>CREATE TABLE IF NOT EXISTS\<close>: an existing table is left as it is.\<close>

definition schema :: "db \<Rightarrow> db" where
  "schema d = (case inbox d of None \<Rightarrow> d\<lparr>inbox := Some fresh_inbox\<rparr> | Some t \<Rightarrow> d)"

record Store =
  store_db :: db
  version :: int
  wasReset :: bool

definition StoreVersion :: "Store \<Rightarrow> int" where "StoreVersion s = version s"
definition WasReset :: "Store \<Rightarrow> bool" where "WasReset s = wasReset s"

section \<open>SQL statements\<close>

text \<open>A statement that names a missing table or column is refused when it is prepared.\<close>

definition prepare :: "string list \<Rightarrow> db \<Rightarrow> go_err + inbox_table" where
  "prepare cols d =
     (case inbox d of
        None \<Rightarrow> Inl (Opaque ''no such table: inbox'')
      | Some t \<Rightarrow> if set cols \<subseteq> set (columns t) then Inr t else Inl (Opaque ''no such column''))"

text \<open>\<open>SELECT COUNT(*), COALESCE(SUM(LENGTH(envelope)), 0) FROM inbox WHERE recipient = ?\<close>\<close>

definition select_occupancy :: "bytes \<Rightarrow> db \<Rightarrow> go_err + int \<times> int" where
  "select_occupancy k d =
     (case prepare [''envelope'', ''recipient''] d of
        Inl e \<Rightarrow> Inl e
      | Inr t \<Rightarrow> Inr (inbox_count (trows t) k, inbox_bytes (trows t) k))"

text \<open>
  The ID of a new row: with \<open>AUTOINCREMENT\<close> one above everything ever assigned, otherwise one
  above the largest ID present. (At the largest ID SQLite without \<open>AUTOINCREMENT\<close> tries random
  IDs; the model refuses there in both cases.)
\<close>

definition next_id :: "inbox_table \<Rightarrow> int" where
  "next_id t = (if autoincrement t then max (seq t) (Max (insert 0 (row_id ` set (trows t)))) + 1
                else Max (insert 0 (row_id ` set (trows t))) + 1)"

text \<open>\<open>INSERT INTO inbox (recipient, envelope, expires_at) VALUES (?, ?, ?)\<close>\<close>

definition insert_inbox :: "bytes \<Rightarrow> bytes \<Rightarrow> int \<Rightarrow> db \<Rightarrow> go_err + db" where
  "insert_inbox k env expiresAt d =
     (case prepare [''recipient'', ''envelope'', ''expires_at''] d of
        Inl e \<Rightarrow> Inl e
      | Inr t \<Rightarrow>
          if check32 t \<and> length k \<noteq> 32 then Inl (Opaque ''CHECK constraint failed: length(recipient) = 32'')
          else if next_id t > 2 ^ 63 - 1 then Inl (Opaque ''database or disk is full'')
          else Inr (d\<lparr>inbox := Some (t\<lparr>trows := trows t @ [\<lparr>row_id = next_id t, recipient = k,
                        envelope = env, expires_at = expiresAt\<rparr>], seq := next_id t\<rparr>)\<rparr>))"

text \<open>\<open>SELECT id, envelope FROM inbox WHERE recipient = ? AND id > ? ORDER BY id ASC\<close>\<close>

definition select_after :: "bytes \<Rightarrow> int \<Rightarrow> db \<Rightarrow> go_err + inbox_row list" where
  "select_after k afterID d =
     (case prepare [''id'', ''envelope'', ''recipient''] d of
        Inl e \<Rightarrow> Inl e
      | Inr t \<Rightarrow> Inr (sort_key row_id (filter (\<lambda>r. recipient r = k \<and> row_id r > afterID) (trows t))))"

text \<open>\<open>DELETE FROM inbox WHERE ...\<close>\<close>

definition delete_where :: "string list \<Rightarrow> (inbox_row \<Rightarrow> bool) \<Rightarrow> db \<Rightarrow> go_err + db" where
  "delete_where cols P d =
     (case prepare cols d of
        Inl e \<Rightarrow> Inl e
      | Inr t \<Rightarrow> Inr (d\<lparr>inbox := Some (t\<lparr>trows := filter (\<lambda>r. \<not> P r) (trows t)\<rparr>)\<rparr>))"

section \<open>The methods of Store\<close>

text \<open>The occupancy check of \<open>PutWithLimits\<close>: the \<open>if\<close> block before the insert.\<close>

definition put_check :: "faults \<Rightarrow> db \<Rightarrow> bytes \<Rightarrow> bytes \<Rightarrow> InboxLimits \<Rightarrow> go_err option" where
  "put_check f d k env limits =
     (if MaxBlobs limits > 0 \<or> MaxBytes limits > 0 then
        (case run_stmt f Probe (select_occupancy k d) of
           Inl e \<Rightarrow> Some (Wrapped ''sqlite: put probe: '' e '''')
         | Inr (blobs, bytes) \<Rightarrow>
             if MaxBlobs limits > 0 \<and> blobs \<ge> MaxBlobs limits
             then Some (Wrapped '''' StoreErrInboxFull
                    ('': '' @ fmt_d blobs @ '' blobs (limit '' @ fmt_d (MaxBlobs limits) @ '')''))
             else if MaxBytes limits > 0 \<and> bytes + int (length env) > MaxBytes limits
             then Some (Wrapped '''' StoreErrInboxFull
                    ('': '' @ fmt_d bytes @ ''+'' @ fmt_d (int (length env)) @ '' bytes (limit '' @ fmt_d (MaxBytes limits) @ '')''))
             else None)
      else None)"

definition sqlite_PutWithLimits ::
    "faults \<Rightarrow> int \<Rightarrow> db \<Rightarrow> bytes \<Rightarrow> bytes \<Rightarrow> int \<Rightarrow> InboxLimits \<Rightarrow> go_err option \<times> db" where
  "sqlite_PutWithLimits f now d k env ttl limits =
     (let expiresAt = Unix (now + ttl) in
      case f BeginTx of
        Some e \<Rightarrow> (Some (Wrapped ''sqlite: put begin: '' e ''''), d)
      | None \<Rightarrow>
          (case put_check f d k env limits of
             Some e \<Rightarrow> (Some e, d)
           | None \<Rightarrow>
               (case run_stmt f Insert (insert_inbox k env expiresAt d) of
                  Inl e \<Rightarrow> (Some (Wrapped ''sqlite: put: '' e ''''), d)
                | Inr d' \<Rightarrow>
                    (case f Commit of
                       Some e \<Rightarrow> (Some (Wrapped ''sqlite: put commit: '' e ''''), d)
                     | None \<Rightarrow> (None, d')))))"

definition sqlite_Put :: "faults \<Rightarrow> int \<Rightarrow> db \<Rightarrow> bytes \<Rightarrow> bytes \<Rightarrow> int \<Rightarrow> go_err option \<times> db" where
  "sqlite_Put f now d k env ttl = sqlite_PutWithLimits f now d k env ttl no_limits"

text \<open>The scan loop; the \<open>i\<close>-th \<open>Scan\<close> may fail, and so may the iteration itself.\<close>

fun scan_rows :: "faults \<Rightarrow> nat \<Rightarrow> inbox_row list \<Rightarrow> go_err + InboxBlob list" where
  "scan_rows f i [] =
     (case f Rows of Some e \<Rightarrow> Inl (Wrapped ''sqlite: peek after rows: '' e '''') | None \<Rightarrow> Inr [])"
| "scan_rows f i (r # rs) =
     (case f (Scan i) of
        Some e \<Rightarrow> Inl (Wrapped ''sqlite: peek after scan: '' e '''')
      | None \<Rightarrow> map_sum id (Cons (row_blob r)) (scan_rows f (i + 1) rs))"

definition sqlite_PeekAfter :: "faults \<Rightarrow> db \<Rightarrow> bytes \<Rightarrow> int \<Rightarrow> go_err + InboxBlob list" where
  "sqlite_PeekAfter f d k afterID =
     (case run_stmt f Query (select_after k afterID d) of
        Inl e \<Rightarrow> Inl (Wrapped ''sqlite: peek after: '' e '''')
      | Inr rs \<Rightarrow> scan_rows f 0 rs)"

definition sqlite_Peek :: "faults \<Rightarrow> db \<Rightarrow> bytes \<Rightarrow> go_err + InboxBlob list" where
  "sqlite_Peek f d k = sqlite_PeekAfter f d k 0"

definition sqlite_DeleteForRecipient :: "faults \<Rightarrow> db \<Rightarrow> bytes \<Rightarrow> int list \<Rightarrow> go_err option \<times> db" where
  "sqlite_DeleteForRecipient f d k ids =
     (if ids = [] then (None, d)
      else case run_stmt f Delete (delete_where [''recipient'', ''id''] (\<lambda>r. recipient r = k \<and> row_id r \<in> set ids) d) of
        Inl e \<Rightarrow> (Some (Wrapped ''sqlite: delete for recipient: '' e ''''), d)
      | Inr d' \<Rightarrow> (None, d'))"

definition sqlite_Reap :: "faults \<Rightarrow> int \<Rightarrow> db \<Rightarrow> go_err option \<times> db" where
  "sqlite_Reap f now d =
     (case run_stmt f ReapExec (delete_where [''expires_at''] (\<lambda>r. expires_at r \<le> Unix now) d) of
        Inl e \<Rightarrow> (Some (Wrapped ''sqlite: reap: '' e ''''), d)
      | Inr d' \<Rightarrow> (None, d'))"

definition sqlite_Ping :: "faults \<Rightarrow> db \<Rightarrow> go_err option" where
  "sqlite_Ping f d = map_option (\<lambda>e. Wrapped ''sqlite: ping: '' e '''') (f PingRow)"

definition sqlite_store :: "db InboxStore" where
  "sqlite_store = \<lparr>PutWithLimits = sqlite_PutWithLimits, PeekAfter = sqlite_PeekAfter,
     DeleteForRecipient = sqlite_DeleteForRecipient, Reap = sqlite_Reap, Ping = sqlite_Ping\<rparr>"

section \<open>The invariant\<close>

definition table_ok :: "inbox_table \<Rightarrow> bool" where
  "table_ok t \<longleftrightarrow> set inbox_columns \<subseteq> set (columns t) \<and> autoincrement t \<and> check32 t \<and> 0 \<le> seq t \<and>
     sorted_wrt (<) (map row_id (trows t)) \<and> (\<forall>r \<in> set (trows t). 0 < row_id r \<and> row_id r \<le> seq t)"

definition sqlite_invar :: "db \<Rightarrow> bool" where
  "sqlite_invar d \<longleftrightarrow> (case inbox d of None \<Rightarrow> False | Some t \<Rightarrow> table_ok t)"

definition db_rows :: "db \<Rightarrow> inbox_row list" where
  "db_rows d = (case inbox d of None \<Rightarrow> [] | Some t \<Rightarrow> trows t)"

definition db_seq :: "db \<Rightarrow> int" where
  "db_seq d = (case inbox d of None \<Rightarrow> 0 | Some t \<Rightarrow> seq t)"

lemma sqlite_invarE:
  assumes "sqlite_invar d"
  obtains t where "inbox d = Some t" "table_ok t" "db_rows d = trows t" "db_seq d = seq t"
  using assms by (auto simp: sqlite_invar_def db_rows_def db_seq_def split: option.splits)

lemma prepare_ok:
  "inbox d = Some t \<Longrightarrow> table_ok t \<Longrightarrow> set cols \<subseteq> set inbox_columns \<Longrightarrow> prepare cols d = Inr t"
  by (auto simp: prepare_def table_ok_def)

lemma next_id_ok: "table_ok t \<Longrightarrow> next_id t = seq t + 1"
  by (subgoal_tac "Max (insert 0 (row_id ` set (trows t))) \<le> seq t")
     (auto simp: next_id_def table_ok_def)

lemma table_ok_snoc:
  "table_ok t \<Longrightarrow>
   table_ok (t\<lparr>trows := trows t @ [\<lparr>row_id = seq t + 1, recipient = k, envelope = env, expires_at = x\<rparr>], seq := seq t + 1\<rparr>)"
  by (fastforce simp: table_ok_def sorted_wrt_append)

lemma table_ok_filter: "table_ok t \<Longrightarrow> table_ok (t\<lparr>trows := filter P (trows t)\<rparr>)"
  by (auto simp: table_ok_def sorted_wrt_map_filter)

section \<open>The methods on a well-formed database\<close>

lemma put_check_ok:
  assumes "inbox d = Some t" "table_ok t"
  shows "put_check f d k env lim = None \<Longrightarrow> quota_ok lim (trows t) k env"
    and "quota_ok lim (trows t) k env \<Longrightarrow> put_check no_faults d k env lim = None"
    and "\<not> quota_ok lim (trows t) k env \<Longrightarrow>
           \<exists>s. put_check no_faults d k env lim = Some (Wrapped '''' StoreErrInboxFull s)"
  using prepare_ok [OF assms, of "[''envelope'', ''recipient'']"]
  by (auto simp: put_check_def quota_ok_def run_stmt_def select_occupancy_def no_faults_def inbox_columns_def
      not_less not_le split: if_splits option.splits)

lemma insert_inbox_ok:
  assumes "inbox d = Some t" "table_ok t"
  shows "insert_inbox k env x d =
    (if length k \<noteq> 32 then Inl (Opaque ''CHECK constraint failed: length(recipient) = 32'')
     else if seq t + 1 > 2 ^ 63 - 1 then Inl (Opaque ''database or disk is full'')
     else Inr (d\<lparr>inbox := Some (t\<lparr>trows := trows t @ [\<lparr>row_id = seq t + 1, recipient = k,
                 envelope = env, expires_at = x\<rparr>], seq := seq t + 1\<rparr>)\<rparr>))"
  using assms by (simp add: insert_inbox_def prepare_ok inbox_columns_def next_id_ok) (simp add: table_ok_def)

lemma sqlite_put_ok:
  assumes "sqlite_invar d" "sqlite_PutWithLimits f now d k env ttl lim = (None, d')"
  shows "sqlite_invar d' \<and> length k = 32 \<and> quota_ok lim (db_rows d) k env \<and> db_seq d' = db_seq d + 1 \<and>
    db_rows d' = db_rows d @ [\<lparr>row_id = db_seq d', recipient = k, envelope = env, expires_at = Unix (now + ttl)\<rparr>]"
  using assms(1)
proof (rule sqlite_invarE)
  fix t assume t: "inbox d = Some t" "table_ok t" and v: "db_rows d = trows t" "db_seq d = seq t"
  note * = assms(2) [unfolded sqlite_PutWithLimits_def Let_def run_stmt_def insert_inbox_ok [OF t]]
  from * have "quota_ok lim (trows t) k env"
    by (intro put_check_ok(1) [OF t]) (auto split: option.splits)
  with * t show ?thesis
    by (auto simp: v sqlite_invar_def db_rows_def db_seq_def table_ok_snoc split: option.splits if_splits)
qed

lemma sqlite_put_err: "sqlite_PutWithLimits f now d k env ttl lim = (Some e, d') \<Longrightarrow> d' = d"
  by (auto simp: sqlite_PutWithLimits_def Let_def split: option.splits sum.splits)

lemma sqlite_put_full:
  assumes "sqlite_invar d" "\<not> quota_ok lim (db_rows d) k env"
  shows "\<exists>e. sqlite_PutWithLimits no_faults now d k env ttl lim = (Some e, d) \<and> errors_Is e StoreErrInboxFull"
  using assms(1)
proof (rule sqlite_invarE)
  fix t assume t: "inbox d = Some t" "table_ok t" and "db_rows d = trows t"
  with assms(2) put_check_ok(3) [OF t, of lim k env] show ?thesis
    by (auto simp: sqlite_PutWithLimits_def Let_def no_faults_def)
qed

lemma sqlite_put_progress:
  assumes "sqlite_invar d" "quota_ok lim (db_rows d) k env" "length k = 32" "db_seq d < 2 ^ 63 - 1"
  shows "fst (sqlite_PutWithLimits no_faults now d k env ttl lim) = None"
  using assms(1)
proof (rule sqlite_invarE)
  fix t assume t: "inbox d = Some t" "table_ok t" and v: "db_rows d = trows t" "db_seq d = seq t"
  with assms put_check_ok(2) [OF t, of lim k env] show ?thesis
    by (simp add: sqlite_PutWithLimits_def Let_def run_stmt_def insert_inbox_ok no_faults_def)
qed

lemma scan_rows_Inr: "scan_rows f i rs = Inr bs \<Longrightarrow> bs = map row_blob rs"
  by (induction f i rs arbitrary: bs rule: scan_rows.induct)
     (auto split: option.splits simp: map_sum_def split: sum.splits)

lemma scan_rows_no_faults: "scan_rows no_faults i rs = Inr (map row_blob rs)"
  by (induction rs arbitrary: i) (simp_all add: no_faults_def)

lemma select_after_ok:
  assumes "inbox d = Some t" "table_ok t"
  shows "select_after k a d = Inr (filter (\<lambda>r. recipient r = k \<and> a < row_id r) (trows t))"
  using assms by (simp add: select_after_def prepare_ok inbox_columns_def sort_key_id table_ok_def)

lemma sqlite_peek_ok:
  assumes "sqlite_invar d"
  shows "sqlite_PeekAfter f d k a = Inr bs \<Longrightarrow>
           bs = map row_blob (filter (\<lambda>r. recipient r = k \<and> a < row_id r) (db_rows d))"
    and "sqlite_PeekAfter no_faults d k a =
           Inr (map row_blob (filter (\<lambda>r. recipient r = k \<and> a < row_id r) (db_rows d)))"
  using assms
  by (auto elim!: sqlite_invarE simp: sqlite_PeekAfter_def run_stmt_def select_after_ok scan_rows_no_faults
      no_faults_def [THEN fun_cong] dest: scan_rows_Inr split: option.splits)

lemma delete_where_ok:
  assumes "sqlite_invar d" "set cols \<subseteq> set inbox_columns"
  shows "\<exists>d'. delete_where cols P d = Inr d' \<and> sqlite_invar d' \<and> db_seq d' = db_seq d \<and>
    db_rows d' = filter (\<lambda>r. \<not> P r) (db_rows d)"
  using assms(1)
proof (rule sqlite_invarE)
  fix t assume "inbox d = Some t" "table_ok t" "db_rows d = trows t" "db_seq d = seq t"
  with assms(2) show ?thesis
    by (simp add: delete_where_def prepare_ok sqlite_invar_def db_rows_def db_seq_def table_ok_filter)
qed

lemma sqlite_delete_ok:
  assumes "sqlite_invar d"
  shows "sqlite_DeleteForRecipient f d k ids = (None, d') \<Longrightarrow>
           sqlite_invar d' \<and> db_seq d' = db_seq d \<and>
           db_rows d' = filter (\<lambda>r. \<not> (recipient r = k \<and> row_id r \<in> set ids)) (db_rows d)"
    and "fst (sqlite_DeleteForRecipient no_faults d k ids) = None"
  using delete_where_ok [OF assms, of "[''recipient'', ''id'']" "\<lambda>r. recipient r = k \<and> row_id r \<in> set ids"] assms
  by (auto simp: sqlite_DeleteForRecipient_def run_stmt_def inbox_columns_def no_faults_def split: if_splits option.splits)

lemma sqlite_delete_err: "sqlite_DeleteForRecipient f d k ids = (Some e, d') \<Longrightarrow> d' = d"
  by (auto simp: sqlite_DeleteForRecipient_def split: if_splits sum.splits)

lemma sqlite_reap_ok:
  assumes "sqlite_invar d"
  shows "sqlite_Reap f now d = (None, d') \<Longrightarrow>
           sqlite_invar d' \<and> db_seq d' = db_seq d \<and> db_rows d' = filter (\<lambda>r. Unix now < expires_at r) (db_rows d)"
    and "fst (sqlite_Reap no_faults now d) = None"
  using delete_where_ok [OF assms, of "[''expires_at'']" "\<lambda>r. expires_at r \<le> Unix now"]
  by (auto simp: sqlite_Reap_def run_stmt_def inbox_columns_def no_faults_def not_le split: option.splits)

lemma sqlite_reap_err: "sqlite_Reap f now d = (Some e, d') \<Longrightarrow> d' = d"
  by (auto simp: sqlite_Reap_def split: sum.splits)

section \<open>The contract holds\<close>

interpretation sq: strict_inbox_contract sqlite_store sqlite_invar db_rows db_seq
proof unfold_locales
  show "sorted_wrt (<) (map row_id (db_rows st))" if "sqlite_invar st" for st
    using that by (rule sqlite_invarE) (simp add: table_ok_def)
  show "0 < row_id r \<and> row_id r \<le> db_seq st" if "sqlite_invar st" "r \<in> set (db_rows st)" for st r
    using that(1) by (rule sqlite_invarE) (use that(2) in \<open>simp add: table_ok_def\<close>)
qed (auto simp: sqlite_store_def dest: sqlite_put_ok sqlite_put_err sqlite_peek_ok(1) sqlite_delete_ok(1)
     sqlite_delete_err sqlite_reap_ok(1) sqlite_reap_err
     simp: sqlite_put_full sqlite_put_progress sqlite_peek_ok(2) sqlite_delete_ok(2) sqlite_reap_ok(2))

section \<open>Properties of the SQLite store\<close>

text \<open>Sample data for the concrete instances below.\<close>

definition sample_db :: db where
  "sample_db = \<lparr>user_version = 1, wal = True, inbox = Some fresh_inbox\<rparr>"

abbreviation sample_key :: bytes where "sample_key \<equiv> replicate 32 7"

lemma sample_db_invar: "sqlite_invar sample_db"
  by (simp add: sample_db_def sqlite_invar_def fresh_inbox_def table_ok_def)

lemma sample_db_view [simp]: "db_rows sample_db = []" "db_seq sample_db = 0"
  by (simp_all add: sample_db_def db_rows_def db_seq_def fresh_inbox_def)

text \<open>
  C8 (quota). Start from a well-formed store in which the Inbox of \<open>k\<close> is within the
  configured occupancy limits. After any sequence of puts, deletes and reaps, each meeting any
  failures whatsoever, in which every put to \<open>k\<close> carries these limits, the Inbox of \<open>k\<close> is still
  within them: at most \<open>MaxBlobs\<close> envelopes and at most \<open>MaxBytes\<close> bytes (0 disables a limit).
\<close>

theorem sqlite_quota_never_exceeded:
  assumes "sqlite_invar d" and "within_limits lim (db_rows d) k"
    and "\<forall>f now env ttl lim'. OpPut f now k env ttl lim' \<in> set ops \<longrightarrow> lim' = lim"
  shows "within_limits lim (db_rows (fold (exec_op sqlite_store) ops d)) k"
  using assms by (rule sq.history_within)

theorem sqlite_quota_never_exceeded_witness:
  "within_limits \<lparr>MaxBlobs = 1, MaxBytes = 10\<rparr>
     (db_rows (fold (exec_op sqlite_store)
        [OpPut no_faults 0 sample_key [1, 2] 5 \<lparr>MaxBlobs = 1, MaxBytes = 10\<rparr>,
         OpPut no_faults 1 sample_key [3] 5 \<lparr>MaxBlobs = 1, MaxBytes = 10\<rparr>] sample_db)) sample_key"
  by (rule sqlite_quota_never_exceeded)
     (auto simp: sample_db_invar within_limits_def inbox_count_def inbox_bytes_def)

text \<open>
  C9 (durable until delivery). Once a put has returned nil, the envelope is in the Inbox under
  the ID it was given and a peek finds it there, after any further sequence of calls, whatever
  failures they meet, as long as none of them is a delete of that ID by the Inbox's own key or
  a reap at or after its expiry second.
\<close>

theorem sqlite_durable_until_delivery:
  assumes "sqlite_invar d" and "sqlite_PutWithLimits f now d k env ttl lim = (None, d')"
    and "\<forall>op \<in> set ops. \<not> may_remove \<lparr>row_id = db_seq d', recipient = k, envelope = env,
                                       expires_at = Unix (now + ttl)\<rparr> op"
  shows "\<exists>bs. sqlite_Peek no_faults (fold (exec_op sqlite_store) ops d') k = Inr bs \<and>
              \<lparr>ID = db_seq d', Envelope = env\<rparr> \<in> set bs"
proof -
  define r where "r = \<lparr>row_id = db_seq d', recipient = k, envelope = env, expires_at = Unix (now + ttl)\<rparr>"
  from sqlite_put_ok [OF assms(1,2)] have d': "sqlite_invar d'" "r \<in> set (db_rows d')"
    by (simp_all add: r_def)
  let ?e = "fold (exec_op sqlite_store) ops d'"
  have e: "sqlite_invar ?e" "r \<in> set (db_rows ?e)"
    using sq.history_invar [OF d'(1)] sq.history_keeps [OF d' assms(3) [folded r_def]] by blast+
  then have "0 < row_id r" by (simp add: sq.rows_bound)
  with e(2) show ?thesis
    by (auto simp: sqlite_Peek_def sqlite_peek_ok(2) [OF e(1)] r_def row_blob_def image_iff
        intro!: bexI [of _ r])
qed

theorem sqlite_durable_until_delivery_witness:
  "\<exists>bs. sqlite_Peek no_faults (fold (exec_op sqlite_store)
          [OpReap no_faults 4000000000, OpDelete no_faults (replicate 32 8) [1]]
          (snd (sqlite_PutWithLimits no_faults 0 sample_db sample_key [1, 2] 5000000000 no_limits))) sample_key = Inr bs \<and>
        \<lparr>ID = 1, Envelope = [1, 2]\<rparr> \<in> set bs"
proof -
  let ?p = "sqlite_PutWithLimits no_faults 0 sample_db sample_key [1, 2] 5000000000 no_limits"
  have p: "?p = (None, snd ?p)"
    using sqlite_put_progress [OF sample_db_invar, of no_limits sample_key "[1, 2]" 0 5000000000]
    by (simp add: prod_eq_iff quota_ok_def no_limits_def)
  have "db_seq (snd ?p) = 1" using sqlite_put_ok [OF sample_db_invar p] by simp
  with sqlite_durable_until_delivery [OF sample_db_invar p,
      of "[OpReap no_faults 4000000000, OpDelete no_faults (replicate 32 8) [1]]"] show ?thesis
    by (simp add: Unix_def)
qed

text \<open>
  Insert and lookup. A put that returns nil appends the envelope, under a new highest
  ID, to what a peek of its own Inbox returns, after every cursor \<open>a\<close> not beyond the IDs
  assigned so far, and changes nothing in what a peek of any other Inbox returns.
\<close>

lemma sqlite_put_then_peek:
  assumes "sqlite_invar d" and "sqlite_PutWithLimits f now d k env ttl lim = (None, d')" and "a \<le> db_seq d"
  shows "\<exists>bs. sqlite_PeekAfter no_faults d k' a = Inr bs \<and>
    sqlite_PeekAfter no_faults d' k' a =
      Inr (if k' = k then bs @ [\<lparr>ID = db_seq d + 1, Envelope = env\<rparr>] else bs)"
  using sqlite_put_ok [OF assms(1,2)] assms(3)
  by (auto simp: sqlite_peek_ok(2) [OF assms(1)] sqlite_peek_ok(2) row_blob_def)

lemma sqlite_put_then_peek_sample:
  "sqlite_PeekAfter no_faults
     (snd (sqlite_PutWithLimits no_faults 0 sample_db sample_key [1, 2] 5 no_limits)) sample_key 0
   = Inr [\<lparr>ID = 1, Envelope = [1, 2]\<rparr>]"
proof -
  let ?p = "sqlite_PutWithLimits no_faults 0 sample_db sample_key [1, 2] 5 no_limits"
  have p: "?p = (None, snd ?p)"
    using sqlite_put_progress [OF sample_db_invar, of no_limits sample_key "[1, 2]" 0 5]
    by (simp add: prod_eq_iff quota_ok_def no_limits_def)
  from sqlite_put_then_peek [OF sample_db_invar p, of 0 sample_key] show ?thesis
    by (simp add: sqlite_peek_ok(2) [OF sample_db_invar])
qed

text \<open>
  C11 (ack isolation). After a delete by key \<open>k\<close> that returns nil, a peek of the Inbox of \<open>k\<close>
  returns what it returned before less the named IDs, and a peek of any other Inbox returns
  exactly what it returned before, whichever IDs were named.
\<close>

theorem sqlite_delete_own_only:
  assumes "sqlite_invar d" and "sqlite_DeleteForRecipient f d k ids = (None, d')"
  shows "\<exists>bs. sqlite_PeekAfter no_faults d k' a = Inr bs \<and>
    sqlite_PeekAfter no_faults d' k' a =
      Inr (if k' = k then filter (\<lambda>b. ID b \<notin> set ids) bs else bs)"
  using sqlite_delete_ok(1) [OF assms]
  by (auto simp: sqlite_peek_ok(2) [OF assms(1)] sqlite_peek_ok(2) row_blob_def filter_map comp_def
      intro!: arg_cong [where f = "map _"] filter_cong)

theorem sqlite_delete_own_only_witness:
  "\<exists>bs. sqlite_PeekAfter no_faults sample_db sample_key 0 = Inr bs \<and>
     sqlite_PeekAfter no_faults (snd (sqlite_DeleteForRecipient no_faults sample_db (replicate 32 8) [1])) sample_key 0
       = Inr bs"
proof -
  have "sqlite_DeleteForRecipient no_faults sample_db (replicate 32 8) [1]
      = (None, snd (sqlite_DeleteForRecipient no_faults sample_db (replicate 32 8) [1]))"
    by (simp add: prod_eq_iff sqlite_delete_ok(2) sample_db_invar)
  from sqlite_delete_own_only [OF sample_db_invar this, of sample_key 0] show ?thesis by simp
qed

end
