(* ===== verification/Float64.thy ===== *)
theory Float64
  imports Complex_Main "HOL-Library.Log_Nat"
begin

text \<open>
  Go's \<open>float64\<close> arithmetic as the rate limiter uses it: finite values are rationals, and every
  operation is the exact result rounded to the nearest binary64 value, ties to even, with
  gradual underflow. Overflow to infinity is not modelled: the limiter's values are bounded by
  its capacity plus one refill.
\<close>

section \<open>Rounding\<close>

text \<open>The exponent of the binade of a positive rational: \<open>2 powi e \<le> a < 2 powi (e + 1)\<close>.\<close>

definition binade :: "rat \<Rightarrow> int" where
  "binade a = (case quotient_of a of (n, d) \<Rightarrow>
     let e = int (floorlog 2 (nat n)) - int (floorlog 2 (nat d))
     in if 2 powi e \<le> a then e else e - 1)"

text \<open>The exponent of the last place: 52 fraction bits, never below the smallest subnormal.\<close>

definition last_place :: "rat \<Rightarrow> int" where
  "last_place a = max (binade a - 52) (-1074)"

definition round_even :: "rat \<Rightarrow> int" where
  "round_even x =
     (let f = \<lfloor>x\<rfloor>; r = x - of_int f
      in if r < 1 / 2 then f else if r > 1 / 2 then f + 1 else if even f then f else f + 1)"

definition fl64 :: "rat \<Rightarrow> rat" where
  "fl64 x = (if x = 0 then 0
             else sgn x * (of_int (round_even (\<bar>x\<bar> / 2 powi last_place \<bar>x\<bar>)) * 2 powi last_place \<bar>x\<bar>))"

section \<open>The binade\<close>

lemma nat_between_floorlog:
  assumes "0 < n"
  shows "2 ^ (floorlog 2 n - 1) \<le> n" and "n < 2 ^ floorlog 2 n" and "0 < floorlog 2 n"
  using assms floorlog_bounds [of n 2] by (simp_all add: floorlog_def [of 2 n])

lemma int_between_powers:
  assumes "0 < n"
  shows "(2::rat) ^ (floorlog 2 (nat n) - 1) \<le> of_int n" and "of_int n < (2::rat) ^ floorlog 2 (nat n)"
    and "0 < floorlog 2 (nat n)"
proof -
  have n: "of_int n = (of_nat (nat n) :: rat)" using assms by simp
  note b = nat_between_floorlog [of "nat n"]
  from b assms show "0 < floorlog 2 (nat n)" by simp
  from b(1) assms have "(of_nat (2 ^ (floorlog 2 (nat n) - 1)) :: rat) \<le> of_nat (nat n)"
    by (simp only: of_nat_le_iff zero_less_nat_eq)
  then show "(2::rat) ^ (floorlog 2 (nat n) - 1) \<le> of_int n" unfolding n by simp
  from b(2) assms have "(of_nat (nat n) :: rat) < of_nat (2 ^ floorlog 2 (nat n))"
    by (simp only: of_nat_less_iff zero_less_nat_eq)
  then show "of_int n < (2::rat) ^ floorlog 2 (nat n)" unfolding n by simp
qed

lemma powi_nat_pred: "0 < k \<Longrightarrow> (2::rat) powi (int k - 1) = 2 ^ (k - 1)"
  by (simp add: power_int_def nat_diff_distrib)

lemma binade_bounds:
  assumes "0 < a"
  shows "2 powi binade a \<le> a" and "a < 2 powi (binade a + 1)"
proof -
  obtain n d where nd: "quotient_of a = (n, d)" by (cases "quotient_of a")
  then have d: "0 < d" and a: "a = of_int n / of_int d"
    by (auto dest: quotient_of_denom_pos quotient_of_div)
  with assms have n: "0 < n" by (simp add: zero_less_divide_iff)
  define L where "L = floorlog 2 (nat n)"
  define M where "M = floorlog 2 (nat d)"
  note bounds = int_between_powers [OF n, folded L_def] int_between_powers [OF d, folded M_def]
  have up: "a < 2 powi (int L - int M + 1)"
  proof -
    have "a \<le> of_int n / 2 ^ (M - 1)"
      unfolding a using bounds n d by (intro divide_left_mono) auto
    also have "\<dots> < 2 ^ L / 2 ^ (M - 1)" using bounds by (intro divide_strict_right_mono) auto
    also have "\<dots> = 2 powi (int L - (int M - 1))"
      by (subst power_int_diff) (simp_all only: powi_nat_pred [OF bounds(6)] power_int_of_nat, simp)
    finally show ?thesis by (simp add: algebra_simps)
  qed
  have lo: "2 powi (int L - int M - 1) \<le> a"
  proof -
    have "(2::rat) powi (int L - int M - 1) = 2 powi ((int L - 1) - int M)" by (simp add: algebra_simps)
    also have "\<dots> = 2 ^ (L - 1) / 2 ^ M"
      by (subst power_int_diff) (simp_all only: powi_nat_pred [OF bounds(3)] power_int_of_nat, simp)
    also have "\<dots> \<le> of_int n / 2 ^ M" using bounds by (intro divide_right_mono) auto
    also have "\<dots> \<le> a" unfolding a using bounds n d by (intro divide_left_mono) auto
    finally show ?thesis .
  qed
  show "2 powi binade a \<le> a" "a < 2 powi (binade a + 1)"
    using up lo by (auto simp: binade_def nd Let_def L_def [symmetric] M_def [symmetric])
qed

lemma powi_less_iff: "(2::rat) powi i < 2 powi j \<longleftrightarrow> i < j"
  by (metis linorder_less_linear order_less_asym power_int_strict_increasing one_less_numeral_iff semiring_norm(76))

lemma binade_mono: "0 < x \<Longrightarrow> x \<le> y \<Longrightarrow> binade x \<le> binade y"
  using binade_bounds [of x] binade_bounds [of y]
  by (metis le_less_trans less_le_trans not_less powi_less_iff zless_add1_eq zle_add1_eq_le)

lemma binade_less: "0 < x \<Longrightarrow> x < 2 powi e \<Longrightarrow> binade x < e"
  using binade_bounds(1) [of x] by (meson le_less_trans powi_less_iff)

section \<open>Laws of rounding\<close>

lemma round_even_of_int [simp]: "round_even (of_int m) = m"
  by (simp add: round_even_def)

lemma round_even_mono:
  assumes "x \<le> y"
  shows "round_even x \<le> round_even y"
proof (cases "\<lfloor>x\<rfloor> = \<lfloor>y\<rfloor>")
  case True
  with assms show ?thesis by (auto simp: round_even_def Let_def)
next
  case False
  with assms have "\<lfloor>x\<rfloor> + 1 \<le> \<lfloor>y\<rfloor>" using floor_mono [of x y] by linarith
  moreover have "round_even x \<le> \<lfloor>x\<rfloor> + 1" "\<lfloor>y\<rfloor> \<le> round_even y" by (simp_all add: round_even_def Let_def)
  ultimately show ?thesis by linarith
qed

lemma round_even_le: "x \<le> of_int m \<Longrightarrow> round_even x \<le> m"
  using round_even_mono [of x "of_int m"] by simp

lemma round_even_ge: "of_int m \<le> x \<Longrightarrow> m \<le> round_even x"
  using round_even_mono [of "of_int m" x] by simp

lemma powi_nonneg_int: "0 \<le> k \<Longrightarrow> (2::rat) powi k = of_int (2 ^ nat k)"
  by (simp add: power_int_def)

lemma powi_split: "e \<le> b \<Longrightarrow> (2::rat) powi b = of_int (2 ^ nat (b - e)) * 2 powi e"
  using power_int_add [of "2::rat" "b - e" e] by (simp only: powi_nonneg_int [of "b - e"]) simp

lemma fl64_pos: "0 < x \<Longrightarrow> fl64 x = of_int (round_even (x / 2 powi last_place x)) * 2 powi last_place x"
  by (simp add: fl64_def)

lemma fl64_0 [simp]: "fl64 0 = 0"
  by (simp add: fl64_def)

lemma fl64_minus: "fl64 (- x) = - fl64 x"
  by (simp add: fl64_def)

text \<open>Every \<open>m * 2 powi e\<close> with at most 53 significant bits is a value of the format.\<close>

lemma fl64_exact_pos:
  assumes "0 < m" "m \<le> 2 ^ 53" "-1074 \<le> e"
  shows "fl64 (of_int m * 2 powi e) = of_int m * 2 powi e"
proof -
  let ?x = "of_int m * (2::rat) powi e"
  have pos: "0 < ?x" using assms by simp
  have "\<exists>j. ?x = of_int j * 2 powi last_place ?x"
  proof (cases "m = 2 ^ 53")
    case True
    then have x: "?x = 2 powi (e + 53)" by (simp add: power_int_add)
    have "binade ?x < e + 54" by (rule binade_less [OF pos]) (simp add: x powi_less_iff)
    then have "last_place ?x \<le> e + 53" using assms by (simp add: last_place_def)
    then show ?thesis using powi_split x by metis
  next
    case False
    with assms have "of_int m < (2::rat) powi 53"
      using of_int_less_iff [of m "2 ^ 53", where 'a = rat] by (simp add: power_int_def)
    then have "?x < 2 powi (53 + e)" by (simp add: power_int_add)
    then have "last_place ?x \<le> e" using binade_less [OF pos] assms by (fastforce simp: last_place_def)
    then have "?x = of_int (m * 2 ^ nat (e - last_place ?x)) * 2 powi last_place ?x"
      using powi_split [of "last_place ?x" e] by simp
    then show ?thesis by blast
  qed
  then obtain j where j: "?x = of_int j * 2 powi last_place ?x" by blast
  then have "?x / 2 powi last_place ?x = of_int j" by (metis nonzero_mult_div_cancel_right power_int_eq_0_iff zero_neq_numeral)
  then show ?thesis using fl64_pos [OF pos] j by simp
qed

lemma fl64_exact:
  assumes "\<bar>m\<bar> \<le> 2 ^ 53" "-1074 \<le> e"
  shows "fl64 (of_int m * 2 powi e) = of_int m * 2 powi e"
proof (cases "0 \<le> m")
  case True
  with assms show ?thesis by (cases "m = 0") (auto intro: fl64_exact_pos)
next
  case False
  with assms fl64_exact_pos [of "- m" e] fl64_minus [of "of_int (- m) * 2 powi e"] show ?thesis by simp
qed

lemma fl64_of_int: "\<bar>m\<bar> \<le> 2 ^ 53 \<Longrightarrow> fl64 (of_int m) = of_int m"
  using fl64_exact [of m 0] by simp

text \<open>A rounded value has that form, so rounding again changes nothing.\<close>

lemma fl64_form:
  assumes "0 < x"
  obtains m where "fl64 x = of_int m * 2 powi last_place x" "0 \<le> m" "m \<le> 2 ^ 53"
proof
  have "\<not> last_place x + 53 < binade x + 1" by (simp add: last_place_def)
  then have "x < 2 powi (last_place x + 53)"
    using binade_bounds(2) [OF assms] powi_less_iff [of "last_place x + 53" "binade x + 1"] by linarith
  then have "x / 2 powi last_place x \<le> of_int (2 ^ 53)"
    by (simp add: power_int_add field_simps)
  then show "round_even (x / 2 powi last_place x) \<le> 2 ^ 53" by (rule round_even_le)
  show "0 \<le> round_even (x / 2 powi last_place x)" using assms by (intro round_even_ge) simp
qed (rule fl64_pos [OF assms])

lemma last_place_ge: "-1074 \<le> last_place x"
  by (simp add: last_place_def)

lemma fl64_idem [simp]: "fl64 (fl64 x) = fl64 x"
proof -
  have pos: "0 < x \<Longrightarrow> fl64 (fl64 x) = fl64 x" for x
    by (rule fl64_form [of x]) (auto simp: fl64_exact last_place_ge)
  show ?thesis
    using pos [of x] pos [of "- x"] by (cases x "0::rat" rule: linorder_cases) (auto simp: fl64_minus)
qed

lemma fl64_mono_pos:
  assumes "0 < x" "x \<le> y"
  shows "fl64 x \<le> fl64 y"
proof (cases "last_place x = last_place y")
  case True
  with assms show ?thesis
    by (simp add: fl64_pos less_le_trans [of 0 x y]) (intro mult_right_mono of_int_le_iff [THEN iffD2] round_even_mono divide_right_mono, auto)
next
  case False
  let ?b = "binade y"
  have y: "0 < y" using assms by simp
  from False binade_mono [OF assms] have b: "binade x < ?b" "-1022 < ?b" "last_place y = ?b - 52" "last_place x \<le> ?b"
    by (auto simp: last_place_def)
  have "x < 2 powi ?b" using binade_bounds(2) [OF assms(1)] b(1) powi_less_iff [of "binade x + 1" ?b]
    by (cases "binade x + 1 = ?b") auto
  then have "x / 2 powi last_place x \<le> of_int (2 ^ nat (?b - last_place x))"
    using powi_split [OF b(4)] by (simp add: field_simps)
  then have "fl64 x \<le> of_int (2 ^ nat (?b - last_place x)) * 2 powi last_place x"
    unfolding fl64_pos [OF assms(1)] by (intro mult_right_mono of_int_le_iff [THEN iffD2] round_even_le) auto
  also have "\<dots> = of_int (2 ^ 52) * 2 powi last_place y"
    using powi_split [OF b(4)] powi_split [of "last_place y" ?b] b(3) by simp
  also have "\<dots> \<le> fl64 y"
  proof -
    have "of_int (2 ^ 52) \<le> y / 2 powi last_place y"
      using binade_bounds(1) [OF y] powi_split [of "last_place y" ?b] b(3)
      by (simp add: le_divide_eq mult.commute)
    then show ?thesis unfolding fl64_pos [OF y] by (intro mult_right_mono of_int_le_iff [THEN iffD2] round_even_ge) auto
  qed
  finally show ?thesis .
qed

lemma fl64_nonneg: "0 \<le> x \<Longrightarrow> 0 \<le> fl64 x"
  by (cases "x = 0") (auto intro: fl64_form [of x])

lemma fl64_mono: "x \<le> y \<Longrightarrow> fl64 x \<le> fl64 y"
proof -
  assume xy: "x \<le> y"
  consider "0 < x" | "x \<le> 0" "0 \<le> y" | "y < 0" by linarith
  then show ?thesis
  proof cases
    case 2
    then show ?thesis using fl64_nonneg [of y] fl64_nonneg [of "- x"] by (simp add: fl64_minus)
  next
    case 3
    then show ?thesis using fl64_mono_pos [of "- y" "- x"] xy by (simp add: fl64_minus)
  qed (use xy fl64_mono_pos in auto)
qed

text \<open>Taking one token from at least one is exact up to \<open>2^53\<close>.\<close>

lemma fl64_minus_one:
  assumes "fl64 t = t" "1 \<le> t" "t \<le> 2 ^ 53"
  shows "fl64 (t - 1) = t - 1"
proof (cases "t = 2 ^ 53")
  case True
  then have "t - 1 = of_int (2 ^ 53 - 1)" by simp
  then show ?thesis using fl64_of_int [of "2 ^ 53 - 1"] by simp
next
  case False
  have "0 < t" using assms by simp
  then obtain m where m: "fl64 t = of_int m * 2 powi last_place t" "0 \<le> m" "m \<le> 2 ^ 53" by (rule fl64_form)
  have "t < 2 powi 53" using assms False by (simp add: power_int_def)
  then have q: "last_place t \<le> 0" using binade_less [OF \<open>0 < t\<close>] by (fastforce simp: last_place_def)
  have one: "1 = of_int (2 ^ nat (- last_place t)) * (2::rat) powi last_place t"
    using powi_split [OF q] by simp
  have t1: "t - 1 = of_int (m - 2 ^ nat (- last_place t)) * 2 powi last_place t"
    using m(1) assms(1) one by (simp add: algebra_simps)
  have "0 \<le> t - 1" using assms by simp
  then have "0 \<le> m - 2 ^ nat (- last_place t)" unfolding t1
    by (metis mult_less_0_iff not_less of_int_less_0_iff zero_less_power_int zero_less_numeral)
  moreover have "m - 2 ^ nat (- last_place t) \<le> 2 ^ 53" using m(3) by (smt (verit) zero_le_power)
  ultimately show ?thesis unfolding t1 by (intro fl64_exact last_place_ge) simp
qed

end
