(* ===== verification/Abuse_Limits.thy ===== *)
theory Abuse_Limits
  imports Envelope Float64 "HOL-Library.AList"
begin

text \<open>
  The abuse limits of \<open>internal/relay/limits.go\<close>: the per-recipient token bucket and the cap on
  concurrent Receive Sessions. Times are nanoseconds on the monotonic clock; each reading of
  the injected clock is an argument. Token arithmetic is binary64, one rounding per operation
  (no fused multiply-add).
\<close>

section \<open>Token bucket\<close>

definition rateLimitSoftCap :: nat where "rateLimitSoftCap = 4096"
definition bucketIdleTTL :: int where "bucketIdleTTL = 10 * 60 * 1000000000"

record bucket =
  tokens :: rat
  last :: int

text \<open>Go's map is an association list without duplicate keys; its order is never used.\<close>

record rateLimiter =
  rate :: rat
  burst :: rat
  buckets :: "(RecipientKey \<times> bucket) list"

definition newRateLimiter :: "rat \<Rightarrow> rat \<Rightarrow> rateLimiter" where
  "newRateLimiter ratePerSecond b = \<lparr>rate = ratePerSecond, burst = b, buckets = []\<rparr>"

text \<open>\<open>Time.Sub\<close> saturates at the ends of \<open>int64\<close>; \<open>Duration.Seconds\<close> adds two rounded parts.\<close>

definition time_Sub :: "int \<Rightarrow> int \<Rightarrow> int" where
  "time_Sub t u = max (- (2 ^ 63)) (min (2 ^ 63 - 1) (t - u))"

definition Seconds :: "int \<Rightarrow> rat" where
  "Seconds d = (let sec = sgn d * (\<bar>d\<bar> div 1000000000); nsec = sgn d * (\<bar>d\<bar> mod 1000000000)
                in fl64 (fl64 (of_int sec) + fl64 (fl64 (of_int nsec) / 1000000000)))"

definition sweep :: "int \<Rightarrow> (RecipientKey \<times> bucket) list \<Rightarrow> (RecipientKey \<times> bucket) list" where
  "sweep cutoff bs = filter (\<lambda>(k, b). \<not> last b < cutoff) bs"

text \<open>The refill: \<open>elapsed\<close> seconds at \<open>rate\<close>, capped at \<open>burst\<close>.\<close>

definition refill :: "rateLimiter \<Rightarrow> bucket \<Rightarrow> int \<Rightarrow> rat" where
  "refill l b now =
     (let elapsed = Seconds (time_Sub now (last b)) in
      if elapsed > 0 then
        let t = fl64 (tokens b + fl64 (elapsed * rate l))
        in if t > burst l then burst l else t
      else tokens b)"

text \<open>
  \<open>allow\<close>, with the clock readings it may take: \<open>t1\<close> for the sweep, \<open>t2\<close> for a new bucket,
  \<open>now\<close> for the refill.
\<close>

definition swept :: "int \<Rightarrow> rateLimiter \<Rightarrow> (RecipientKey \<times> bucket) list" where
  "swept t1 l =
     (if length (buckets l) > rateLimitSoftCap then sweep (t1 - bucketIdleTTL) (buckets l) else buckets l)"

definition allow :: "int \<Rightarrow> int \<Rightarrow> int \<Rightarrow> rateLimiter \<Rightarrow> RecipientKey \<Rightarrow> bool \<times> rateLimiter" where
  "allow t1 t2 now l key =
     (if rate l \<le> 0 \<and> burst l \<le> 0 then (True, l)
      else
        let bs = swept t1 l;
            b = (case map_of bs key of Some b \<Rightarrow> b | None \<Rightarrow> \<lparr>tokens = burst l, last = t2\<rparr>);
            t = refill l b now
        in if t < 1 then (False, l\<lparr>buckets := AList.update key \<lparr>tokens = t, last = now\<rparr> bs\<rparr>)
           else (True, l\<lparr>buckets := AList.update key \<lparr>tokens = fl64 (t - 1), last = now\<rparr> bs\<rparr>))"

section \<open>Session cap\<close>

record sessionCap =
  cap_max :: int
  active :: "RecipientKey \<rightharpoonup> int"

definition newSessionCap :: "int \<Rightarrow> sessionCap" where
  "newSessionCap m = \<lparr>cap_max = m, active = Map.empty\<rparr>"

text \<open>Reading a missing key of a Go map gives zero.\<close>

definition count_of :: "sessionCap \<Rightarrow> RecipientKey \<Rightarrow> int" where
  "count_of c key = (case active c key of None \<Rightarrow> 0 | Some n \<Rightarrow> n)"

definition acquire :: "sessionCap \<Rightarrow> RecipientKey \<Rightarrow> bool \<times> sessionCap" where
  "acquire c key =
     (if cap_max c \<le> 0 then (True, c)
      else if count_of c key \<ge> cap_max c then (False, c)
      else (True, c\<lparr>active := (active c)(key \<mapsto> count_of c key + 1)\<rparr>))"

definition release :: "sessionCap \<Rightarrow> RecipientKey \<Rightarrow> sessionCap" where
  "release c key =
     (if cap_max c \<le> 0 then c
      else if count_of c key \<le> 1 then c\<lparr>active := (active c)(key := None)\<rparr>
      else c\<lparr>active := (active c)(key \<mapsto> count_of c key - 1)\<rparr>)"

section \<open>The bucket invariant\<close>

text \<open>A bucket holds a binary64 number of tokens between zero and the capacity.\<close>

definition bucket_ok :: "rateLimiter \<Rightarrow> bucket \<Rightarrow> bool" where
  "bucket_ok l b \<longleftrightarrow> fl64 (tokens b) = tokens b \<and> 0 \<le> tokens b \<and> tokens b \<le> burst l"

definition limiter_ok :: "rateLimiter \<Rightarrow> bool" where
  "limiter_ok l \<longleftrightarrow> 0 \<le> rate l \<and> 0 \<le> burst l \<and> fl64 (burst l) = burst l \<and>
     distinct (map fst (buckets l)) \<and> (\<forall>k b. map_of (buckets l) k = Some b \<longrightarrow> bucket_ok l b)"

lemma swept_keys: "distinct (map fst (buckets l)) \<Longrightarrow> distinct (map fst (swept t1 l))"
  by (auto simp: swept_def sweep_def distinct_map_filter)

lemma swept_map_of:
  assumes "distinct (map fst (buckets l))"
  shows "map_of (swept t1 l) k =
    (case map_of (buckets l) k of None \<Rightarrow> None
     | Some b \<Rightarrow> if length (buckets l) > rateLimitSoftCap \<and> last b < t1 - bucketIdleTTL then None else Some b)"
  using assms by (auto simp: swept_def sweep_def map_of_filter split: option.splits bind_splits)

lemma refill_ok:
  assumes "bucket_ok l b" "0 \<le> rate l" "0 \<le> burst l" "fl64 (burst l) = burst l"
  shows "fl64 (refill l b now) = refill l b now \<and> 0 \<le> refill l b now \<and> refill l b now \<le> burst l \<and>
    tokens b \<le> refill l b now"
proof -
  define e where "e = Seconds (time_Sub now (last b))"
  define t where "t = fl64 (tokens b + fl64 (e * rate l))"
  have "0 < e \<Longrightarrow> tokens b \<le> t"
    using assms fl64_mono [of "tokens b" "tokens b + fl64 (e * rate l)"] fl64_nonneg [of "e * rate l"]
    by (simp add: t_def bucket_ok_def)
  moreover have "fl64 t = t" by (simp add: t_def)
  moreover have "refill l b now = (if 0 < e then if burst l < t then burst l else t else tokens b)"
    by (simp add: refill_def Let_def e_def t_def)
  ultimately show ?thesis using assms by (auto simp: bucket_ok_def)
qed

lemma take_ok: "fl64 t = t \<Longrightarrow> 1 \<le> t \<Longrightarrow> t \<le> m \<Longrightarrow> 0 \<le> fl64 (t - 1) \<and> fl64 (t - 1) \<le> m"
  using fl64_mono [of "t - 1" t] fl64_nonneg [of "t - 1"] by auto

lemma allow_cases:
  assumes "limiter_ok l" "allow t1 t2 now l key = (ok, l')" "0 < rate l \<or> 0 < burst l"
  shows "\<exists>b t. (map_of (swept t1 l) key = Some b \<or> map_of (swept t1 l) key = None \<and> b = \<lparr>tokens = burst l, last = t2\<rparr>) \<and>
    bucket_ok l b \<and> t = refill l b now \<and> ok = (1 \<le> t) \<and>
    l' = l\<lparr>buckets := AList.update key \<lparr>tokens = (if ok then fl64 (t - 1) else t), last = now\<rparr> (swept t1 l)\<rparr>"
proof -
  define b where "b = (case map_of (swept t1 l) key of Some b \<Rightarrow> b | None \<Rightarrow> \<lparr>tokens = burst l, last = t2\<rparr>)"
  have "bucket_ok l b"
    using assms(1) by (auto simp: b_def limiter_ok_def swept_map_of bucket_ok_def split: option.splits if_splits)
  moreover have "map_of (swept t1 l) key = Some b \<or> map_of (swept t1 l) key = None \<and> b = \<lparr>tokens = burst l, last = t2\<rparr>"
    by (simp add: b_def split: option.split)
  moreover have "\<not> (rate l \<le> 0 \<and> burst l \<le> 0)" using assms(3) by auto
  ultimately show ?thesis
    using assms(2) unfolding allow_def b_def [symmetric] Let_def
    by (intro exI [of _ b] exI [of _ "refill l b now"]) (auto split: if_splits)
qed

lemma allow_limiter_ok:
  assumes "limiter_ok l" "allow t1 t2 now l key = (ok, l')"
  shows "limiter_ok l' \<and> rate l' = rate l \<and> burst l' = burst l"
proof (cases "rate l \<le> 0 \<and> burst l \<le> 0")
  case True
  with assms show ?thesis by (simp add: allow_def)
next
  case False
  from assms(1) have l: "0 \<le> rate l" "0 \<le> burst l" "fl64 (burst l) = burst l" "distinct (map fst (buckets l))"
    by (simp_all add: limiter_ok_def)
  from False obtain b t where b: "bucket_ok l b" "t = refill l b now" "ok = (1 \<le> t)"
    "l' = l\<lparr>buckets := AList.update key \<lparr>tokens = (if ok then fl64 (t - 1) else t), last = now\<rparr> (swept t1 l)\<rparr>"
    using allow_cases [OF assms] by (auto simp: not_le)
  have "bucket_ok l \<lparr>tokens = (if ok then fl64 (t - 1) else t), last = now\<rparr>"
    using refill_ok [OF b(1) l(1-3), of now] take_ok [of t "burst l"] b(2,3) by (auto simp: bucket_ok_def)
  moreover have "map_of (swept t1 l) k = Some c \<Longrightarrow> bucket_ok l c" for k c
    using assms(1) by (auto simp: limiter_ok_def swept_map_of split: option.splits if_splits)
  ultimately show ?thesis
    using l swept_keys [OF l(4), of t1] b(4)
    by (auto simp: limiter_ok_def bucket_ok_def update_conv' distinct_update split: if_splits)
qed

section \<open>Properties of the limiter\<close>

text \<open>The answers to a sequence of pushes, each a key with its clock readings.\<close>

fun allow_run :: "(int \<times> int \<times> int \<times> RecipientKey) list \<Rightarrow> rateLimiter \<Rightarrow> bool list \<times> rateLimiter" where
  "allow_run [] l = ([], l)"
| "allow_run ((t1, t2, now, key) # ps) l =
     (case allow t1 t2 now l key of (ok, l1) \<Rightarrow> case allow_run ps l1 of (oks, l2) \<Rightarrow> (ok # oks, l2))"

text \<open>
  C15 (token conservation). From a fresh limiter with a non-negative rate and a binary64
  capacity, whatever pushes arrive at whatever clock readings, even running backwards, every
  bucket always holds between 0 and \<open>burst\<close> tokens: rounding never creates credit beyond the
  capacity nor debt, so a recipient can never be granted more than \<open>burst\<close> pushes at once.
\<close>

theorem buckets_bounded:
  assumes "0 \<le> r" and "0 \<le> c" and "fl64 c = c"
    and "allow_run ps (newRateLimiter r c) = (oks, l)" and "map_of (buckets l) k = Some b"
  shows "0 \<le> tokens b \<and> tokens b \<le> c"
proof -
  have "limiter_ok l0 \<Longrightarrow> allow_run ps l0 = (oks, l) \<Longrightarrow> limiter_ok l \<and> burst l = burst l0" for l0
    by (induction ps l0 arbitrary: oks rule: allow_run.induct)
       (auto split: prod.splits dest: allow_limiter_ok)
  from this [OF _ assms(4)] assms show ?thesis
    by (auto simp: newRateLimiter_def limiter_ok_def bucket_ok_def)
qed

lemma refill_same_time: "last b = t \<Longrightarrow> refill l b t = tokens b"
  by (simp add: refill_def time_Sub_def Seconds_def)

text \<open>One push at the clock reading at which the bucket was last touched.\<close>

lemma allow_same_time:
  assumes "limiter_ok l" "0 < rate l \<or> 0 < burst l"
    and "map_of (buckets l) key = Some \<lparr>tokens = x, last = t\<rparr> \<or> map_of (buckets l) key = None \<and> x = burst l"
  shows "\<exists>l'. allow t t t l key = (1 \<le> x, l') \<and>
    map_of (buckets l') key = Some \<lparr>tokens = (if 1 \<le> x then fl64 (x - 1) else x), last = t\<rparr>"
proof -
  obtain ok l' where a: "allow t t t l key = (ok, l')" by (cases "allow t t t l key")
  have "map_of (swept t l) key = map_of (buckets l) key"
    using assms by (auto simp: limiter_ok_def swept_map_of bucketIdleTTL_def)
  with allow_cases [OF assms(1) a assms(2)] assms(3) a show ?thesis
    by (auto simp: refill_same_time update_conv')
qed

theorem buckets_bounded_witness:
  "\<exists>l b. allow_run [(0, 0, 0, [7])] (newRateLimiter 1 2) = ([True], l) \<and> map_of (buckets l) [7] = Some b \<and>
     0 \<le> tokens b \<and> tokens b \<le> 2"
proof -
  have two: "fl64 2 = 2" using fl64_of_int [of 2] by simp
  have "limiter_ok (newRateLimiter 1 2)" using two by (simp add: newRateLimiter_def limiter_ok_def)
  then obtain l' where a: "allow 0 0 0 (newRateLimiter 1 2) [7] = (True, l')"
      and m: "map_of (buckets l') [7] = Some \<lparr>tokens = fl64 1, last = 0\<rparr>"
    using allow_same_time [of "newRateLimiter 1 2" "[7]" 2 0] by (auto simp: newRateLimiter_def)
  from a have r: "allow_run [(0, 0, 0, [7])] (newRateLimiter 1 2) = ([True], l')" by simp
  from buckets_bounded [OF _ _ two r m] r m show ?thesis by auto
qed

lemma allow_run_same_time:
  assumes "limiter_ok l" "0 < rate l \<or> 0 < burst l" "burst l \<le> 2 ^ 53" "bucket_ok l \<lparr>tokens = x, last = t\<rparr>"
    and "map_of (buckets l) key = Some \<lparr>tokens = x, last = t\<rparr> \<or> map_of (buckets l) key = None \<and> x = burst l"
  shows "fst (allow_run (replicate n (t, t, t, key)) l) = replicate (min n (nat \<lfloor>x\<rfloor>)) True @ replicate (n - nat \<lfloor>x\<rfloor>) False"
  using assms
proof (induction n arbitrary: l x)
  case (Suc n)
  define y where "y = (if 1 \<le> x then fl64 (x - 1) else x)"
  obtain l' where l': "allow t t t l key = (1 \<le> x, l')" "map_of (buckets l') key = Some \<lparr>tokens = y, last = t\<rparr>"
    using allow_same_time [OF Suc.prems(1,2,5)] by (auto simp: y_def)
  have ok': "limiter_ok l' \<and> rate l' = rate l \<and> burst l' = burst l"
    using allow_limiter_ok [OF Suc.prems(1) l'(1)] .
  moreover have "bucket_ok l' \<lparr>tokens = y, last = t\<rparr>" using ok' l'(2) by (simp add: limiter_ok_def)
  ultimately have IH: "fst (allow_run (replicate n (t, t, t, key)) l') =
      replicate (min n (nat \<lfloor>y\<rfloor>)) True @ replicate (n - nat \<lfloor>y\<rfloor>) False"
    using Suc.prems l'(2) by (intro Suc.IH) auto
  have "1 \<le> x \<Longrightarrow> y = x - 1"
    using Suc.prems(3,4) by (simp add: y_def bucket_ok_def fl64_minus_one)
  then have "1 \<le> x \<Longrightarrow> nat \<lfloor>x\<rfloor> = Suc (nat \<lfloor>y\<rfloor>)" by (simp add: nat_diff_distrib Suc_nat_eq_nat_zadd1)
  moreover have "\<not> 1 \<le> x \<Longrightarrow> nat \<lfloor>x\<rfloor> = 0 \<and> y = x"
    using Suc.prems(4) by (auto simp: y_def bucket_ok_def floor_less_one)
  ultimately show ?case using l'(1) IH by (cases "1 \<le> x") (auto simp: split_def)
qed simp

text \<open>
  C16 (burst). From a fresh limiter, \<open>n\<close> pushes to one recipient at one instant are answered
  exactly: the first \<open>\<lfloor>burst\<rfloor>\<close> are allowed and every later one is refused, for every capacity up
  to \<open>2^53\<close>, fractional ones included, whatever the rate.
\<close>

theorem burst_is_exact:
  assumes "0 \<le> r" and "0 \<le> c" and "0 < r \<or> 0 < c" and "fl64 c = c" and "c \<le> 2 ^ 53"
  shows "fst (allow_run (replicate n (t, t, t, key)) (newRateLimiter r c)) =
    replicate (min n (nat \<lfloor>c\<rfloor>)) True @ replicate (n - nat \<lfloor>c\<rfloor>) False"
  using assms
  by (intro allow_run_same_time) (auto simp: newRateLimiter_def limiter_ok_def bucket_ok_def)

theorem burst_is_exact_witness:
  "fst (allow_run (replicate 3 (5, 5, 5, [7])) (newRateLimiter 1 2)) = [True, True, False]"
proof -
  have "fl64 2 = 2" using fl64_of_int [of 2] by simp
  from burst_is_exact [OF _ _ _ this, of 1 3 5 "[7]"] show ?thesis by (simp add: numeral_eq_Suc)
qed

text \<open>Without both limits set, the limiter is off.\<close>

lemma allow_disabled: "rate l \<le> 0 \<Longrightarrow> burst l \<le> 0 \<Longrightarrow> allow t1 t2 now l key = (True, l)"
  by (simp add: allow_def)

text \<open>
  A bucket idle for more than ten minutes is forgotten by a sweep and starts full again,
  whatever it would have refilled to.
\<close>

lemma swept_bucket_restarts_full:
  assumes "limiter_ok l" "0 < rate l \<or> 0 < burst l" "length (buckets l) > rateLimitSoftCap"
    and "map_of (buckets l) key = Some b" "last b < t - bucketIdleTTL" "1 \<le> burst l"
  shows "\<exists>l'. allow t t t l key = (True, l') \<and> map_of (buckets l') key = Some \<lparr>tokens = fl64 (burst l - 1), last = t\<rparr>"
proof -
  obtain ok l' where a: "allow t t t l key = (ok, l')" by (cases "allow t t t l key")
  have "map_of (swept t l) key = None"
    using assms by (auto simp: limiter_ok_def swept_map_of)
  with allow_cases [OF assms(1) a assms(2)] assms(6) a show ?thesis
    by (auto simp: refill_same_time update_conv')
qed

section \<open>Properties of the session cap\<close>

text \<open>
  Receive Sessions as the router runs them: a connect acquires, and a session that acquired
  releases once at its end. \<open>held\<close> is the number of sessions a key has open.
\<close>

datatype cap_event = Connect RecipientKey | Disconnect RecipientKey

fun cap_step :: "cap_event \<Rightarrow> sessionCap \<times> (RecipientKey \<Rightarrow> nat) \<Rightarrow> sessionCap \<times> (RecipientKey \<Rightarrow> nat)" where
  "cap_step (Connect k) (c, held) =
     (case acquire c k of (True, c') \<Rightarrow> (c', held(k := held k + 1)) | (False, c') \<Rightarrow> (c', held))"
| "cap_step (Disconnect k) (c, held) =
     (if held k = 0 then (c, held) else (release c k, held(k := held k - 1)))"

lemma cap_step_count:
  assumes "0 < cap_max c" "\<forall>k. count_of c k = int (held k) \<and> int (held k) \<le> cap_max c"
    "cap_step e (c, held) = (c', held')"
  shows "cap_max c' = cap_max c \<and> (\<forall>k. count_of c' k = int (held' k) \<and> int (held' k) \<le> cap_max c)"
proof (cases e)
  case (Connect k)
  with assms show ?thesis by (auto simp: acquire_def count_of_def split: if_splits)
next
  case (Disconnect k)
  show ?thesis
  proof (cases "held k")
    case (Suc n)
    from assms(2) have "int (held k) \<le> cap_max c" by blast
    with Suc have "int n < cap_max c" by simp
    with Suc Disconnect assms show ?thesis by (auto simp: release_def count_of_def split: if_splits)
  qed (use Disconnect assms in simp)
qed

text \<open>
  C17 (session cap). With a positive cap, after any sequence of connects and disconnects the
  counter of every key is exactly the number of sessions it has open, that number is at most
  the cap, and the next connect is accepted if and only if it is below the cap.
\<close>

theorem session_cap_exact:
  assumes "0 < m" and "fold cap_step es (newSessionCap m, \<lambda>_. 0) = (c, held)"
  shows "count_of c k = int (held k) \<and> int (held k) \<le> m \<and> (fst (acquire c k) \<longleftrightarrow> int (held k) < m)"
proof -
  have "0 < cap_max c0 \<Longrightarrow> \<forall>k. count_of c0 k = int (h0 k) \<and> int (h0 k) \<le> cap_max c0 \<Longrightarrow>
      fold cap_step es (c0, h0) = (c, held) \<Longrightarrow>
      cap_max c = cap_max c0 \<and> (\<forall>k. count_of c k = int (held k) \<and> int (held k) \<le> cap_max c0)" for c0 h0
  proof (induction es arbitrary: c0 h0)
    case (Cons e es)
    obtain c1 h1 where "cap_step e (c0, h0) = (c1, h1)" by (cases "cap_step e (c0, h0)")
    with cap_step_count [OF Cons.prems(1,2) this] Cons.IH [of c1 h1] Cons.prems show ?case by simp
  qed simp
  from this [OF _ _ assms(2)] assms(1) show ?thesis
    by (auto simp: newSessionCap_def count_of_def acquire_def)
qed

theorem session_cap_exact_witness:
  "fst (acquire (fst (fold cap_step [Connect [1], Connect [1], Disconnect [1], Connect [2]] (newSessionCap 2, \<lambda>_. 0))) [1])"
proof -
  obtain c held where f: "fold cap_step [Connect [1], Connect [1], Disconnect [1], Connect [2]] (newSessionCap 2, \<lambda>_. 0) = (c, held)"
    by (metis surj_pair)
  then have "held [1] = 1"
    by (auto simp: acquire_def release_def newSessionCap_def count_of_def)
  with session_cap_exact [OF _ f, of "[1]"] f show ?thesis by simp
qed

end
