(* ===== verification/Go_Hex.thy ===== *)
theory Go_Hex
  imports Relay_Prelude "HOL-Library.Monad_Syntax"
begin

text \<open>
  \<open>encoding/hex\<close> as the relay uses it: lower-case encoding, decoding that accepts both cases,
  and the facts that decoding inverts encoding and encoding is injective.
\<close>

definition hex_digit :: "byte \<Rightarrow> char" where
  "hex_digit d = (if d < 10 then char_of (48 + unat d) else char_of (87 + unat d))"

fun EncodeToString :: "bytes \<Rightarrow> string" where
  "EncodeToString [] = []"
| "EncodeToString (b # bs) = hex_digit (drop_bit 4 b) # hex_digit (b AND 0x0F) # EncodeToString bs"

definition fromHexChar :: "char \<Rightarrow> byte option" where
  "fromHexChar c =
     (let n = of_char c :: nat in
      if 48 \<le> n \<and> n \<le> 57 then Some (of_nat (n - 48))
      else if 97 \<le> n \<and> n \<le> 102 then Some (of_nat (n - 87))
      else if 65 \<le> n \<and> n \<le> 70 then Some (of_nat (n - 55))
      else None)"

text \<open>An odd length or a non-digit is an error, here \<open>None\<close>.\<close>

fun DecodeString :: "string \<Rightarrow> bytes option" where
  "DecodeString [] = Some []"
| "DecodeString [c] = None"
| "DecodeString (c # d # cs) =
     do { hi \<leftarrow> fromHexChar c; lo \<leftarrow> fromHexChar d; bs \<leftarrow> DecodeString cs; Some ((push_bit 4 hi OR lo) # bs) }"

lemma fromHexChar_hex_digit:
  assumes "unat d < 16"
  shows "fromHexChar (hex_digit d) = Some d"
proof -
  have "(of_nat (unat d) :: byte) = d" by simp
  with assms show ?thesis
    by (auto simp: fromHexChar_def hex_digit_def Let_def word_less_nat_alt)
qed

lemma high_nibble: "unat (drop_bit 4 (b :: byte)) < 16"
proof -
  have "unat b < 2 ^ LENGTH(8)" by (rule unsigned_less)
  moreover have "unat (drop_bit 4 b) = unat b div 16" by (simp add: drop_bit_eq_div unat_div)
  ultimately show ?thesis by simp
qed

lemma low_nibble: "unat (b AND 0x0F :: byte) < 16"
proof -
  have "b AND 0x0F \<le> 0x0F" by (rule word_and_le1)
  then show ?thesis by (simp add: word_le_nat_alt)
qed

lemma nibbles: "push_bit 4 (drop_bit 4 b) OR (b AND 0x0F) = (b :: byte)"
proof (rule bit_word_eqI)
  fix n assume "n < LENGTH(8)"
  moreover have "bit (0x0F :: byte) n \<longleftrightarrow> n < 4"
    using \<open>n < LENGTH(8)\<close> bit_mask_iff [where 'a = byte, of 4 n] by (simp add: mask_eq_exp_minus_1)
  ultimately show "bit (push_bit 4 (drop_bit 4 b) OR (b AND 0x0F)) n \<longleftrightarrow> bit b n"
    by (auto simp: bit_simps not_less)
qed

lemma DecodeString_EncodeToString [simp]: "DecodeString (EncodeToString bs) = Some bs"
  by (induction bs) (simp_all add: fromHexChar_hex_digit high_nibble low_nibble nibbles)

lemma EncodeToString_inject [simp]: "EncodeToString a = EncodeToString b \<longleftrightarrow> a = b"
  by (metis DecodeString_EncodeToString option.inject)

lemma length_EncodeToString [simp]: "length (EncodeToString bs) = 2 * length bs"
  by (induction bs) simp_all

end
