(* ===== verification/Notifier.thy ===== *)
theory Notifier
  imports Go_Errors Go_Hex
begin

text \<open>
  The in-process notifier of \<open>internal/notify/inprocess/notifier.go\<close> (the port is
  \<open>internal/notify/notifier.go\<close>). Subscriber lists are Go slices, so the model has the backing
  arrays: \<open>append\<close> writes in place while there is room, and removal shifts the shared array.
  The operations first, as they run when nothing interleaves; then the contract of the port and
  its interpretation; then the interleavings the code allows, as a step relation.
\<close>

section \<open>Channels, arrays and slices\<close>

text \<open>A channel of capacity one, \<open>make(chan struct{}, 1)\<close>: its buffer and whether it is closed.\<close>

record chan_state =
  buffered :: bool
  closed :: bool

text \<open>A slice that starts at the beginning of its array; its capacity is the array's length.\<close>

record slice =
  base :: nat
  slen :: nat

text \<open>Arrays and channels are allocated by appending; addresses are positions.\<close>

record notifier =
  arrays :: "nat list list"
  chans :: "chan_state list"
  subs :: "string \<rightharpoonup> slice"

definition inprocess_New :: notifier where
  "inprocess_New = \<lparr>arrays = [], chans = [], subs = Map.empty\<rparr>"

definition elems :: "notifier \<Rightarrow> slice \<Rightarrow> nat list" where
  "elems n s = take (slen s) (arrays n ! base s)"

text \<open>What \<open>subs[k]\<close> holds; a missing key is the nil slice.\<close>

definition subscribers :: "notifier \<Rightarrow> bytes \<Rightarrow> nat list" where
  "subscribers n key = (case subs n (EncodeToString key) of None \<Rightarrow> [] | Some s \<Rightarrow> elems n s)"

section \<open>Operations\<close>

text \<open>
  \<open>append(chs, ch)\<close>: in place when the array has room, otherwise into a new array; \<open>grow\<close> is the
  run-time's choice of the new capacity.
\<close>

definition go_append :: "(nat \<Rightarrow> nat) \<Rightarrow> notifier \<Rightarrow> slice option \<Rightarrow> nat \<Rightarrow> slice \<times> notifier" where
  "go_append grow n chs ch =
     (let len = (case chs of None \<Rightarrow> 0 | Some s \<Rightarrow> slen s);
          old = (case chs of None \<Rightarrow> [] | Some s \<Rightarrow> arrays n ! base s) in
      if len < length old
      then (\<lparr>base = base (the chs), slen = len + 1\<rparr>,
            n\<lparr>arrays := (arrays n)[base (the chs) := old[len := ch]]\<rparr>)
      else (\<lparr>base = length (arrays n), slen = len + 1\<rparr>,
            n\<lparr>arrays := arrays n @ [take len old @ [ch] @ replicate (grow len - (len + 1)) 0]\<rparr>))"

text \<open>The locked part of \<open>Subscribe\<close>: a new channel, appended to the key's list.\<close>

definition inprocess_Subscribe :: "(nat \<Rightarrow> nat) \<Rightarrow> notifier \<Rightarrow> bytes \<Rightarrow> nat \<times> notifier" where
  "inprocess_Subscribe grow n key =
     (let ch = length (chans n); k = EncodeToString key;
          n1 = n\<lparr>chans := chans n @ [\<lparr>buffered = False, closed = False\<rparr>]\<rparr> in
      case go_append grow n1 (subs n1 k) ch of (s, n2) \<Rightarrow> (ch, n2\<lparr>subs := (subs n2)(k \<mapsto> s)\<rparr>))"

text \<open>The index of the first occurrence, the \<open>for\<close> loop of the teardown goroutine.\<close>

fun index_of :: "nat \<Rightarrow> nat list \<Rightarrow> nat option" where
  "index_of ch [] = None"
| "index_of ch (c # cs) = (if c = ch then Some 0 else map_option Suc (index_of ch cs))"

text \<open>\<open>append(chs[:i], chs[i+1:]...)\<close> shifts the array in place; its last cell keeps its value.\<close>

definition shift_out :: "nat list \<Rightarrow> nat \<Rightarrow> nat \<Rightarrow> nat list" where
  "shift_out a i len = take i a @ drop (i + 1) (take len a) @ drop (len - 1) a"

text \<open>The locked part of the teardown.\<close>

definition unlink :: "notifier \<Rightarrow> bytes \<Rightarrow> nat \<Rightarrow> notifier" where
  "unlink n key ch =
     (let k = EncodeToString key in
      case subs n k of
        None \<Rightarrow> n
      | Some s \<Rightarrow>
          (let n1 = (case index_of ch (elems n s) of
                None \<Rightarrow> n
              | Some i \<Rightarrow> n\<lparr>arrays := (arrays n)[base s := shift_out (arrays n ! base s) i (slen s)],
                            subs := (subs n)(k \<mapsto> s\<lparr>slen := slen s - 1\<rparr>)\<rparr>)
           in if (case subs n1 k of None \<Rightarrow> 0 | Some s \<Rightarrow> slen s) = 0 then n1\<lparr>subs := (subs n1)(k := None)\<rparr> else n1))"

text \<open>\<open>close(ch)\<close>, after the lock was released.\<close>

definition close_chan :: "notifier \<Rightarrow> nat \<Rightarrow> notifier" where
  "close_chan n ch = n\<lparr>chans := (chans n)[ch := (chans n ! ch)\<lparr>closed := True\<rparr>]\<rparr>"

definition teardown :: "notifier \<Rightarrow> bytes \<Rightarrow> nat \<Rightarrow> notifier" where
  "teardown n key ch = close_chan (unlink n key ch) ch"

text \<open>
  One round of the loop of \<open>Notify\<close>: the \<open>select\<close> with a \<open>default\<close>. A send on a closed channel
  panics; a full buffer takes the default branch and keeps the pending signal.
\<close>

definition try_send :: "notifier \<Rightarrow> nat \<Rightarrow> notifier go" where
  "try_send n ch =
     (if closed (chans n ! ch) then Panic
      else Ret (n\<lparr>chans := (chans n)[ch := (chans n ! ch)\<lparr>buffered := True\<rparr>]\<rparr>))"

fun send_all :: "notifier \<Rightarrow> nat list \<Rightarrow> notifier go" where
  "send_all n [] = Ret n"
| "send_all n (ch # chs) = (case try_send n ch of Panic \<Rightarrow> Panic | Ret n' \<Rightarrow> send_all n' chs)"

definition inprocess_Notify :: "notifier \<Rightarrow> bytes \<Rightarrow> notifier go" where
  "inprocess_Notify n key = send_all n (subscribers n key)"

text \<open>The consumer takes the pending signal.\<close>

definition drain :: "notifier \<Rightarrow> nat \<Rightarrow> notifier" where
  "drain n ch = n\<lparr>chans := (chans n)[ch := (chans n ! ch)\<lparr>buffered := False\<rparr>]\<rparr>"

section \<open>The invariant\<close>

definition slice_ok :: "notifier \<Rightarrow> slice \<Rightarrow> bool" where
  "slice_ok n s \<longleftrightarrow> base s < length (arrays n) \<and> 0 < slen s \<and> slen s \<le> length (arrays n ! base s) \<and>
     distinct (elems n s) \<and> (\<forall>c \<in> set (elems n s). c < length (chans n) \<and> \<not> closed (chans n ! c))"

definition notifier_ok :: "notifier \<Rightarrow> bool" where
  "notifier_ok n \<longleftrightarrow> (\<forall>k s. subs n k = Some s \<longrightarrow> slice_ok n s) \<and>
     (\<forall>k s k' s'. subs n k = Some s \<longrightarrow> subs n k' = Some s' \<longrightarrow> k \<noteq> k' \<longrightarrow>
        base s \<noteq> base s' \<and> set (elems n s) \<inter> set (elems n s') = {})"

lemma notifier_ok_New: "notifier_ok inprocess_New"
  by (simp add: notifier_ok_def inprocess_New_def)

lemma notifier_ok_slice: "notifier_ok n \<Longrightarrow> subs n k = Some s \<Longrightarrow> slice_ok n s"
  by (simp add: notifier_ok_def)

lemma notifier_ok_apart:
  "notifier_ok n \<Longrightarrow> subs n k = Some s \<Longrightarrow> subs n k' = Some s' \<Longrightarrow> k \<noteq> k' \<Longrightarrow>
     base s \<noteq> base s' \<and> set (elems n s) \<inter> set (elems n s') = {}"
  unfolding notifier_ok_def by blast

lemma subscribers_open:
  assumes "notifier_ok n" "c \<in> set (subscribers n key)"
  shows "c < length (chans n) \<and> \<not> closed (chans n ! c)"
  using assms notifier_ok_slice [OF assms(1), of "EncodeToString key"]
  by (cases "subs n (EncodeToString key)") (auto simp: slice_ok_def subscribers_def)

lemma subscribers_distinct:
  assumes "notifier_ok n"
  shows "distinct (subscribers n key)"
  using notifier_ok_slice [OF assms, of "EncodeToString key"]
  by (cases "subs n (EncodeToString key)") (auto simp: slice_ok_def subscribers_def)

lemma subscribers_disjoint:
  assumes "notifier_ok n" "key \<noteq> key'"
  shows "set (subscribers n key) \<inter> set (subscribers n key') = {}"
  using notifier_ok_apart [OF assms(1), of "EncodeToString key" _ "EncodeToString key'"] assms(2)
  by (cases "subs n (EncodeToString key)"; cases "subs n (EncodeToString key')") (simp_all add: subscribers_def)

section \<open>Subscribe\<close>

text \<open>What \<open>append\<close> does to the list it is given and to every other list.\<close>

lemma go_append_nil:
  "go_append grow n None ch = (\<lparr>base = length (arrays n), slen = 1\<rparr>,
     n\<lparr>arrays := arrays n @ [ch # replicate (grow 0 - 1) 0]\<rparr>)"
  by (simp add: go_append_def)

lemma go_append_elems:
  assumes "go_append grow n chs ch = (s, n')"
    and "\<forall>s0. chs = Some s0 \<longrightarrow> base s0 < length (arrays n) \<and> slen s0 \<le> length (arrays n ! base s0)"
  shows "elems n' s = (case chs of None \<Rightarrow> [] | Some s0 \<Rightarrow> elems n s0) @ [ch]"
    and "base s < length (arrays n') \<and> 0 < slen s \<and> slen s \<le> length (arrays n' ! base s)"
    and "chans n' = chans n" and "subs n' = subs n"
  using assms
  by (auto simp: go_append_def Let_def elems_def take_Suc_conv_app_nth split: option.splits if_splits)

lemma go_append_others:
  assumes "go_append grow n chs ch = (s, n')" "base t < length (arrays n)" "\<forall>s0. chs = Some s0 \<longrightarrow> base t \<noteq> base s0"
  shows "elems n' t = elems n t" and "base t \<noteq> base s" and "base t < length (arrays n')"
    and "arrays n' ! base t = arrays n ! base t"
  using assms by (auto simp: go_append_def Let_def elems_def nth_append split: option.splits if_splits)

lemma Subscribe_eq:
  assumes "inprocess_Subscribe grow n key = (ch, n')"
  obtains s n2 where "ch = length (chans n)" "n' = n2\<lparr>subs := (subs n)(EncodeToString key \<mapsto> s)\<rparr>"
    "go_append grow (n\<lparr>chans := chans n @ [\<lparr>buffered = False, closed = False\<rparr>]\<rparr>) (subs n (EncodeToString key)) ch = (s, n2)"
    "chans n2 = chans n @ [\<lparr>buffered = False, closed = False\<rparr>]" "subs n2 = subs n"
proof -
  let ?n1 = "n\<lparr>chans := chans n @ [\<lparr>buffered = False, closed = False\<rparr>]\<rparr>"
  obtain s n2 where g: "go_append grow ?n1 (subs n (EncodeToString key)) (length (chans n)) = (s, n2)"
    by (cases "go_append grow ?n1 (subs n (EncodeToString key)) (length (chans n))")
  have "chans n2 = chans ?n1" "subs n2 = subs ?n1"
    using g by (auto simp: go_append_def Let_def split: if_splits)
  with g that assms show thesis by (auto simp: inprocess_Subscribe_def Let_def)
qed

lemma elems_update [simp]:
  "elems (n\<lparr>subs := x\<rparr>) s = elems n s" "elems (n\<lparr>chans := y\<rparr>) s = elems n s"
  by (simp_all add: elems_def)

lemma Subscribe_ok:
  assumes n: "notifier_ok n" and e: "inprocess_Subscribe grow n key = (ch, n')"
  shows "notifier_ok n'" and "ch = length (chans n)"
    and "chans n' = chans n @ [\<lparr>buffered = False, closed = False\<rparr>]"
    and "subscribers n' key' = (if key' = key then subscribers n key @ [ch] else subscribers n key')"
proof -
  let ?K = "EncodeToString key"
  let ?n1 = "n\<lparr>chans := chans n @ [\<lparr>buffered = False, closed = False\<rparr>]\<rparr>"
  from e obtain s n2 where g: "ch = length (chans n)" "n' = n2\<lparr>subs := (subs n)(?K \<mapsto> s)\<rparr>"
    "go_append grow ?n1 (subs n ?K) ch = (s, n2)" "chans n2 = chans ?n1" "subs n2 = subs n"
    by (rule Subscribe_eq) auto
  have pre: "\<forall>s0. subs n ?K = Some s0 \<longrightarrow> base s0 < length (arrays ?n1) \<and> slen s0 \<le> length (arrays ?n1 ! base s0)"
    using notifier_ok_slice [OF n] by (auto simp: slice_ok_def)
  note new = go_append_elems [OF g(3) pre]
  have old: "elems n2 t = elems n t \<and> base t \<noteq> base s \<and> base t < length (arrays n2) \<and> arrays n2 ! base t = arrays n ! base t"
    if "subs n k = Some t" "k \<noteq> ?K" for k t
    using go_append_others [OF g(3), of t] notifier_ok_slice [OF n that(1)] notifier_ok_apart [OF n that(1) _ that(2)]
    by (auto simp: slice_ok_def)
  have fresh: "c \<in> set (elems n t) \<Longrightarrow> c < length (chans n)" if "subs n k = Some t" for k t c
    using notifier_ok_slice [OF n that] by (auto simp: slice_ok_def)
  have new_ok: "slice_ok n' s"
    using new g notifier_ok_slice [OF n, of ?K] fresh [of ?K]
    by (auto simp: slice_ok_def nth_append split: option.splits)
  have old_ok: "slice_ok n' t" if "subs n k = Some t" "k \<noteq> ?K" for k t
    using old [OF that] notifier_ok_slice [OF n that(1)] g by (auto simp: slice_ok_def nth_append)
  have apart: "base t \<noteq> base s \<and> set (elems n' t) \<inter> set (elems n' s) = {}" if "subs n k = Some t" "k \<noteq> ?K" for k t
    using old [OF that] new(1) g notifier_ok_apart [OF n that(1) _ that(2)] fresh [OF that(1)]
    by (auto split: option.splits)
  show "notifier_ok n'"
    unfolding notifier_ok_def
  proof (intro conjI allI impI; (elim conjE)?)
    fix k t assume "subs n' k = Some t"
    then show "slice_ok n' t" using new_ok old_ok g by (auto split: if_splits)
  next
    fix k t k' t' assume "subs n' k = Some t" "subs n' k' = Some t'" "k \<noteq> k'"
    then show "base t \<noteq> base t'" "set (elems n' t) \<inter> set (elems n' t') = {}"
      using apart [of k t] apart [of k' t'] old [of k t] old [of k' t'] notifier_ok_apart [OF n, of k t k' t'] g
      by (auto split: if_splits)
  qed
  show "subscribers n' key' = (if key' = key then subscribers n key @ [ch] else subscribers n key')"
    using new(1) old [of "EncodeToString key'"] g by (auto simp: subscribers_def split: option.splits)
qed (use e in \<open>auto elim: Subscribe_eq\<close>)

section \<open>Teardown\<close>

lemma index_of_Some: "index_of ch cs = Some i \<Longrightarrow> i < length cs \<and> cs ! i = ch \<and> remove1 ch cs = take i cs @ drop (Suc i) cs"
  by (induction cs arbitrary: i) (auto split: if_splits)

lemma index_of_None: "index_of ch cs = None \<longleftrightarrow> ch \<notin> set cs"
  by (induction cs) auto

lemma take_shift_out:
  "i < len \<Longrightarrow> len \<le> length a \<Longrightarrow> take (len - 1) (shift_out a i len) = take i (take len a) @ drop (Suc i) (take len a)"
  by (cases "i = len - 1") (auto simp: shift_out_def min_def)

lemma length_shift_out: "i < len \<Longrightarrow> len \<le> length a \<Longrightarrow> length (shift_out a i len) = length a"
  by (simp add: shift_out_def min_def)

text \<open>The locked part of the teardown on a well-formed notifier, when the channel is listed.\<close>

lemma unlink_listed:
  assumes n: "notifier_ok n" and s: "subs n (EncodeToString key) = Some s" and i: "index_of ch (elems n s) = Some i"
  defines "n' \<equiv> n\<lparr>arrays := (arrays n)[base s := shift_out (arrays n ! base s) i (slen s)]\<rparr>"
  defines "t \<equiv> s\<lparr>slen := slen s - 1\<rparr>"
  shows "unlink n key ch = n'\<lparr>subs := (subs n)(EncodeToString key := if slen s = 1 then None else Some t)\<rparr>"
    and "elems n' t = remove1 ch (elems n s)"
    and "base t < length (arrays n') \<and> slen t \<le> length (arrays n' ! base t)"
    and "k \<noteq> EncodeToString key \<Longrightarrow> subs n k = Some u \<Longrightarrow> elems n' u = elems n u \<and> base u < length (arrays n') \<and>
           arrays n' ! base u = arrays n ! base u"
proof -
  have ok: "base s < length (arrays n)" "slen s \<le> length (arrays n ! base s)" "length (elems n s) = slen s" "0 < slen s"
    using notifier_ok_slice [OF n s] by (auto simp: slice_ok_def elems_def)
  from index_of_Some [OF i] ok have il: "i < slen s" and rm: "remove1 ch (elems n s) = take i (elems n s) @ drop (Suc i) (elems n s)"
    by auto
  show "unlink n key ch = n'\<lparr>subs := (subs n)(EncodeToString key := if slen s = 1 then None else Some t)\<rparr>"
    using s i ok by (cases "slen s = 1") (simp_all add: unlink_def Let_def n'_def t_def fun_upd_upd)
  show "elems n' t = remove1 ch (elems n s)"
    using ok il rm take_shift_out [OF il ok(2)] by (simp add: n'_def t_def elems_def)
  show "base t < length (arrays n') \<and> slen t \<le> length (arrays n' ! base t)"
    using ok il by (simp add: n'_def t_def length_shift_out)
  assume "k \<noteq> EncodeToString key" "subs n k = Some u"
  with notifier_ok_apart [OF n s this(2)] notifier_ok_slice [OF n this(2)]
  show "elems n' u = elems n u \<and> base u < length (arrays n') \<and> arrays n' ! base u = arrays n ! base u"
    by (auto simp: n'_def elems_def slice_ok_def)
qed

lemma unlink_ok:
  assumes n: "notifier_ok n"
  shows "notifier_ok (unlink n key ch)" and "chans (unlink n key ch) = chans n"
    and "subscribers (unlink n key ch) key' = (if key' = key then remove1 ch (subscribers n key) else subscribers n key')"
proof -
  let ?K = "EncodeToString key"
  have "notifier_ok (unlink n key ch) \<and> chans (unlink n key ch) = chans n \<and>
    subscribers (unlink n key ch) key' = (if key' = key then remove1 ch (subscribers n key) else subscribers n key')"
  proof (cases "ch \<in> set (subscribers n key)")
    case False
    have "unlink n key ch = n"
    proof (cases "subs n ?K")
      case (Some s)
      with False have "index_of ch (elems n s) = None" by (simp add: index_of_None subscribers_def)
      moreover have "0 < slen s" using notifier_ok_slice [OF n Some] by (simp add: slice_ok_def)
      ultimately show ?thesis using Some by (simp add: unlink_def)
    qed (simp add: unlink_def)
    with n False show ?thesis by (simp add: remove1_idem)
  next
    case True
    then obtain s where s: "subs n ?K = Some s" "ch \<in> set (elems n s)"
      by (cases "subs n ?K") (simp_all add: subscribers_def)
    then obtain i where i: "index_of ch (elems n s) = Some i" using index_of_None by fastforce
    note u = unlink_listed [OF n s(1) i]
    define n' where "n' = n\<lparr>arrays := (arrays n)[base s := shift_out (arrays n ! base s) i (slen s)]\<rparr>"
    define t where "t = s\<lparr>slen := slen s - 1\<rparr>"
    note u = u [folded n'_def t_def]
    have sok: "slice_ok n s" by (rule notifier_ok_slice [OF n s(1)])
    have chans: "chans n' = chans n" by (simp add: n'_def)
    have "length (elems n s) = slen s" using sok by (auto simp: slice_ok_def elems_def)
    then have len1: "slen s = 1 \<Longrightarrow> remove1 ch (elems n s) = []"
      using s(2) by (auto simp: length_Suc_conv)
    have tok: "slen s \<noteq> 1 \<Longrightarrow> slice_ok n' t"
      using u(2,3) sok chans set_remove1_subset [of ch "elems n s"]
      by (auto simp: slice_ok_def t_def distinct_remove1)
    have other: "slice_ok n' v \<and> base v \<noteq> base t \<and> set (elems n' v) \<inter> set (elems n' t) = {}"
      if "k \<noteq> ?K" "subs n k = Some v" for k v
      using u(2) u(4) [OF that] notifier_ok_slice [OF n that(2)] notifier_ok_apart [OF n that(2) s(1) that(1)] chans
        set_remove1_subset [of ch "elems n s"]
      by (auto simp: slice_ok_def t_def)
    have "notifier_ok (unlink n key ch)"
      unfolding u(1) notifier_ok_def
      using tok other notifier_ok_apart [OF n] u(4) by (auto simp: slice_ok_def split: if_splits) blast+
    moreover have "subscribers (unlink n key ch) key' =
        (if key' = key then remove1 ch (subscribers n key) else subscribers n key')"
      using u(1,2) u(4) [of "EncodeToString key'"] len1 s(1) by (auto simp: subscribers_def split: option.splits)
    ultimately show ?thesis by (simp add: u(1) chans)
  qed
  then show "notifier_ok (unlink n key ch)" and "chans (unlink n key ch) = chans n"
    and "subscribers (unlink n key ch) key' = (if key' = key then remove1 ch (subscribers n key) else subscribers n key')"
    by auto
qed

text \<open>A channel that no list holds may be closed.\<close>

definition unlisted :: "notifier \<Rightarrow> nat \<Rightarrow> bool" where
  "unlisted n ch \<longleftrightarrow> (\<forall>k s. subs n k = Some s \<longrightarrow> ch \<notin> set (elems n s))"

lemma close_ok:
  assumes "notifier_ok n" "unlisted n ch"
  shows "notifier_ok (close_chan n ch)"
proof -
  have "slice_ok (close_chan n ch) s" if s: "subs n k = Some s" for k s
  proof -
    have "c \<in> set (elems n s) \<Longrightarrow> ch \<noteq> c" for c using assms(2) s by (auto simp: unlisted_def)
    with notifier_ok_slice [OF assms(1) s] show ?thesis by (auto simp: slice_ok_def close_chan_def)
  qed
  with assms(1) show ?thesis by (simp add: notifier_ok_def close_chan_def)
qed

lemma unlink_unlisted:
  assumes n: "notifier_ok n" and ch: "ch \<in> set (subscribers n key)"
  shows "unlisted (unlink n key ch) ch"
  unfolding unlisted_def
proof (intro allI impI notI)
  fix k v assume v: "subs (unlink n key ch) k = Some v" "ch \<in> set (elems (unlink n key ch) v)"
  from ch obtain s where s: "subs n (EncodeToString key) = Some s" "ch \<in> set (elems n s)"
    by (cases "subs n (EncodeToString key)") (simp_all add: subscribers_def)
  then obtain i where i: "index_of ch (elems n s) = Some i" using index_of_None by fastforce
  note u = unlink_listed [OF n s(1) i]
  show False
  proof (cases "k = EncodeToString key")
    case True
    with v have "ch \<in> set (subscribers (unlink n key ch) key)" by (simp add: subscribers_def)
    then have "ch \<in> set (remove1 ch (subscribers n key))" by (simp add: unlink_ok(3) [OF n])
    with subscribers_distinct [OF n, of key] show False by (simp add: set_remove1_eq)
  next
    case False
    with v(1) u(1) have k: "subs n k = Some v" by simp
    with v(2) u(1) u(4) [OF False k] have "ch \<in> set (elems n v)" by simp
    with notifier_ok_apart [OF n k s(1) False] s(2) show False by auto
  qed
qed

lemma teardown_ok:
  assumes "notifier_ok n" "ch \<in> set (subscribers n key)"
  shows "notifier_ok (teardown n key ch)"
    and "subscribers (teardown n key ch) key' = (if key' = key then remove1 ch (subscribers n key) else subscribers n key')"
proof -
  show "notifier_ok (teardown n key ch)"
    unfolding teardown_def by (intro close_ok unlink_ok(1) unlink_unlisted assms)
  have "subscribers (teardown n key ch) key' = subscribers (unlink n key ch) key'"
    by (simp add: teardown_def close_chan_def subscribers_def split: option.split)
  then show "subscribers (teardown n key ch) key' = (if key' = key then remove1 ch (subscribers n key) else subscribers n key')"
    by (simp add: unlink_ok(3) [OF assms(1)])
qed

section \<open>Notify\<close>

lemma send_all_ok:
  assumes "\<forall>c \<in> set chs. c < length (chans n) \<and> \<not> closed (chans n ! c)"
  shows "\<exists>n'. send_all n chs = Ret n' \<and> arrays n' = arrays n \<and> subs n' = subs n \<and> length (chans n') = length (chans n) \<and>
    (\<forall>c < length (chans n). closed (chans n' ! c) = closed (chans n ! c) \<and>
       buffered (chans n' ! c) = (buffered (chans n ! c) \<or> c \<in> set chs))"
  using assms
proof (induction chs arbitrary: n)
  case (Cons ch chs)
  let ?n1 = "n\<lparr>chans := (chans n)[ch := (chans n ! ch)\<lparr>buffered := True\<rparr>]\<rparr>"
  have "try_send n ch = Ret ?n1" using Cons.prems by (simp add: try_send_def)
  moreover have "\<forall>c \<in> set chs. c < length (chans ?n1) \<and> \<not> closed (chans ?n1 ! c)"
    using Cons.prems by (auto simp: nth_list_update)
  ultimately show ?case using Cons.IH [of ?n1] Cons.prems by (auto simp: nth_list_update)
qed simp

lemma Notify_ok:
  assumes "notifier_ok n"
  shows "\<exists>n'. inprocess_Notify n key = Ret n' \<and> notifier_ok n' \<and> subs n' = subs n \<and>
    (\<forall>key'. subscribers n' key' = subscribers n key') \<and> length (chans n') = length (chans n) \<and>
    (\<forall>c < length (chans n). buffered (chans n' ! c) = (buffered (chans n ! c) \<or> c \<in> set (subscribers n key)))"
proof -
  obtain n' where n': "inprocess_Notify n key = Ret n'" "arrays n' = arrays n" "subs n' = subs n"
    "length (chans n') = length (chans n)"
    "\<forall>c < length (chans n). closed (chans n' ! c) = closed (chans n ! c) \<and>
       buffered (chans n' ! c) = (buffered (chans n ! c) \<or> c \<in> set (subscribers n key))"
    using send_all_ok [of "subscribers n key" n] subscribers_open [OF assms] by (auto simp: inprocess_Notify_def)
  have e: "elems n' s = elems n s" for s by (simp add: elems_def n')
  have "notifier_ok n'"
    using assms n' by (auto simp: notifier_ok_def slice_ok_def e)
  with n' e show ?thesis by (auto simp: subscribers_def split: option.split)
qed

section \<open>The port and its contract\<close>

text \<open>
  The port of \<open>internal/notify/notifier.go\<close>, with what a subscriber does to its channel: seeing
  whether a signal is pending, taking it, and ending the subscription by cancelling its context.
\<close>

record 'n NotifierOps =
  Notify :: "'n \<Rightarrow> bytes \<Rightarrow> 'n go"
  Subscribe :: "'n \<Rightarrow> bytes \<Rightarrow> (go_err + nat) \<times> 'n"
  HasSignal :: "'n \<Rightarrow> nat \<Rightarrow> bool"
  Receive :: "'n \<Rightarrow> nat \<Rightarrow> 'n"
  Unsubscribe :: "'n \<Rightarrow> bytes \<Rightarrow> nat \<Rightarrow> 'n"

locale notifier_contract =
  fixes N :: "'n NotifierOps"
    and ninvar :: "'n \<Rightarrow> bool"
    and listed :: "'n \<Rightarrow> bytes \<Rightarrow> nat set"
  assumes notify_ok: "ninvar n \<Longrightarrow> \<exists>n'. Notify N n k = Ret n' \<and> ninvar n' \<and> listed n' = listed n \<and>
      (\<forall>c. HasSignal N n c \<or> c \<in> listed n k \<longrightarrow> HasSignal N n' c)"
    and subscribe_ok: "ninvar n \<Longrightarrow> Subscribe N n k = (Inr c, n') \<Longrightarrow>
      ninvar n' \<and> (\<forall>k'. c \<notin> listed n k') \<and> listed n' = (listed n)(k := insert c (listed n k)) \<and>
      (\<forall>d. HasSignal N n' d \<longleftrightarrow> HasSignal N n d)"
    and subscribe_err: "ninvar n \<Longrightarrow> Subscribe N n k = (Inl e, n') \<Longrightarrow>
      ninvar n' \<and> listed n' = listed n \<and> (\<forall>d. HasSignal N n' d \<longleftrightarrow> HasSignal N n d)"
    and receive_ok: "ninvar n \<Longrightarrow> c \<in> listed n k \<Longrightarrow> ninvar (Receive N n c) \<and> listed (Receive N n c) = listed n \<and>
      (\<forall>d. HasSignal N (Receive N n c) d \<longleftrightarrow> d \<noteq> c \<and> HasSignal N n d)"
    and unsubscribe_ok: "ninvar n \<Longrightarrow> c \<in> listed n k \<Longrightarrow> ninvar (Unsubscribe N n k c) \<and>
      listed (Unsubscribe N n k c) = (listed n)(k := listed n k - {c}) \<and>
      (\<forall>d. HasSignal N (Unsubscribe N n k c) d \<longleftrightarrow> HasSignal N n d)"

definition pending :: "notifier \<Rightarrow> nat \<Rightarrow> bool" where
  "pending n c \<longleftrightarrow> c < length (chans n) \<and> buffered (chans n ! c)"

definition inprocess_ops :: "(nat \<Rightarrow> nat) \<Rightarrow> notifier NotifierOps" where
  "inprocess_ops grow = \<lparr>Notify = inprocess_Notify,
     Subscribe = (\<lambda>n key. case inprocess_Subscribe grow n key of (ch, n') \<Rightarrow> (Inr ch, n')),
     HasSignal = pending, Receive = drain, Unsubscribe = teardown\<rparr>"

definition listed_in :: "notifier \<Rightarrow> bytes \<Rightarrow> nat set" where
  "listed_in n key = set (subscribers n key)"

lemma closed_after_buffer [simp]: "i < length cs \<Longrightarrow> closed (cs[c := (cs ! c)\<lparr>buffered := x\<rparr>] ! i) = closed (cs ! i)"
  by (cases "i = c") simp_all

lemma drain_ok: "notifier_ok n \<Longrightarrow> notifier_ok (drain n c)"
  by (simp add: notifier_ok_def slice_ok_def drain_def)

lemma pending_drain: "c < length (chans n) \<Longrightarrow> pending (drain n c) d \<longleftrightarrow> d \<noteq> c \<and> pending n d"
  by (cases "d = c") (auto simp: pending_def drain_def)

lemma pending_close: "pending (close_chan n c) d \<longleftrightarrow> pending n d"
  by (cases "d = c") (auto simp: pending_def close_chan_def nth_list_update)

lemma drain_view: "subscribers (drain n c) key = subscribers n key"
  by (simp add: subscribers_def drain_def split: option.split)

interpretation inproc: notifier_contract "inprocess_ops grow" notifier_ok listed_in for grow
proof unfold_locales
  fix n k assume n: "notifier_ok n"
  from Notify_ok [OF n, of k] subscribers_open [OF n, of _ k]
  show "\<exists>n'. Notify (inprocess_ops grow) n k = Ret n' \<and> notifier_ok n' \<and> listed_in n' = listed_in n \<and>
      (\<forall>c. HasSignal (inprocess_ops grow) n c \<or> c \<in> listed_in n k \<longrightarrow> HasSignal (inprocess_ops grow) n' c)"
    by (auto simp: inprocess_ops_def listed_in_def pending_def fun_eq_iff)
next
  fix n k c n' assume n: "notifier_ok n" and "Subscribe (inprocess_ops grow) n k = (Inr c, n')"
  then have s: "inprocess_Subscribe grow n k = (c, n')" by (auto simp: inprocess_ops_def split: prod.splits)
  note ok = Subscribe_ok [OF n s]
  have "c \<notin> listed_in n k'" for k' using subscribers_open [OF n, of c k'] ok(2) by (auto simp: listed_in_def)
  with ok show "notifier_ok n' \<and> (\<forall>k'. c \<notin> listed_in n k') \<and> listed_in n' = (listed_in n)(k := insert c (listed_in n k)) \<and>
      (\<forall>d. HasSignal (inprocess_ops grow) n' d \<longleftrightarrow> HasSignal (inprocess_ops grow) n d)"
    by (auto simp: inprocess_ops_def listed_in_def fun_eq_iff pending_def nth_append less_Suc_eq)
next
  fix n k e n' assume "Subscribe (inprocess_ops grow) n k = (Inl e, n')"
  then show "notifier_ok n' \<and> listed_in n' = listed_in n \<and> (\<forall>d. HasSignal (inprocess_ops grow) n' d \<longleftrightarrow> HasSignal (inprocess_ops grow) n d)"
    by (simp add: inprocess_ops_def split: prod.splits)
next
  fix n c k assume n: "notifier_ok n" and c: "c \<in> listed_in n k"
  then have "c < length (chans n)" using subscribers_open [OF n] by (auto simp: listed_in_def)
  then show "notifier_ok (Receive (inprocess_ops grow) n c) \<and> listed_in (Receive (inprocess_ops grow) n c) = listed_in n \<and>
      (\<forall>d. HasSignal (inprocess_ops grow) (Receive (inprocess_ops grow) n c) d \<longleftrightarrow> d \<noteq> c \<and> HasSignal (inprocess_ops grow) n d)"
    by (simp add: inprocess_ops_def drain_ok [OF n] listed_in_def drain_view fun_eq_iff pending_drain)
  note t = teardown_ok [OF n, of c k] unlink_ok(2) [OF n, of k c]
  show "notifier_ok (Unsubscribe (inprocess_ops grow) n k c) \<and>
      listed_in (Unsubscribe (inprocess_ops grow) n k c) = (listed_in n)(k := listed_in n k - {c}) \<and>
      (\<forall>d. HasSignal (inprocess_ops grow) (Unsubscribe (inprocess_ops grow) n k c) d \<longleftrightarrow> HasSignal (inprocess_ops grow) n d)"
    using t c subscribers_distinct [OF n, of k]
    by (simp add: inprocess_ops_def listed_in_def fun_eq_iff set_remove1_eq)
       (simp add: teardown_def pending_close, simp add: pending_def)
qed

section \<open>Properties, one call at a time\<close>

text \<open>The states reached when the calls of the notifier do not overlap.\<close>

inductive serial :: "(nat \<Rightarrow> nat) \<Rightarrow> notifier \<Rightarrow> bool" for grow where
  init: "serial grow inprocess_New"
| subscribe: "serial grow n \<Longrightarrow> inprocess_Subscribe grow n key = (ch, n') \<Longrightarrow> serial grow n'"
| notify: "serial grow n \<Longrightarrow> inprocess_Notify n key = Ret n' \<Longrightarrow> serial grow n'"
| receive: "serial grow n \<Longrightarrow> serial grow (drain n ch)"
| leave: "serial grow n \<Longrightarrow> ch \<in> set (subscribers n key) \<Longrightarrow> serial grow (teardown n key ch)"

lemma serial_ok: "serial grow n \<Longrightarrow> notifier_ok n"
proof (induction rule: serial.induct)
  case (notify n key n')
  with Notify_ok [of n key] show ?case by auto
qed (auto simp: notifier_ok_New Subscribe_ok drain_ok teardown_ok)

text \<open>
  C18 (wake-ups, one call at a time). In every state reached by calls that do not overlap,
  \<open>Notify\<close> returns without panicking, leaves the subscriber lists as they are, and leaves a
  pending signal at exactly the channels that had one and those subscribed to the key.
\<close>

theorem notify_signals_all:
  assumes "serial grow n"
  shows "\<exists>n'. inprocess_Notify n key = Ret n' \<and> (\<forall>key'. subscribers n' key' = subscribers n key') \<and>
    (\<forall>c. pending n' c \<longleftrightarrow> pending n c \<or> c \<in> set (subscribers n key))"
  using Notify_ok [OF serial_ok [OF assms], of key] subscribers_open [OF serial_ok [OF assms], of _ key]
  by (auto simp: pending_def)

theorem notify_signals_all_witness:
  "\<exists>n'. inprocess_Notify (snd (inprocess_Subscribe (\<lambda>n. 2 * n) inprocess_New [7])) [7] = Ret n' \<and> pending n' 0"
proof -
  let ?n = "snd (inprocess_Subscribe (\<lambda>n. 2 * n) inprocess_New [7])"
  have s: "inprocess_Subscribe (\<lambda>n. 2 * n) inprocess_New [7] = (0, ?n)"
    by (simp add: inprocess_Subscribe_def inprocess_New_def Let_def split_def)
  have "serial (\<lambda>n. 2 * n) ?n" by (rule serial.subscribe [OF serial.init s])
  from notify_signals_all [OF this, of "[7]"] show ?thesis
    by (simp add: Subscribe_ok(4) [OF notifier_ok_New s]) blast
qed

section \<open>The interleavings the code allows\<close>

text \<open>
  \<open>Notify\<close> holds the lock only while it copies the slice header; its loop then reads the shared
  array. The teardown closes the channel after it released the lock. A thread is a \<open>Notify\<close> at
  index \<open>j\<close> of its slice, or a teardown about to close. Receives are left out: no consumer takes
  a signal, so a signal once sent stays.
\<close>

datatype nthread = Notifying slice nat | Closing nat | Finished

datatype nstate = Running notifier "nthread list" | Crashed

inductive nstep :: "(nat \<Rightarrow> nat) \<Rightarrow> nstate \<Rightarrow> nstate \<Rightarrow> bool" for grow where
  subscribe: "inprocess_Subscribe grow n key = (ch, n') \<Longrightarrow> nstep grow (Running n ts) (Running n' ts)"
| snapshot: "subs n (EncodeToString key) = Some s \<Longrightarrow> nstep grow (Running n ts) (Running n (ts @ [Notifying s 0]))"
| send: "i < length ts \<Longrightarrow> ts ! i = Notifying s j \<Longrightarrow> j < slen s \<Longrightarrow> try_send n (arrays n ! base s ! j) = Ret n' \<Longrightarrow>
    nstep grow (Running n ts) (Running n' (ts[i := Notifying s (Suc j)]))"
| send_closed: "i < length ts \<Longrightarrow> ts ! i = Notifying s j \<Longrightarrow> j < slen s \<Longrightarrow> try_send n (arrays n ! base s ! j) = Panic \<Longrightarrow>
    nstep grow (Running n ts) Crashed"
| return: "i < length ts \<Longrightarrow> ts ! i = Notifying s (slen s) \<Longrightarrow> nstep grow (Running n ts) (Running n (ts[i := Finished]))"
| unlink: "ch \<in> set (subscribers n key) \<Longrightarrow> nstep grow (Running n ts) (Running (unlink n key ch) (ts @ [Closing ch]))"
| close: "i < length ts \<Longrightarrow> ts ! i = Closing ch \<Longrightarrow> nstep grow (Running n ts) (Running (close_chan n ch) (ts[i := Finished]))"

inductive_cases nstep_CrashedE: "nstep grow Crashed s"

lemmas notifier_defs = inprocess_Subscribe_def inprocess_New_def Let_def go_append_def subscribers_def elems_def
  try_send_def unlink_def close_chan_def shift_out_def

text \<open>The notifier with three subscribers of one key.\<close>

definition three_subscribed :: "bytes \<Rightarrow> notifier" where
  "three_subscribed key =
     snd (inprocess_Subscribe (\<lambda>n. 2 * n) (snd (inprocess_Subscribe (\<lambda>n. 2 * n)
       (snd (inprocess_Subscribe (\<lambda>n. 2 * n) inprocess_New key)) key)) key)"

lemma three_subscribed_eq:
  "three_subscribed key = \<lparr>arrays = [[0], [0, 1], [0, 1, 2, 0]],
     chans = replicate 3 \<lparr>buffered = False, closed = False\<rparr>,
     subs = Map.empty(EncodeToString key \<mapsto> \<lparr>base = 2, slen = 3\<rparr>)\<rparr>"
  by (simp add: three_subscribed_def notifier_defs numeral_eq_Suc)

lemma reach_three:
  "(nstep (\<lambda>n. 2 * n))\<^sup>*\<^sup>* (Running inprocess_New []) (Running (three_subscribed key) [])"
proof -
  have sub: "nstep grow (Running n ts) (Running (snd (inprocess_Subscribe grow n key)) ts)" for grow n ts
    by (rule nstep.subscribe [of grow n key "fst (inprocess_Subscribe grow n key)"]) simp
  show ?thesis
    unfolding three_subscribed_def
    by (rule rtranclp.rtrancl_into_rtrancl, rule rtranclp.rtrancl_into_rtrancl, rule rtranclp.rtrancl_into_rtrancl,
        rule rtranclp.rtrancl_refl) (rule sub)+
qed

text \<open>
  The teardown race, a panic. An interleaving of \<open>Notify\<close> with the teardown of one
  subscriber ends in a send on a closed channel, a panic that ends the process: the snapshot is
  taken, the subscription ends and its channel is closed, the loop reaches the channel.
\<close>

lemma notify_race_panics: "(nstep (\<lambda>n. 2 * n))\<^sup>*\<^sup>* (Running inprocess_New []) Crashed"
proof -
  let ?n = "three_subscribed []" and ?s = "\<lparr>base = 2, slen = 3\<rparr>"
  let ?R = "nstep (\<lambda>n. 2 * n)"
  let ?m = "close_chan (unlink ?n [] 2) 2"
  have "?R (Running ?n []) (Running ?n [Notifying ?s 0])"
    using nstep.snapshot [of ?n "[]" ?s _ "[]"] by (simp add: three_subscribed_eq)
  moreover have "?R (Running ?n [Notifying ?s 0]) (Running (unlink ?n [] 2) [Notifying ?s 0, Closing 2])"
    using nstep.unlink [of 2 ?n "[]" _ "[Notifying ?s 0]"] by (simp add: three_subscribed_eq subscribers_def elems_def numeral_eq_Suc)
  moreover have "?R (Running (unlink ?n [] 2) [Notifying ?s 0, Closing 2]) (Running ?m [Notifying ?s 0, Finished])"
    using nstep.close [of 1 "[Notifying ?s 0, Closing 2]" 2] by simp
  moreover define m1 where "m1 = ?m\<lparr>chans := (chans ?m)[0 := (chans ?m ! 0)\<lparr>buffered := True\<rparr>]\<rparr>"
  moreover have "?R (Running ?m [Notifying ?s 0, Finished]) (Running m1 [Notifying ?s 1, Finished])"
    using nstep.send [of 0 "[Notifying ?s 0, Finished]" ?s 0 ?m m1]
    by (simp add: m1_def three_subscribed_eq notifier_defs numeral_eq_Suc)
  moreover define m2 where "m2 = m1\<lparr>chans := (chans m1)[1 := (chans m1 ! 1)\<lparr>buffered := True\<rparr>]\<rparr>"
  moreover have "?R (Running m1 [Notifying ?s 1, Finished]) (Running m2 [Notifying ?s 2, Finished])"
    using nstep.send [of 0 "[Notifying ?s 1, Finished]" ?s 1 m1 m2]
    by (simp add: m1_def m2_def three_subscribed_eq notifier_defs numeral_eq_Suc)
  moreover have "?R (Running m2 [Notifying ?s 2, Finished]) Crashed"
    using nstep.send_closed [of 0 "[Notifying ?s 2, Finished]" ?s 2 m2]
    by (simp add: m1_def m2_def three_subscribed_eq notifier_defs numeral_eq_Suc)
  ultimately show ?thesis
    using reach_three [of "[]"] by (meson rtranclp.rtrancl_into_rtrancl)
qed

text \<open>
  The teardown race, a lost wake-up. Three subscribers of one key; \<open>Notify\<close> starts, the
  first subscriber leaves during its loop and the others stay. \<open>Notify\<close> returns, and the second
  subscriber, subscribed throughout, has no pending signal: the in-place removal moved it
  below the loop's index.
\<close>

lemma notify_race_skips_subscriber:
  "\<exists>n. (nstep (\<lambda>n. 2 * n))\<^sup>*\<^sup>* (Running (three_subscribed key) [Notifying \<lparr>base = 2, slen = 3\<rparr> 0])
         (Running n [Finished, Closing 0]) \<and>
       subscribers (three_subscribed key) key = [0, 1, 2] \<and> subscribers n key = [1, 2] \<and> \<not> pending n 1"
proof -
  let ?n = "three_subscribed key" and ?s = "\<lparr>base = 2, slen = 3\<rparr>"
  let ?R = "nstep (\<lambda>n. 2 * n)"
  define m1 where "m1 = ?n\<lparr>chans := (chans ?n)[0 := (chans ?n ! 0)\<lparr>buffered := True\<rparr>]\<rparr>"
  have s1: "?R (Running ?n [Notifying ?s 0]) (Running m1 [Notifying ?s 1])"
    using nstep.send [of 0 "[Notifying ?s 0]" ?s 0 ?n m1]
    by (simp add: m1_def three_subscribed_eq notifier_defs numeral_eq_Suc)
  define m2 where "m2 = unlink m1 key 0"
  have s2: "?R (Running m1 [Notifying ?s 1]) (Running m2 [Notifying ?s 1, Closing 0])"
    using nstep.unlink [of 0 m1 key _ "[Notifying ?s 1]"]
    by (simp add: m1_def m2_def three_subscribed_eq subscribers_def elems_def numeral_eq_Suc)
  define m3 where "m3 = m2\<lparr>chans := (chans m2)[2 := (chans m2 ! 2)\<lparr>buffered := True\<rparr>]\<rparr>"
  have s3: "?R (Running m2 [Notifying ?s 1, Closing 0]) (Running m3 [Notifying ?s 2, Closing 0])"
    using nstep.send [of 0 "[Notifying ?s 1, Closing 0]" ?s 1 m2 m3]
    by (simp add: m1_def m2_def m3_def three_subscribed_eq notifier_defs numeral_eq_Suc)
  have s4: "?R (Running m3 [Notifying ?s 2, Closing 0]) (Running m3 [Notifying ?s 3, Closing 0])"
    using nstep.send [of 0 "[Notifying ?s 2, Closing 0]" ?s 2 m3 m3]
    by (simp add: m1_def m2_def m3_def three_subscribed_eq notifier_defs numeral_eq_Suc)
  have s5: "?R (Running m3 [Notifying ?s 3, Closing 0]) (Running m3 [Finished, Closing 0])"
    using nstep.return [of 0 "[Notifying ?s 3, Closing 0]" ?s] by simp
  have "subscribers ?n key = [0, 1, 2]" "subscribers m3 key = [1, 2]" "\<not> pending m3 1"
    by (simp_all add: m1_def m2_def m3_def three_subscribed_eq notifier_defs pending_def numeral_eq_Suc)
  with s1 s2 s3 s4 s5 show ?thesis by (meson converse_rtranclp_into_rtranclp rtranclp.rtrancl_refl)
qed

text \<open>
  C19 (two teardown races). From the start an interleaving of \<open>Notify\<close> with the teardown of one
  subscriber reaches a send on a closed channel, a panic that ends the process. And while three
  subscribers of a key are being notified, the first may leave so that \<open>Notify\<close> returns with the
  second, subscribed throughout, having no signal.
\<close>

theorem notify_races:
  "(nstep (\<lambda>n. 2 * n))\<^sup>*\<^sup>* (Running inprocess_New []) Crashed \<and>
   (\<exists>n. (nstep (\<lambda>n. 2 * n))\<^sup>*\<^sup>* (Running (three_subscribed key) [Notifying \<lparr>base = 2, slen = 3\<rparr> 0])
          (Running n [Finished, Closing 0]) \<and>
        subscribers (three_subscribed key) key = [0, 1, 2] \<and> subscribers n key = [1, 2] \<and> \<not> pending n 1)"
  using notify_race_panics notify_race_skips_subscriber by blast

end
