(* ===== verification/Router.thy ===== *)
theory Router
  imports Sqlite_Store Abuse_Limits Notifier
begin

text \<open>
  The routing loop of \<open>internal/relay/router.go\<close>. The router holds an InboxStore and a notifier;
  the model keeps the state behind each of them beside the interface it is called through, so
  the same definitions run on either backend. \<open>OnPush\<close>, \<open>OnDeliverAck\<close>, \<open>OnReceiveConnect\<close>
  and \<open>deliverNew\<close> are whole handlers. Debug logging is left out: it reads nothing back.
\<close>

section \<open>State\<close>

record refusalCounters =
  tooLarge :: int
  malformed :: int
  rateLimited :: int
  inboxFull :: int
  sessionCapRefused :: int

record Limits =
  MaxBlobsPerInbox :: int
  MaxBytesPerInbox :: int
  PushRatePerSecond :: rat
  PushRateBurst :: rat
  MaxReceiveSessionsPerDevice :: int

record ('st, 'n) Router =
  store :: "'st InboxStore"
  store_state :: 'st
  notifier :: "'n NotifierOps"
  notifier_state :: 'n
  ttl :: int
  maxEnvelopeBytes :: int
  inboxLimits :: InboxLimits
  limiter :: rateLimiter
  session_cap :: sessionCap
  refusals :: refusalCounters

definition NewRouterWithLimits ::
    "'st InboxStore \<Rightarrow> 'st \<Rightarrow> 'n NotifierOps \<Rightarrow> 'n \<Rightarrow> int \<Rightarrow> int \<Rightarrow> Limits \<Rightarrow> ('st, 'n) Router" where
  "NewRouterWithLimits s st n nt ttl' maxEnvelopeBytes' limits =
     \<lparr>store = s, store_state = st, notifier = n, notifier_state = nt, ttl = ttl',
      maxEnvelopeBytes = (if maxEnvelopeBytes' \<le> 0 then ProtocolMaxEnvelopeBytes else maxEnvelopeBytes'),
      inboxLimits = \<lparr>MaxBlobs = MaxBlobsPerInbox limits, MaxBytes = MaxBytesPerInbox limits\<rparr>,
      limiter = newRateLimiter (PushRatePerSecond limits) (PushRateBurst limits),
      session_cap = newSessionCap (MaxReceiveSessionsPerDevice limits),
      refusals = \<lparr>tooLarge = 0, malformed = 0, rateLimited = 0, inboxFull = 0, sessionCapRefused = 0\<rparr>\<rparr>"

definition NewRouter :: "'st InboxStore \<Rightarrow> 'st \<Rightarrow> 'n NotifierOps \<Rightarrow> 'n \<Rightarrow> int \<Rightarrow> int \<Rightarrow> ('st, 'n) Router" where
  "NewRouter s st n nt ttl' maxEnvelopeBytes' =
     NewRouterWithLimits s st n nt ttl' maxEnvelopeBytes'
       \<lparr>MaxBlobsPerInbox = 0, MaxBytesPerInbox = 0, PushRatePerSecond = 0, PushRateBurst = 0,
        MaxReceiveSessionsPerDevice = 0\<rparr>"

text \<open>Counting a refusal.\<close>

abbreviation count_malformed :: "('st, 'n) Router \<Rightarrow> ('st, 'n) Router" where
  "count_malformed r \<equiv> r\<lparr>refusals := refusals r\<lparr>malformed := malformed (refusals r) + 1\<rparr>\<rparr>"

abbreviation count_tooLarge :: "('st, 'n) Router \<Rightarrow> ('st, 'n) Router" where
  "count_tooLarge r \<equiv> r\<lparr>refusals := refusals r\<lparr>tooLarge := tooLarge (refusals r) + 1\<rparr>\<rparr>"

abbreviation count_rateLimited :: "('st, 'n) Router \<Rightarrow> ('st, 'n) Router" where
  "count_rateLimited r \<equiv> r\<lparr>refusals := refusals r\<lparr>rateLimited := rateLimited (refusals r) + 1\<rparr>\<rparr>"

abbreviation count_inboxFull :: "('st, 'n) Router \<Rightarrow> ('st, 'n) Router" where
  "count_inboxFull r \<equiv> r\<lparr>refusals := refusals r\<lparr>inboxFull := inboxFull (refusals r) + 1\<rparr>\<rparr>"

abbreviation count_sessionCap :: "('st, 'n) Router \<Rightarrow> ('st, 'n) Router" where
  "count_sessionCap r \<equiv> r\<lparr>refusals := refusals r\<lparr>sessionCapRefused := sessionCapRefused (refusals r) + 1\<rparr>\<rparr>"

section \<open>Push\<close>

text \<open>The texts of \<open>extractEnvelopeRecipient\<close>'s errors.\<close>

fun extract_msg :: "extract_error \<Rightarrow> string" where
  "extract_msg (TruncatedTag p) = ''truncated field tag at offset '' @ dec_digits p"
| "extract_msg (FieldNumberZero p) = ''invalid field number 0 at offset '' @ dec_digits p"
| "extract_msg (TruncatedVarint n p) = ''truncated varint field '' @ dec_digits (unat n) @ '' at offset '' @ dec_digits p"
| "extract_msg (Truncated64 n p) = ''truncated 64-bit field '' @ dec_digits (unat n) @ '' at offset '' @ dec_digits p"
| "extract_msg (TruncatedLength n p) = ''truncated length for field '' @ dec_digits (unat n) @ '' at offset '' @ dec_digits p"
| "extract_msg (ClaimsTooMany n l m) =
     ''field '' @ dec_digits (unat n) @ '' claims '' @ dec_digits (unat l) @ '' bytes, '' @ dec_digits m @ '' remain''"
| "extract_msg (RecipientLength l) = ''recipient_pub is '' @ dec_digits (unat l) @ '' bytes, want exactly 32''"
| "extract_msg (Truncated32 n p) = ''truncated 32-bit field '' @ dec_digits (unat n) @ '' at offset '' @ dec_digits p"
| "extract_msg (UnsupportedWireType w n) = ''unsupported wire type '' @ dec_digits (unat w) @ '' for field '' @ dec_digits (unat n)"
| "extract_msg NoRecipientPub = ''no recipient_pub field''"
| "extract_msg (AmbiguousRecipient n) =
     ''recipient_pub appears '' @ dec_digits n @ '' times '' @ [CHR 0xE2, CHR 0x80, CHR 0x94] @ '' ambiguous addressee''"

text \<open>
  \<open>OnPush\<close>, with the failures the store call meets, the wall clock it reads, and the limiter's
  clock readings. The panic is the notifier's.
\<close>

definition OnPush ::
    "faults \<Rightarrow> int \<Rightarrow> int \<times> int \<times> int \<Rightarrow> ('st, 'n) Router \<Rightarrow> bytes \<Rightarrow> (go_err option \<times> ('st, 'n) Router) go" where
  "OnPush f now clk r body =
     (if length body < 32 then Ret (Some ErrPushBodyTooShort, count_malformed r)
      else let key = take 32 body; envelope = drop 32 body in
        if int (length envelope) > maxEnvelopeBytes r
        then Ret (Some (Wrapped '''' ErrEnvelopeTooLarge ('': '' @ dec_digits (length envelope) @ '' bytes (limit '' @
                     fmt_d (maxEnvelopeBytes r) @ '')'')), count_tooLarge r)
        else case extractEnvelopeRecipient envelope of
          Inl e \<Rightarrow> Ret (Some (Wrapped '''' ErrPushRecipientMalformed ('': '' @ extract_msg e)), count_malformed r)
        | Inr rcpt \<Rightarrow>
            if rcpt \<noteq> key then Ret (Some ErrRecipientMismatch, count_malformed r)
            else case clk of (t1, t2, t3) \<Rightarrow>
              (case allow t1 t2 t3 (limiter r) key of (ok, l) \<Rightarrow>
                 let r = r\<lparr>limiter := l\<rparr> in
                 if \<not> ok then Ret (Some ErrRateLimited, count_rateLimited r)
                 else case PutWithLimits (store r) f now (store_state r) key envelope (ttl r) (inboxLimits r) of
                     (Some err, st) \<Rightarrow>
                       let r = r\<lparr>store_state := st\<rparr> in
                       if errors_Is err StoreErrInboxFull
                       then Ret (Some (Wrapped '''' ErrInboxFull ('': '' @ Error_msg err)), count_inboxFull r)
                       else Ret (Some err, r)
                   | (None, st) \<Rightarrow>
                       let r = r\<lparr>store_state := st\<rparr> in
                       (case Notify (notifier r) (notifier_state r) key of
                          Panic \<Rightarrow> Panic
                        | Ret n \<Rightarrow> Ret (None, r\<lparr>notifier_state := n\<rparr>))))"

section \<open>Deliver acknowledgements\<close>

definition OnDeliverAck :: "faults \<Rightarrow> ('st, 'n) Router \<Rightarrow> RecipientKey \<Rightarrow> int \<Rightarrow> go_err option \<times> ('st, 'n) Router" where
  "OnDeliverAck f r deviceKey blobID =
     (case DeleteForRecipient (store r) f (store_state r) deviceKey [blobID] of
        (e, st) \<Rightarrow> (e, r\<lparr>store_state := st\<rparr>))"

section \<open>Receive Sessions\<close>

text \<open>
  One Receive Session's delivery goroutine: its key, its subscription, the ID of the last blob
  it delivered, and everything it has put on the delivery channel.
\<close>

record recv_session =
  device :: RecipientKey
  sub_chan :: nat
  lastID :: int
  delivered :: "DeliveryBlob list"

text \<open>
  The loop of \<open>deliverNew\<close>: blobs are sent until none is left or, after \<open>n\<close> sends when \<open>stop\<close>
  is \<open>Some n\<close>, the \<open>ctx.Done()\<close> branch is taken.
\<close>

fun deliver_loop :: "nat option \<Rightarrow> InboxBlob list \<Rightarrow> int \<Rightarrow> DeliveryBlob list \<Rightarrow> int \<times> DeliveryBlob list" where
  "deliver_loop stop [] afterID ch = (afterID, ch)"
| "deliver_loop (Some 0) (b # bs) afterID ch = (afterID, ch)"
| "deliver_loop stop (b # bs) afterID ch =
     deliver_loop (map_option (\<lambda>n. n - 1) stop) bs (ID b) (ch @ [\<lparr>BlobID = ID b, Env = Envelope b\<rparr>])"

definition deliverNew ::
    "faults \<Rightarrow> nat option \<Rightarrow> ('st, 'n) Router \<Rightarrow> RecipientKey \<Rightarrow> int \<Rightarrow> DeliveryBlob list \<Rightarrow> int \<times> DeliveryBlob list" where
  "deliverNew f stop r key afterID ch =
     (case PeekAfter (store r) f (store_state r) key afterID of
        Inl e \<Rightarrow> (afterID, ch)
      | Inr blobs \<Rightarrow> deliver_loop stop blobs afterID ch)"

text \<open>The synchronous part of \<open>OnReceiveConnect\<close>: cap, subscription, and the session to be run.\<close>

definition OnReceiveConnect ::
    "('st, 'n) Router \<Rightarrow> RecipientKey \<Rightarrow> (go_err + recv_session) \<times> ('st, 'n) Router" where
  "OnReceiveConnect r deviceKey =
     (case acquire (session_cap r) deviceKey of
        (False, c) \<Rightarrow> (Inl ErrTooManyReceiveSessions, count_sessionCap (r\<lparr>session_cap := c\<rparr>))
      | (True, c) \<Rightarrow>
          (case Subscribe (notifier r) (notifier_state r) deviceKey of
             (Inl e, n) \<Rightarrow> (Inl (Wrapped ''relay: subscribe device inbox: '' e ''''),
                             r\<lparr>session_cap := release c deviceKey, notifier_state := n\<rparr>)
           | (Inr ch, n) \<Rightarrow> (Inr \<lparr>device = deviceKey, sub_chan = ch, lastID = 0, delivered = []\<rparr>,
                              r\<lparr>session_cap := c, notifier_state := n\<rparr>)))"

text \<open>One delivery of the goroutine: the initial flush, and the body of its loop on a signal.\<close>

definition session_flush :: "faults \<Rightarrow> nat option \<Rightarrow> ('st, 'n) Router \<Rightarrow> recv_session \<Rightarrow> recv_session" where
  "session_flush f stop r s =
     (case deliverNew f stop r (device s) (lastID s) (delivered s) of (l, ch) \<Rightarrow> s\<lparr>lastID := l, delivered := ch\<rparr>)"

text \<open>The goroutine's end: its deferred release, and the subscription ended by the context.\<close>

definition session_end :: "('st, 'n) Router \<Rightarrow> recv_session \<Rightarrow> ('st, 'n) Router" where
  "session_end r s =
     r\<lparr>session_cap := release (session_cap r) (device s),
       notifier_state := Unsubscribe (notifier r) (notifier_state r) (device s) (sub_chan s)\<rparr>"

section \<open>What a push does\<close>

text \<open>The checks \<open>OnPush\<close> makes before the limiter is asked.\<close>

definition well_addressed :: "('st, 'n) Router \<Rightarrow> bytes \<Rightarrow> bool" where
  "well_addressed r body \<longleftrightarrow> 32 \<le> length body \<and> int (length (drop 32 body)) \<le> maxEnvelopeBytes r \<and>
     extractEnvelopeRecipient (drop 32 body) = Inr (take 32 body)"

text \<open>A push that is not well addressed is refused before anything but a counter changes.\<close>

lemma OnPush_misaddressed:
  assumes "\<not> well_addressed r body"
  shows "\<exists>e c. OnPush f now clk r body = Ret (Some e, r\<lparr>refusals := c\<rparr>) \<and>
    (e = ErrPushBodyTooShort \<and> length body < 32 \<or>
     (\<exists>s. e = Wrapped '''' ErrEnvelopeTooLarge s) \<and> maxEnvelopeBytes r < int (length (drop 32 body)) \<or>
     (\<exists>s. e = Wrapped '''' ErrPushRecipientMalformed s) \<or> e = ErrRecipientMismatch)"
  using assms
  by (auto simp: OnPush_def well_addressed_def Let_def not_le not_less split: sum.split)

text \<open>A well-addressed push is decided by the limiter, then the store, then notified.\<close>

lemma OnPush_well_addressed:
  assumes "well_addressed r body"
  shows "OnPush f now (t1, t2, t3) r body =
    (case allow t1 t2 t3 (limiter r) (take 32 body) of (ok, l) \<Rightarrow>
       if \<not> ok then Ret (Some ErrRateLimited, count_rateLimited (r\<lparr>limiter := l\<rparr>))
       else case PutWithLimits (store r) f now (store_state r) (take 32 body) (drop 32 body) (ttl r) (inboxLimits r) of
           (Some err, st) \<Rightarrow>
             if errors_Is err StoreErrInboxFull
             then Ret (Some (Wrapped '''' ErrInboxFull ('': '' @ Error_msg err)), count_inboxFull (r\<lparr>limiter := l, store_state := st\<rparr>))
             else Ret (Some err, r\<lparr>limiter := l, store_state := st\<rparr>)
         | (None, st) \<Rightarrow>
             (case Notify (notifier r) (notifier_state r) (take 32 body) of
                Panic \<Rightarrow> Panic
              | Ret n \<Rightarrow> Ret (None, r\<lparr>limiter := l, store_state := st, notifier_state := n\<rparr>)))"
proof -
  from assms have "\<not> length body < 32" "\<not> maxEnvelopeBytes r < int (length (drop 32 body))"
    "extractEnvelopeRecipient (drop 32 body) = Inr (take 32 body)"
    unfolding well_addressed_def by linarith+
  then show ?thesis
    by (simp add: OnPush_def Let_def split: prod.split option.split go.split)
qed

lemma OnPush_store: "OnPush f now clk r body = Ret (e, r') \<Longrightarrow> store r' = store r"
  by (auto simp: OnPush_def Let_def split: if_splits sum.splits prod.splits option.splits go.splits)

text \<open>The row a push stores.\<close>

definition push_row :: "int \<Rightarrow> int \<Rightarrow> ('st, 'n) Router \<Rightarrow> bytes \<Rightarrow> inbox_row" where
  "push_row i now r body = \<lparr>row_id = i, recipient = take 32 body, envelope = drop 32 body, expires_at = Unix (now + ttl r)\<rparr>"

context inbox_contract
begin

lemma OnPush_ack:
  assumes "store r = S" "invar (store_state r)" "OnPush f now clk r body = Ret (None, r')"
  shows "well_addressed r body \<and> quota_ok (inboxLimits r) (rows (store_state r)) (take 32 body) (drop 32 body) \<and>
    invar (store_state r') \<and> last_id (store_state r) < last_id (store_state r') \<and>
    rows (store_state r') = rows (store_state r) @ [push_row (last_id (store_state r')) now r body]"
proof -
  obtain t1 t2 t3 where clk: "clk = (t1, t2, t3)" by (cases clk)
  have wa: "well_addressed r body"
  proof (rule ccontr)
    assume "\<not> well_addressed r body"
    from OnPush_misaddressed [OF this, of f now clk] assms(3) show False by auto
  qed
  obtain ok l where l: "allow t1 t2 t3 (limiter r) (take 32 body) = (ok, l)"
    by (cases "allow t1 t2 t3 (limiter r) (take 32 body)")
  obtain e st where p: "PutWithLimits S f now (store_state r) (take 32 body) (drop 32 body) (ttl r) (inboxLimits r) = (e, st)"
    by (cases "PutWithLimits S f now (store_state r) (take 32 body) (drop 32 body) (ttl r) (inboxLimits r)")
  from assms(3) have "e = None" "store_state r' = st"
    by (auto simp: clk OnPush_well_addressed [OF wa] l assms(1) p split: option.splits if_splits go.splits)
  with put_ok [OF assms(2)] p wa show ?thesis by (auto simp: push_row_def)
qed

end

context strict_inbox_contract
begin

lemma OnPush_refused:
  assumes "store r = S" "OnPush f now clk r body = Ret (Some e, r')"
  shows "store_state r' = store_state r \<and> notifier_state r' = notifier_state r"
proof (cases "well_addressed r body")
  case False
  from OnPush_misaddressed [OF this, of f now clk] assms(2) show ?thesis by auto
next
  case True
  obtain t1 t2 t3 where clk: "clk = (t1, t2, t3)" by (cases clk)
  obtain ok l where l: "allow t1 t2 t3 (limiter r) (take 32 body) = (ok, l)"
    by (cases "allow t1 t2 t3 (limiter r) (take 32 body)")
  obtain x st where p: "PutWithLimits S f now (store_state r) (take 32 body) (drop 32 body) (ttl r) (inboxLimits r) = (x, st)"
    by (cases "PutWithLimits S f now (store_state r) (take 32 body) (drop 32 body) (ttl r) (inboxLimits r)")
  have "x = Some y \<Longrightarrow> st = store_state r" for y using put_err_same p by blast
  with assms(2) show ?thesis
    by (auto simp: clk OnPush_well_addressed [OF True] l assms(1) p split: option.splits if_splits go.splits)
qed

end

text \<open>Sample data for the concrete instances: an envelope for the sample key.\<close>

definition sample_envelope :: bytes where
  "sample_envelope = [0x1A, 0x20] @ sample_key"

definition sample_limits :: Limits where
  "sample_limits = \<lparr>MaxBlobsPerInbox = 2, MaxBytesPerInbox = 100, PushRatePerSecond = 0, PushRateBurst = 0,
     MaxReceiveSessionsPerDevice = 1\<rparr>"

definition sample_router :: "(db, Notifier.notifier) Router" where
  "sample_router = NewRouterWithLimits sqlite_store sample_db (inprocess_ops (\<lambda>n. 2 * n)) inprocess_New
     5000000000 0 sample_limits"

lemma sample_router_simps [simp]:
  "store sample_router = sqlite_store" "store_state sample_router = sample_db" "notifier_state sample_router = inprocess_New"
  "notifier sample_router = inprocess_ops (\<lambda>n. 2 * n)" "inboxLimits sample_router = \<lparr>MaxBlobs = 2, MaxBytes = 100\<rparr>"
  "maxEnvelopeBytes sample_router = 65482" "ttl sample_router = 5000000000"
  "limiter sample_router = newRateLimiter 0 0"
  by (simp_all add: sample_router_def NewRouterWithLimits_def ProtocolMaxEnvelopeBytes_def sample_limits_def)

lemma length_sample_envelope [simp]: "length sample_envelope = 34"
  by (simp add: sample_envelope_def)

lemma sample_envelope_recipient: "extractEnvelopeRecipient sample_envelope = Inr sample_key"
  by code_simp

lemma sample_well_addressed: "well_addressed sample_router (sample_key @ sample_envelope)"
  by (simp add: well_addressed_def sample_envelope_recipient)

text \<open>
  C21 (an Ack means persisted). On the SQLite store, whatever failures the store call meets:
  when \<open>OnPush\<close> returns nil, the body was a 32-byte prefix equal to the envelope's own
  \<open>recipient_pub\<close> followed by an envelope within the size limit, the Inbox had room, and the
  envelope is now the newest row of that Inbox, with the router's TTL; when it returns an
  error, the store and the subscriptions are exactly as before.
\<close>

theorem push_ack_means_persisted:
  assumes "store r = sqlite_store" and "sqlite_invar (store_state r)" and "OnPush f now clk r body = Ret (res, r')"
  shows "case res of
      None \<Rightarrow> well_addressed r body \<and>
        quota_ok (inboxLimits r) (db_rows (store_state r)) (take 32 body) (drop 32 body) \<and>
        sqlite_invar (store_state r') \<and>
        db_rows (store_state r') = db_rows (store_state r) @ [push_row (db_seq (store_state r')) now r body]
    | Some e \<Rightarrow> store_state r' = store_state r \<and> notifier_state r' = notifier_state r"
proof (cases res)
  case None
  with sq.OnPush_ack [OF assms(1,2)] assms(3) show ?thesis by simp
next
  case (Some e)
  with sq.OnPush_refused [OF assms(1)] assms(3) show ?thesis by simp
qed

text \<open>What a well-addressed push comes to when nothing fails and notifications do not overlap.\<close>

lemma OnPush_no_faults:
  assumes "store r = sqlite_store" "notifier r = inprocess_ops grow" "sqlite_invar (store_state r)"
    "notifier_ok (notifier_state r)" "db_seq (store_state r) < 2 ^ 63 - 1" "well_addressed r body"
  shows "(\<exists>r'. OnPush no_faults now (t1, t2, t3) r body = Ret (None, r')) \<longleftrightarrow>
    fst (allow t1 t2 t3 (limiter r) (take 32 body)) \<and>
    quota_ok (inboxLimits r) (db_rows (store_state r)) (take 32 body) (drop 32 body)"
proof -
  let ?put = "PutWithLimits sqlite_store no_faults now (store_state r) (take 32 body) (drop 32 body) (ttl r) (inboxLimits r)"
  obtain ok l where l: "allow t1 t2 t3 (limiter r) (take 32 body) = (ok, l)"
    by (cases "allow t1 t2 t3 (limiter r) (take 32 body)")
  obtain e st where p: "?put = (e, st)" by (cases ?put)
  from assms(6) have len: "length (take 32 body) = 32" by (simp add: well_addressed_def)
  have q: "quota_ok (inboxLimits r) (db_rows (store_state r)) (take 32 body) (drop 32 body) \<longleftrightarrow> e = None"
    using sq.put_progress [OF assms(3) _ len assms(5), of "inboxLimits r" "drop 32 body" now "ttl r"]
      sq.put_full [OF assms(3) len, of "inboxLimits r" "drop 32 body" now "ttl r"] p by auto
  obtain n' where "Notify (inprocess_ops grow) (notifier_state r) (take 32 body) = Ret n'"
    using inproc.notify_ok [OF assms(4)] by blast
  with q show ?thesis
    by (auto simp: OnPush_well_addressed [OF assms(6)] l p assms(1,2) split: option.splits)
qed

lemma sample_push_acked:
  "\<exists>r'. OnPush no_faults 0 (0, 0, 0) sample_router (sample_key @ sample_envelope) = Ret (None, r')"
  by (subst OnPush_no_faults [OF _ _ _ _ _ sample_well_addressed])
     (simp_all add: sample_db_invar notifier_ok_New allow_disabled newRateLimiter_def
      quota_ok_def inbox_count_def inbox_bytes_def)

text \<open>
  C22 (which pushes are accepted). With no failures, no overlapping notifications and IDs left,
  a push is accepted if and only if it is well addressed, the recipient's token bucket allows
  it, and it fits the Inbox's remaining quota.
\<close>

theorem push_accepted_iff:
  assumes "store r = sqlite_store" and "notifier r = inprocess_ops grow" and "sqlite_invar (store_state r)"
    and "notifier_ok (notifier_state r)" and "db_seq (store_state r) < 2 ^ 63 - 1"
  shows "(\<exists>r'. OnPush no_faults now (t1, t2, t3) r body = Ret (None, r')) \<longleftrightarrow>
    well_addressed r body \<and> fst (allow t1 t2 t3 (limiter r) (take 32 body)) \<and>
    quota_ok (inboxLimits r) (db_rows (store_state r)) (take 32 body) (drop 32 body)"
proof (cases "well_addressed r body")
  case True
  with OnPush_no_faults [OF assms True] show ?thesis by simp
next
  case False
  with OnPush_misaddressed [OF False, of no_faults now "(t1, t2, t3)"] show ?thesis by auto
qed

theorem push_accepted_iff_witness:
  "\<exists>r'. OnPush no_faults 0 (0, 0, 0) sample_router (sample_key @ sample_envelope) = Ret (None, r')"
proof -
  note iff = push_accepted_iff [of sample_router "\<lambda>n. 2 * n" 0 0 0 0 "sample_key @ sample_envelope"]
  show ?thesis
    by (subst iff) (simp_all add: sample_db_invar notifier_ok_New sample_well_addressed allow_disabled newRateLimiter_def
        quota_ok_def inbox_count_def inbox_bytes_def)
qed

theorem push_ack_means_persisted_witness:
  "\<exists>r'. OnPush no_faults 0 (0, 0, 0) sample_router (sample_key @ sample_envelope) = Ret (None, r') \<and>
     db_rows (store_state r') = [\<lparr>row_id = db_seq (store_state r'), recipient = sample_key, envelope = sample_envelope,
       expires_at = 5\<rparr>]"
proof -
  obtain r' where r': "OnPush no_faults 0 (0, 0, 0) sample_router (sample_key @ sample_envelope) = Ret (None, r')"
    using sample_push_acked ..
  from push_ack_means_persisted [OF _ _ r'] r' show ?thesis
    by (simp add: sample_db_invar push_row_def Unix_def)
qed

section \<open>What a Receive Session is sent\<close>

definition delivery :: "InboxBlob \<Rightarrow> DeliveryBlob" where
  "delivery b = \<lparr>BlobID = ID b, Env = Envelope b\<rparr>"

lemma deliver_loop_eq:
  "deliver_loop stop bs a ch =
     (let sent = (case stop of None \<Rightarrow> bs | Some n \<Rightarrow> take n bs)
      in (if sent = [] then a else ID (List.last sent), ch @ map delivery sent))"
proof (induction bs arbitrary: stop a ch)
  case (Cons b bs)
  show ?case
  proof (cases stop)
    case (Some n)
    then show ?thesis using Cons.IH [of "Some (n - 1)"] by (cases n) (auto simp: Let_def delivery_def)
  qed (use Cons.IH [of None] in \<open>auto simp: Let_def delivery_def\<close>)
qed (simp add: Let_def split: option.split)

end
