(* ===== verification/Delivery.thy ===== *)
theory Delivery
  imports Router
begin

text \<open>
  The relay as a whole: pushers, Receive Sessions, acknowledgements and the reaper acting on one
  router in any order. A push is two steps, its put and its notification; a session's delivery
  goroutine is either about to deliver or waiting for a signal. The store calls are atomic (one
  database connection, one transaction each) and so are the notifier's (its contract). Every
  session sees every blob exactly once and in order, and none is forgotten.
\<close>

section \<open>The system\<close>

text \<open>A push up to and including the put: \<open>OnPush\<close> without its call of \<open>Notify\<close>.\<close>

definition push_put ::
    "faults \<Rightarrow> int \<Rightarrow> int \<times> int \<times> int \<Rightarrow> ('st, 'n) Router \<Rightarrow> bytes \<Rightarrow> go_err option \<times> ('st, 'n) Router" where
  "push_put f now clk r body =
     (if length body < 32 then (Some ErrPushBodyTooShort, count_malformed r)
      else let key = take 32 body; envelope = drop 32 body in
        if int (length envelope) > maxEnvelopeBytes r
        then (Some (Wrapped '''' ErrEnvelopeTooLarge ('': '' @ dec_digits (length envelope) @ '' bytes (limit '' @
                     fmt_d (maxEnvelopeBytes r) @ '')'')), count_tooLarge r)
        else case extractEnvelopeRecipient envelope of
          Inl e \<Rightarrow> (Some (Wrapped '''' ErrPushRecipientMalformed ('': '' @ extract_msg e)), count_malformed r)
        | Inr rcpt \<Rightarrow>
            if rcpt \<noteq> key then (Some ErrRecipientMismatch, count_malformed r)
            else case clk of (t1, t2, t3) \<Rightarrow>
              (case allow t1 t2 t3 (limiter r) key of (ok, l) \<Rightarrow>
                 let r = r\<lparr>limiter := l\<rparr> in
                 if \<not> ok then (Some ErrRateLimited, count_rateLimited r)
                 else case PutWithLimits (store r) f now (store_state r) key envelope (ttl r) (inboxLimits r) of
                     (Some err, st) \<Rightarrow>
                       let r = r\<lparr>store_state := st\<rparr> in
                       if errors_Is err StoreErrInboxFull
                       then (Some (Wrapped '''' ErrInboxFull ('': '' @ Error_msg err)), count_inboxFull r)
                       else (Some err, r)
                   | (None, st) \<Rightarrow> (None, r\<lparr>store_state := st\<rparr>)))"

text \<open>The two halves make up \<open>OnPush\<close>.\<close>

lemma OnPush_split:
  "OnPush f now clk r body =
     (case push_put f now clk r body of
        (Some e, r') \<Rightarrow> Ret (Some e, r')
      | (None, r') \<Rightarrow>
          (case Notify (notifier r') (notifier_state r') (take 32 body) of
             Panic \<Rightarrow> Panic
           | Ret n \<Rightarrow> Ret (None, r'\<lparr>notifier_state := n\<rparr>)))"
  by (simp add: OnPush_def push_put_def Let_def split: prod.split option.split sum.split go.split)

datatype phase = Flushing | Waiting

record ('st, 'n) system =
  router :: "('st, 'n) Router"
  sessions :: "(recv_session \<times> phase) list"
  pushing :: "RecipientKey list"

inductive dstep :: "('st, 'n) system \<Rightarrow> ('st, 'n) system \<Rightarrow> bool" where
  push_put: "push_put f now clk (router y) body = (None, r') \<Longrightarrow>
    dstep y (y\<lparr>router := r', pushing := pushing y @ [take 32 body]\<rparr>)"
| push_refused: "push_put f now clk (router y) body = (Some e, r') \<Longrightarrow> dstep y (y\<lparr>router := r'\<rparr>)"
| push_notify: "pushing y = xs @ k # ys \<Longrightarrow> Notify (notifier (router y)) (notifier_state (router y)) k = Ret n \<Longrightarrow>
    dstep y (y\<lparr>router := (router y)\<lparr>notifier_state := n\<rparr>, pushing := xs @ ys\<rparr>)"
| connect: "OnReceiveConnect (router y) key = (Inr s, r') \<Longrightarrow>
    dstep y (y\<lparr>router := r', sessions := sessions y @ [(s, Flushing)]\<rparr>)"
| connect_refused: "OnReceiveConnect (router y) key = (Inl e, r') \<Longrightarrow> dstep y (y\<lparr>router := r'\<rparr>)"
| flush: "sessions y = xs @ (s, Flushing) # ys \<Longrightarrow>
    dstep y (y\<lparr>sessions := xs @ (session_flush no_faults None (router y) s, Waiting) # ys\<rparr>)"
| wake: "sessions y = xs @ (s, Waiting) # ys \<Longrightarrow>
    HasSignal (notifier (router y)) (notifier_state (router y)) (sub_chan s) \<Longrightarrow>
    dstep y (y\<lparr>router := (router y)\<lparr>notifier_state := Receive (notifier (router y)) (notifier_state (router y)) (sub_chan s)\<rparr>,
               sessions := xs @ (s, Flushing) # ys\<rparr>)"
| ack: "OnDeliverAck f (router y) key i = (e, r') \<Longrightarrow> dstep y (y\<lparr>router := r'\<rparr>)"
| reap: "Reap (store (router y)) f now (store_state (router y)) = (e, st) \<Longrightarrow>
    dstep y (y\<lparr>router := (router y)\<lparr>store_state := st\<rparr>\<rparr>)"
| leave: "sessions y = xs @ (s, p) # ys \<Longrightarrow>
    dstep y (y\<lparr>router := session_end (router y) s, sessions := xs @ ys\<rparr>)"

section \<open>The session invariant\<close>

text \<open>
  What holds of a session, given the stored rows, the highest ID assigned, the subscription
  lists, the pending signals and the pushes not yet notified.
\<close>

definition session_ok ::
    "inbox_row list \<Rightarrow> int \<Rightarrow> (bytes \<Rightarrow> nat set) \<Rightarrow> (nat \<Rightarrow> bool) \<Rightarrow> RecipientKey list \<Rightarrow> recv_session \<Rightarrow> phase \<Rightarrow> bool" where
  "session_ok rs hi lst sig pend s p \<longleftrightarrow>
     sub_chan s \<in> lst (device s) \<and> 0 \<le> lastID s \<and> lastID s \<le> max 0 hi \<and>
     sorted_wrt (<) (map BlobID (delivered s)) \<and> (\<forall>b \<in> set (delivered s). BlobID b \<le> lastID s) \<and>
     (\<forall>r \<in> set rs. recipient r = device s \<longrightarrow> row_id r \<le> lastID s \<longrightarrow> delivery (row_blob r) \<in> set (delivered s)) \<and>
     (p = Waiting \<longrightarrow> (\<exists>r \<in> set rs. recipient r = device s \<and> lastID s < row_id r) \<longrightarrow>
        sig (sub_chan s) \<or> device s \<in> set pend)"

lemma session_ok_listed: "session_ok rs hi lst sig pend s p \<Longrightarrow> sub_chan s \<in> lst (device s)"
  by (simp add: session_ok_def)

lemma session_ok_filter: "session_ok rs hi lst sig pend s p \<Longrightarrow> session_ok (filter P rs) hi lst sig pend s p"
  by (auto simp: session_ok_def)

lemma session_ok_put:
  assumes "session_ok rs hi lst sig pend s p" "hi < row_id r" "0 < row_id r"
  shows "session_ok (rs @ [r]) (row_id r) lst sig (pend @ [recipient r]) s p"
  using assms by (auto simp: session_ok_def)

lemma session_ok_notify:
  assumes "session_ok rs hi lst sig (xs @ k # ys) s p" "\<And>c. sig c \<or> c \<in> lst k \<Longrightarrow> sig' c"
  shows "session_ok rs hi lst sig' (xs @ ys) s p"
  using assms by (auto simp: session_ok_def)

lemma session_ok_higher: "session_ok rs hi lst sig pend s p \<Longrightarrow> hi \<le> hi' \<Longrightarrow> session_ok rs hi' lst sig pend s p"
  by (auto simp: session_ok_def)

lemma session_ok_lists:
  assumes "session_ok rs hi lst sig pend s p" "sub_chan s \<in> lst' (device s)" "sig (sub_chan s) \<Longrightarrow> sig' (sub_chan s)"
  shows "session_ok rs hi lst' sig' pend s p"
  using assms by (auto simp: session_ok_def)

lemma session_ok_new:
  assumes "c \<in> lst k" "\<forall>r \<in> set rs. 0 < row_id r"
  shows "session_ok rs hi lst sig pend \<lparr>device = k, sub_chan = c, lastID = 0, delivered = []\<rparr> Flushing"
  using assms by (auto simp: session_ok_def)

lemma sorted_last_max: "sorted_wrt (<) (map g xs) \<Longrightarrow> x \<in> set xs \<Longrightarrow> g x \<le> (g (List.last xs) :: int)"
  by (induction xs) (auto intro: less_imp_le)

text \<open>Delivering every newer row, in order, leaves nothing behind.\<close>

lemma session_ok_flush:
  assumes ok: "session_ok rs hi lst sig pend s p" and sorted: "sorted_wrt (<) (map row_id rs)"
    and bound: "\<forall>q \<in> set rs. row_id q \<le> hi"
  defines "new \<equiv> filter (\<lambda>q. recipient q = device s \<and> lastID s < row_id q) rs"
  shows "session_ok rs hi lst sig pend
    (s\<lparr>lastID := (if new = [] then lastID s else row_id (List.last new)),
       delivered := delivered s @ map (delivery \<circ> row_blob) new\<rparr>) Waiting"
proof -
  have new: "q \<in> set new \<longleftrightarrow> q \<in> set rs \<and> recipient q = device s \<and> lastID s < row_id q" for q
    by (simp add: new_def)
  have snew: "sorted_wrt (<) (map row_id new)"
    unfolding new_def by (rule sorted_wrt_map_filter [OF sorted])
  define l where "l = (if new = [] then lastID s else row_id (List.last new))"
  define d where "d = delivered s @ map (delivery \<circ> row_blob) new"
  have bid: "BlobID (delivery (row_blob q)) = row_id q" for q by (simp add: delivery_def row_blob_def)
  have old: "b \<in> set (delivered s) \<Longrightarrow> BlobID b \<le> lastID s" for b using ok by (simp add: session_ok_def)
  have max: "q \<in> set new \<Longrightarrow> row_id q \<le> l" for q using sorted_last_max [OF snew, of q] by (auto simp: l_def)
  have l: "lastID s \<le> l \<and> 0 \<le> l \<and> l \<le> max 0 hi"
    using ok new [of "List.last new"] bound by (auto simp: l_def session_ok_def)
  have "sorted_wrt (<) (map BlobID (delivered s) @ map row_id new)"
    unfolding sorted_wrt_append
  proof (intro conjI snew ballI)
    show "sorted_wrt (<) (map BlobID (delivered s))" using ok by (simp add: session_ok_def)
    fix x y assume "x \<in> set (map BlobID (delivered s))" "y \<in> set (map row_id new)"
    then have "x \<le> lastID s" "lastID s < y" using old new by auto
    then show "x < y" by simp
  qed
  moreover have "map BlobID d = map BlobID (delivered s) @ map row_id new" by (simp add: d_def bid)
  ultimately have sd: "sorted_wrt (<) (map BlobID d)" by simp
  have bd: "b \<in> set d \<Longrightarrow> BlobID b \<le> l" for b
    using old [of b] l max by (auto simp: d_def bid)
  have cd: "q \<in> set rs \<Longrightarrow> recipient q = device s \<Longrightarrow> delivery (row_blob q) \<in> set d" for q
    using ok new [of q] by (cases "lastID s < row_id q") (auto simp: d_def session_ok_def)
  have none: "q \<in> set rs \<Longrightarrow> recipient q = device s \<Longrightarrow> row_id q \<le> l" for q
    using max [of q] new [of q] l by (cases "lastID s < row_id q") auto
  have "sub_chan s \<in> lst (device s)" using ok by (simp add: session_ok_def)
  with l sd bd cd none show ?thesis
    unfolding l_def [symmetric] d_def [symmetric] session_ok_def by (auto simp: not_less [symmetric])
qed

section \<open>The invariant of the system\<close>

locale delivery_contract =
  inbox_contract S invar rows last_id + notifier_contract N ninvar listed
  for S :: "'st InboxStore" and invar rows last_id and N :: "'n NotifierOps" and ninvar listed
begin

definition sys_ok :: "('st, 'n) system \<Rightarrow> bool" where
  "sys_ok y \<longleftrightarrow> store (router y) = S \<and> notifier (router y) = N \<and> invar (store_state (router y)) \<and>
     ninvar (notifier_state (router y)) \<and> distinct (map (sub_chan \<circ> fst) (sessions y)) \<and>
     (\<forall>(s, p) \<in> set (sessions y). session_ok (rows (store_state (router y))) (last_id (store_state (router y)))
        (listed (notifier_state (router y))) (HasSignal N (notifier_state (router y))) (pushing y) s p)"

lemma flush_ok:
  assumes "store r = S" "invar (store_state r)"
    and "session_ok (rows (store_state r)) (last_id (store_state r)) lst sig pend s p"
  shows "session_ok (rows (store_state r)) (last_id (store_state r)) lst sig pend (session_flush no_faults None r s) Waiting \<and>
    sub_chan (session_flush no_faults None r s) = sub_chan s"
proof -
  define new where "new = filter (\<lambda>q. recipient q = device s \<and> lastID s < row_id q) (rows (store_state r))"
  obtain bs where bs: "PeekAfter S no_faults (store_state r) (device s) (lastID s) = Inr bs"
    using peek_progress [OF assms(2)] by blast
  with peek_ok [OF assms(2) bs]
  have peek: "PeekAfter S no_faults (store_state r) (device s) (lastID s) = Inr (map row_blob new)"
    by (simp add: new_def)
  have "session_flush no_faults None r s =
      s\<lparr>lastID := (if new = [] then lastID s else row_id (List.last new)), delivered := delivered s @ map (delivery \<circ> row_blob) new\<rparr>"
    by (simp add: session_flush_def deliverNew_def assms(1) peek deliver_loop_eq Let_def last_map row_blob_def)
  with session_ok_flush [OF assms(3) rows_sorted [OF assms(2)], folded new_def] rows_bound [OF assms(2)]
  show ?thesis by simp
qed

end

text \<open>The parts of the router a push does not touch before its notification.\<close>

lemma push_put_frame:
  assumes "push_put f now clk r body = (e, r')"
  shows "store r' = store r \<and> notifier r' = notifier r \<and> notifier_state r' = notifier_state r \<and>
    session_cap r' = session_cap r"
  using assms
  by (auto simp: push_put_def Let_def split: if_splits sum.splits prod.splits option.splits)

lemma push_put_store:
  assumes "push_put f now clk r body = (e, r')"
  shows "store_state r' = store_state r \<and> e \<noteq> None \<or>
    32 \<le> length body \<and>
    (\<exists>x. PutWithLimits (store r) f now (store_state r) (take 32 body) (drop 32 body) (ttl r) (inboxLimits r) = (x, store_state r') \<and>
         (e = None \<longleftrightarrow> x = None))"
  using assms
  by (auto simp: push_put_def Let_def not_less split: if_splits sum.splits prod.splits option.splits)

context delivery_contract
begin

lemma push_put_ok:
  assumes "store r = S" "invar (store_state r)" "push_put f now clk r body = (e, r')"
  shows "case e of Some x \<Rightarrow> invar (store_state r') \<and> rows (store_state r') = rows (store_state r) \<and>
        last_id (store_state r) \<le> last_id (store_state r')
    | None \<Rightarrow> invar (store_state r') \<and> last_id (store_state r) < last_id (store_state r') \<and>
        (\<exists>q. rows (store_state r') = rows (store_state r) @ [q] \<and> recipient q = take 32 body \<and> row_id q = last_id (store_state r'))"
proof (cases e)
  case None
  then obtain st where "PutWithLimits S f now (store_state r) (take 32 body) (drop 32 body) (ttl r) (inboxLimits r) = (None, st)"
      "store_state r' = st"
    using push_put_store [OF assms(3)] assms(1) by auto
  from put_ok [OF assms(2) this(1)] this(2) None show ?thesis by simp
next
  case (Some x)
  show ?thesis
  proof (cases "store_state r' = store_state r")
    case False
    then obtain y where "PutWithLimits S f now (store_state r) (take 32 body) (drop 32 body) (ttl r) (inboxLimits r) = (Some y, store_state r')"
      using push_put_store [OF assms(3)] assms(1) Some by auto
    from put_err [OF assms(2) this] Some show ?thesis by simp
  qed (simp add: Some assms(2))
qed

text \<open>Replacing one session of the list.\<close>

lemma sys_ok_I:
  assumes "store (router y) = S" "notifier (router y) = N" "invar (store_state (router y))"
    "ninvar (notifier_state (router y))" "distinct (map (sub_chan \<circ> fst) (sessions y))"
    "\<And>s p. (s, p) \<in> set (sessions y) \<Longrightarrow> session_ok (rows (store_state (router y))) (last_id (store_state (router y)))
        (listed (notifier_state (router y))) (HasSignal N (notifier_state (router y))) (pushing y) s p"
  shows "sys_ok y"
  using assms by (auto simp: sys_ok_def)

lemma sys_okD:
  assumes "sys_ok y"
  shows "store (router y) = S" "notifier (router y) = N" "invar (store_state (router y))"
    "ninvar (notifier_state (router y))" "distinct (map (sub_chan \<circ> fst) (sessions y))"
    "(s, p) \<in> set (sessions y) \<Longrightarrow> session_ok (rows (store_state (router y))) (last_id (store_state (router y)))
        (listed (notifier_state (router y))) (HasSignal N (notifier_state (router y))) (pushing y) s p"
  using assms by (auto simp: sys_ok_def)

lemma sys_ok_push_put:
  assumes y: "sys_ok y" and p: "push_put f now clk (router y) body = (None, r')"
  shows "sys_ok (y\<lparr>router := r', pushing := pushing y @ [take 32 body]\<rparr>)"
proof -
  note d = sys_okD [OF y]
  note fr = push_put_frame [OF p]
  from push_put_ok [OF d(1,3) p] obtain q where q: "invar (store_state r')" "last_id (store_state (router y)) < row_id q"
    "rows (store_state r') = rows (store_state (router y)) @ [q]" "recipient q = take 32 body" "row_id q = last_id (store_state r')"
    by auto
  have pos: "0 < row_id q" using rows_bound [OF q(1), of q] q(3) by simp
  have "session_ok (rows (store_state r')) (last_id (store_state r')) (listed (notifier_state r'))
      (HasSignal N (notifier_state r')) (pushing y @ [take 32 body]) s p" if "(s, p) \<in> set (sessions y)" for s p
    using session_ok_put [OF d(6) [OF that] q(2) pos] q(3,4,5) fr by simp
  with d fr q(1) show ?thesis by (intro sys_ok_I) simp_all
qed

text \<open>A change of the router that its sessions cannot see.\<close>

lemma sys_ok_same_view:
  assumes y: "sys_ok y" and "store r' = store (router y)" "notifier r' = notifier (router y)"
    "invar (store_state r')" "rows (store_state r') = rows (store_state (router y))"
    "last_id (store_state (router y)) \<le> last_id (store_state r')"
    "ninvar (notifier_state r')" "listed (notifier_state r') = listed (notifier_state (router y))"
    "\<forall>d. HasSignal N (notifier_state r') d \<longleftrightarrow> HasSignal N (notifier_state (router y)) d"
  shows "sys_ok (y\<lparr>router := r'\<rparr>)"
proof -
  have "HasSignal N (notifier_state r') = HasSignal N (notifier_state (router y))" using assms(9) by (simp add: fun_eq_iff)
  with assms sys_okD [OF y] show ?thesis by (intro sys_ok_I) (auto intro: session_ok_higher)
qed

lemma sys_ok_same_store:
  assumes "sys_ok y" "store r' = store (router y)" "notifier r' = notifier (router y)"
    "notifier_state r' = notifier_state (router y)" "store_state r' = store_state (router y)"
  shows "sys_ok (y\<lparr>router := r'\<rparr>)"
  using assms by (simp add: sys_ok_def)

lemma sys_ok_shrink:
  assumes y: "sys_ok y" and "invar st" "last_id st = last_id (store_state (router y))"
    "rows st = filter P (rows (store_state (router y)))"
  shows "sys_ok (y\<lparr>router := (router y)\<lparr>store_state := st\<rparr>\<rparr>)"
  using sys_okD [OF y] assms by (intro sys_ok_I) (auto intro: session_ok_filter)

lemma sys_ok_notify:
  assumes y: "sys_ok y" and "pushing y = xs @ k # ys" and n: "Notify N (notifier_state (router y)) k = Ret n"
  shows "sys_ok (y\<lparr>router := (router y)\<lparr>notifier_state := n\<rparr>, pushing := xs @ ys\<rparr>)"
proof -
  note d = sys_okD [OF y]
  from notify_ok [OF d(4), of k] n have "ninvar n" "listed n = listed (notifier_state (router y))"
    "\<And>c. HasSignal N (notifier_state (router y)) c \<or> c \<in> listed (notifier_state (router y)) k \<Longrightarrow> HasSignal N n c"
    by auto
  with d assms(2) show ?thesis by (intro sys_ok_I) (auto intro: session_ok_notify)
qed

end

text \<open>Connecting: the subscription is taken before the first flush.\<close>

lemma OnReceiveConnect_Inr:
  assumes "OnReceiveConnect r key = (Inr s, r')"
  shows "\<exists>c n. Subscribe (notifier r) (notifier_state r) key = (Inr c, n) \<and> notifier_state r' = n \<and>
    s = \<lparr>device = key, sub_chan = c, lastID = 0, delivered = []\<rparr> \<and> store r' = store r \<and> notifier r' = notifier r \<and>
    store_state r' = store_state r"
  using assms by (auto simp: OnReceiveConnect_def split: prod.splits bool.splits sum.splits)

lemma OnReceiveConnect_Inl:
  assumes "OnReceiveConnect r key = (Inl e, r')"
  shows "store r' = store r \<and> notifier r' = notifier r \<and> store_state r' = store_state r \<and>
    (notifier_state r' = notifier_state r \<or>
     (\<exists>x. Subscribe (notifier r) (notifier_state r) key = (Inl x, notifier_state r')))"
  using assms by (auto simp: OnReceiveConnect_def split: prod.splits bool.splits sum.splits)

context delivery_contract
begin

lemma sys_ok_connect:
  assumes y: "sys_ok y" and c: "OnReceiveConnect (router y) key = (Inr s, r')"
  shows "sys_ok (y\<lparr>router := r', sessions := sessions y @ [(s, Flushing)]\<rparr>)"
proof -
  note d = sys_okD [OF y]
  obtain ch n where n: "Subscribe N (notifier_state (router y)) key = (Inr ch, n)" "notifier_state r' = n"
    "s = \<lparr>device = key, sub_chan = ch, lastID = 0, delivered = []\<rparr>"
    "store r' = S" "notifier r' = N" "store_state r' = store_state (router y)"
    using OnReceiveConnect_Inr [OF c] d(1,2) by auto
  note sub = subscribe_ok [OF d(4) n(1)]
  have old: "sub_chan t \<noteq> ch" "sub_chan t \<in> listed n (device t)" if "(t, p) \<in> set (sessions y)" for t p
    using d(6) [OF that] sub by (auto simp: session_ok_def)
  have new: "session_ok (rows (store_state (router y))) (last_id (store_state (router y))) (listed n) (HasSignal N n)
      (pushing y) s Flushing"
    using sub rows_bound [OF d(3)] by (auto simp: n(3) intro!: session_ok_new)
  have keep: "session_ok (rows (store_state (router y))) (last_id (store_state (router y))) (listed n) (HasSignal N n)
      (pushing y) t p" if "(t, p) \<in> set (sessions y)" for t p
    using d(6) [OF that] old(2) [OF that] sub
    by (intro session_ok_lists [where lst' = "listed n"]) auto
  have "ch \<notin> (sub_chan \<circ> fst) ` set (sessions y)"
  proof
    assume "ch \<in> (sub_chan \<circ> fst) ` set (sessions y)"
    then obtain t p where "(t, p) \<in> set (sessions y)" "ch = sub_chan t" by auto
    with old(1) show False by blast
  qed
  then have "distinct (map (sub_chan \<circ> fst) (sessions y @ [(s, Flushing)]))"
    using d(5) n(3) by simp
  with d n sub new keep show ?thesis by (intro sys_ok_I) auto
qed

lemma sys_ok_flush:
  assumes y: "sys_ok y" and x: "sessions y = xs @ (s, Flushing) # ys"
  shows "sys_ok (y\<lparr>sessions := xs @ (session_flush no_faults None (router y) s, Waiting) # ys\<rparr>)"
proof -
  note d = sys_okD [OF y]
  have "(s, Flushing) \<in> set (sessions y)" using x by simp
  note fl = flush_ok [OF d(1,3) d(6) [OF this]]
  have "t \<in> set xs \<union> set ys \<Longrightarrow> t \<in> set (sessions y)" for t using x by auto
  with d fl x show ?thesis by (intro sys_ok_I) auto
qed

lemma other_channels:
  assumes "sys_ok y" "sessions y = xs @ (s, p) # ys" "(t, q) \<in> set (xs @ ys)"
  shows "sub_chan t \<noteq> sub_chan s" and "(t, q) \<in> set (sessions y)"
  using sys_okD(5) [OF assms(1)] assms(2,3) by (auto simp: image_iff)

lemma sys_ok_wake:
  assumes y: "sys_ok y" and x: "sessions y = xs @ (s, Waiting) # ys"
  shows "sys_ok (y\<lparr>router := (router y)\<lparr>notifier_state := Receive N (notifier_state (router y)) (sub_chan s)\<rparr>,
      sessions := xs @ (s, Flushing) # ys\<rparr>)"
proof -
  note d = sys_okD [OF y]
  have s: "session_ok (rows (store_state (router y))) (last_id (store_state (router y)))
      (listed (notifier_state (router y))) (HasSignal N (notifier_state (router y))) (pushing y) s Waiting"
    using d(6) x by simp
  let ?n = "Receive N (notifier_state (router y)) (sub_chan s)"
  have "sub_chan s \<in> listed (notifier_state (router y)) (device s)" using s by (simp add: session_ok_def)
  note rec = receive_ok [OF d(4) this]
  have me: "session_ok (rows (store_state (router y))) (last_id (store_state (router y))) (listed ?n) (HasSignal N ?n)
      (pushing y) s Flushing"
    using s rec by (simp add: session_ok_def)
  have keep: "session_ok (rows (store_state (router y))) (last_id (store_state (router y))) (listed ?n) (HasSignal N ?n)
      (pushing y) t q" if "(t, q) \<in> set (xs @ ys)" for t q
  proof (rule session_ok_lists)
    note o = other_channels [OF y x that]
    show t: "session_ok (rows (store_state (router y))) (last_id (store_state (router y)))
        (listed (notifier_state (router y))) (HasSignal N (notifier_state (router y))) (pushing y) t q"
      by (rule d(6) [OF o(2)])
    from session_ok_listed [OF t] show "sub_chan t \<in> listed ?n (device t)" using rec by simp
    show "HasSignal N (notifier_state (router y)) (sub_chan t) \<Longrightarrow> HasSignal N ?n (sub_chan t)" using rec o(1) by simp
  qed
  show ?thesis
  proof (rule sys_ok_I)
    fix t q assume "(t, q) \<in> set (sessions (y\<lparr>router := (router y)\<lparr>notifier_state := ?n\<rparr>, sessions := xs @ (s, Flushing) # ys\<rparr>))"
    then consider "t = s" "q = Flushing" | "(t, q) \<in> set (xs @ ys)" by auto
    then show "session_ok (rows (store_state (router (y\<lparr>router := (router y)\<lparr>notifier_state := ?n\<rparr>, sessions := xs @ (s, Flushing) # ys\<rparr>))))
        (last_id (store_state (router (y\<lparr>router := (router y)\<lparr>notifier_state := ?n\<rparr>, sessions := xs @ (s, Flushing) # ys\<rparr>))))
        (listed (notifier_state (router (y\<lparr>router := (router y)\<lparr>notifier_state := ?n\<rparr>, sessions := xs @ (s, Flushing) # ys\<rparr>))))
        (HasSignal N (notifier_state (router (y\<lparr>router := (router y)\<lparr>notifier_state := ?n\<rparr>, sessions := xs @ (s, Flushing) # ys\<rparr>))))
        (pushing (y\<lparr>router := (router y)\<lparr>notifier_state := ?n\<rparr>, sessions := xs @ (s, Flushing) # ys\<rparr>)) t q"
      using me keep by cases simp_all
  qed (use d rec x in simp_all)
qed

lemma sys_ok_leave:
  assumes y: "sys_ok y" and x: "sessions y = xs @ (s, p) # ys"
  shows "sys_ok (y\<lparr>router := session_end (router y) s, sessions := xs @ ys\<rparr>)"
proof -
  note d = sys_okD [OF y]
  have "sub_chan s \<in> listed (notifier_state (router y)) (device s)" using d(6) [of s p] x by (simp add: session_ok_def)
  note un = unsubscribe_ok [OF d(4) this]
  let ?n = "Unsubscribe N (notifier_state (router y)) (device s) (sub_chan s)"
  have keep: "session_ok (rows (store_state (router y))) (last_id (store_state (router y))) (listed ?n) (HasSignal N ?n)
      (pushing y) t q" if "(t, q) \<in> set (xs @ ys)" for t q
  proof (rule session_ok_lists)
    note o = other_channels [OF y x that]
    show t: "session_ok (rows (store_state (router y))) (last_id (store_state (router y)))
        (listed (notifier_state (router y))) (HasSignal N (notifier_state (router y))) (pushing y) t q"
      by (rule d(6) [OF o(2)])
    from session_ok_listed [OF t] show "sub_chan t \<in> listed ?n (device t)"
      using un o(1) by (cases "device t = device s") simp_all
    show "HasSignal N (notifier_state (router y)) (sub_chan t) \<Longrightarrow> HasSignal N ?n (sub_chan t)" using un by simp
  qed
  have dist: "distinct (map (sub_chan \<circ> fst) (xs @ ys))" using d(5) x by simp
  have eq: "notifier_state (session_end (router y) s) = ?n" "store_state (session_end (router y) s) = store_state (router y)"
    "store (session_end (router y) s) = S" "notifier (session_end (router y) s) = N"
    using d(1,2) by (simp_all add: session_end_def)
  show ?thesis
    by (rule sys_ok_I) (use d(3) un dist eq keep in simp_all)
qed

lemma sys_ok_ack:
  assumes y: "sys_ok y" and a: "OnDeliverAck f (router y) key i = (e, r')"
  shows "sys_ok (y\<lparr>router := r'\<rparr>)"
proof -
  note d = sys_okD [OF y]
  obtain st where st: "DeleteForRecipient S f (store_state (router y)) key [i] = (e, st)" "r' = (router y)\<lparr>store_state := st\<rparr>"
    using a d(1) by (auto simp: OnDeliverAck_def split: prod.splits)
  show ?thesis
  proof (cases e)
    case None
    from delete_ok [OF d(3) st(1) [unfolded None]] show ?thesis unfolding st(2) by (intro sys_ok_shrink [OF y]) auto
  next
    case (Some x)
    from delete_err [OF st(1) [unfolded Some]] y show ?thesis unfolding st(2) by (intro sys_ok_same_store) auto
  qed
qed

lemma sys_ok_reap:
  assumes y: "sys_ok y" and a: "Reap S f now (store_state (router y)) = (e, st)"
  shows "sys_ok (y\<lparr>router := (router y)\<lparr>store_state := st\<rparr>\<rparr>)"
proof (cases e)
  case None
  from reap_ok [OF sys_okD(3) [OF y] a [unfolded None]] show ?thesis by (intro sys_ok_shrink [OF y]) auto
next
  case (Some x)
  from reap_err [OF a [unfolded Some]] y show ?thesis by (intro sys_ok_same_store) auto
qed

lemma sys_ok_step:
  assumes "dstep y z" "sys_ok y"
  shows "sys_ok z"
  using assms(1)
proof (cases rule: dstep.cases)
  case (push_put f now clk body r')
  then show ?thesis using sys_ok_push_put [OF assms(2) push_put(2)] by simp
next
  case (push_refused f now clk body e r')
  note p = push_put_ok [OF sys_okD(1,3) [OF assms(2)] push_refused(2)] push_put_frame [OF push_refused(2)]
  with push_refused(1) sys_okD(4) [OF assms(2)] show ?thesis
    using sys_ok_same_view [OF assms(2), of r'] by simp
next
  case (push_notify xs k ys n)
  then show ?thesis using sys_ok_notify [OF assms(2) push_notify(2)] sys_okD(2) [OF assms(2)] by simp
next
  case (connect key s r')
  then show ?thesis using sys_ok_connect [OF assms(2) connect(2)] by simp
next
  case (connect_refused key e r')
  note f = OnReceiveConnect_Inl [OF connect_refused(2), unfolded sys_okD(2) [OF assms(2)]]
  have "ninvar (notifier_state r') \<and> listed (notifier_state r') = listed (notifier_state (router y)) \<and>
      (\<forall>d. HasSignal N (notifier_state r') d \<longleftrightarrow> HasSignal N (notifier_state (router y)) d)"
    using f subscribe_err [OF sys_okD(4) [OF assms(2)]] sys_okD(4) [OF assms(2)] by metis
  with f connect_refused(1) show ?thesis
    using sys_ok_same_view [OF assms(2), of r'] sys_okD(2,3) [OF assms(2)] by simp
next
  case (flush xs s ys)
  then show ?thesis using sys_ok_flush [OF assms(2) flush(2)] by simp
next
  case (wake xs s ys)
  then show ?thesis using sys_ok_wake [OF assms(2) wake(2)] sys_okD(2) [OF assms(2)] by simp
next
  case (ack f key i e r')
  then show ?thesis using sys_ok_ack [OF assms(2) ack(2)] by simp
next
  case (reap f now e st)
  then show ?thesis using sys_ok_reap [OF assms(2)] sys_okD(1) [OF assms(2)] by simp
next
  case (leave xs s p ys)
  then show ?thesis using sys_ok_leave [OF assms(2) leave(2)] by simp
qed

lemma sys_ok_reachable: "dstep\<^sup>*\<^sup>* y z \<Longrightarrow> sys_ok y \<Longrightarrow> sys_ok z"
  by (induction rule: rtranclp_induct) (auto intro: sys_ok_step)

end

section \<open>The relay's own work\<close>

text \<open>The steps the relay takes by itself, without a client: notifying, waking, delivering.\<close>

inductive work :: "('st, 'n) system \<Rightarrow> ('st, 'n) system \<Rightarrow> bool" where
  notify: "pushing y = xs @ k # ys \<Longrightarrow> Notify (notifier (router y)) (notifier_state (router y)) k = Ret n \<Longrightarrow>
    work y (y\<lparr>router := (router y)\<lparr>notifier_state := n\<rparr>, pushing := xs @ ys\<rparr>)"
| flush: "sessions y = xs @ (s, Flushing) # ys \<Longrightarrow>
    work y (y\<lparr>sessions := xs @ (session_flush no_faults None (router y) s, Waiting) # ys\<rparr>)"
| wake: "sessions y = xs @ (s, Waiting) # ys \<Longrightarrow>
    HasSignal (notifier (router y)) (notifier_state (router y)) (sub_chan s) \<Longrightarrow>
    work y (y\<lparr>router := (router y)\<lparr>notifier_state := Receive (notifier (router y)) (notifier_state (router y)) (sub_chan s)\<rparr>,
               sessions := xs @ (s, Flushing) # ys\<rparr>)"

lemma work_dstep: "work y z \<Longrightarrow> dstep y z"
proof (induction rule: work.induct)
  case (notify y xs k ys n)
  then show ?case by (rule dstep.push_notify)
qed (auto intro: dstep.flush dstep.wake)

lemma session_flush_frame [simp]:
  "device (session_flush f stop r s) = device s" "sub_chan (session_flush f stop r s) = sub_chan s"
  by (simp_all add: session_flush_def split: prod.split)

text \<open>The store and the open sessions are not affected by it.\<close>

lemma work_frame:
  "work y z \<Longrightarrow> store_state (router z) = store_state (router y) \<and> map (\<lambda>t. device (fst t)) (sessions z) = map (\<lambda>t. device (fst t)) (sessions y)"
  by (induction rule: work.induct) auto

lemma works_frame:
  "work\<^sup>*\<^sup>* y z \<Longrightarrow> store_state (router z) = store_state (router y) \<and> map (\<lambda>t. device (fst t)) (sessions z) = map (\<lambda>t. device (fst t)) (sessions y)"
  by (induction rule: rtranclp_induct) (simp_all add: work_frame)

definition quiescent :: "('st, 'n) system \<Rightarrow> bool" where
  "quiescent y \<longleftrightarrow> pushing y = [] \<and>
     (\<forall>(s, p) \<in> set (sessions y). p = Waiting \<and> \<not> HasSignal (notifier (router y)) (notifier_state (router y)) (sub_chan s))"

text \<open>How much work is left: a bound on the number of steps.\<close>

definition session_work :: "(nat \<Rightarrow> bool) \<Rightarrow> recv_session \<times> phase \<Rightarrow> nat" where
  "session_work sig sp = (if sig (sub_chan (fst sp)) then 2 else 0) + (if snd sp = Flushing then 1 else 0)"

definition work_left :: "('st, 'n) system \<Rightarrow> nat" where
  "work_left y = (2 * length (sessions y) + 1) * length (pushing y) +
     sum_list (map (session_work (HasSignal (notifier (router y)) (notifier_state (router y)))) (sessions y))"

lemma session_work_bound:
  "sum_list (map (session_work sig') xs) \<le> sum_list (map (session_work sig) xs) + 2 * length xs"
  by (induction xs) (auto simp: session_work_def)

lemma session_work_cong:
  "(\<And>t. t \<in> set xs \<Longrightarrow> sig' (sub_chan (fst t)) \<longleftrightarrow> sig (sub_chan (fst t))) \<Longrightarrow>
     sum_list (map (session_work sig') xs) = sum_list (map (session_work sig) xs)"
  by (intro arg_cong [where f = sum_list] map_cong refl) (simp add: session_work_def)

context delivery_contract
begin

lemma work_decreases:
  assumes y: "sys_ok y" and w: "work y z"
  shows "work_left z < work_left y"
  using w
proof (cases rule: work.cases)
  case (notify xs k ys n)
  with session_work_bound [of "HasSignal N n" "sessions y" "HasSignal N (notifier_state (router y))"] sys_okD(2) [OF y]
  show ?thesis by (simp add: work_left_def)
next
  case (flush xs s ys)
  then show ?thesis by (simp add: work_left_def session_work_def [of _ "(_, _)"])
next
  case (wake xs s ys)
  let ?n = "notifier_state (router y)"
  note d = sys_okD [OF y]
  have "(s, Waiting) \<in> set (sessions y)" using wake by simp
  from session_ok_listed [OF d(6) [OF this]] have c: "sub_chan s \<in> listed ?n (device s)" .
  note rec = receive_ok [OF d(4) c]
  have "t \<in> set (xs @ ys) \<Longrightarrow> HasSignal N (Receive N ?n (sub_chan s)) (sub_chan (fst t)) \<longleftrightarrow> HasSignal N ?n (sub_chan (fst t))" for t
    using other_channels(1) [OF y wake(2), of "fst t" "snd t"] rec by simp
  then have "sum_list (map (session_work (HasSignal N (Receive N ?n (sub_chan s)))) xs) = sum_list (map (session_work (HasSignal N ?n)) xs)"
    "sum_list (map (session_work (HasSignal N (Receive N ?n (sub_chan s)))) ys) = sum_list (map (session_work (HasSignal N ?n)) ys)"
    by (auto intro!: session_work_cong)
  moreover have "\<not> HasSignal N (Receive N ?n (sub_chan s)) (sub_chan s)" using rec by simp
  ultimately show ?thesis using wake d(2) by (simp add: work_left_def session_work_def [of _ "(s, _)"])
qed

lemma work_enabled:
  assumes y: "sys_ok y" and "\<nexists>z. work y z"
  shows "quiescent y"
proof -
  note d = sys_okD [OF y]
  have "pushing y = []"
  proof (rule ccontr)
    assume "pushing y \<noteq> []"
    then obtain k ks where k: "pushing y = [] @ k # ks" by (cases "pushing y") auto
    obtain n where "Notify N (notifier_state (router y)) k = Ret n" using notify_ok [OF d(4)] by blast
    with work.notify [OF k, of n] assms(2) d(2) show False by auto
  qed
  moreover have "p = Waiting \<and> \<not> HasSignal N (notifier_state (router y)) (sub_chan s)" if "(s, p) \<in> set (sessions y)" for s p
  proof -
    from that obtain xs ys where x: "sessions y = xs @ (s, p) # ys" by (meson split_list)
    show ?thesis using work.flush [of y xs s ys] work.wake [of y xs s ys] assms(2) x d(2) by (cases p) auto
  qed
  ultimately show ?thesis by (auto simp: quiescent_def d(2))
qed

lemma works_ok: "work\<^sup>*\<^sup>* y z \<Longrightarrow> sys_ok y \<Longrightarrow> sys_ok z"
  by (induction rule: rtranclp_induct) (auto intro: sys_ok_step work_dstep)

lemma works_bounded: "(work ^^ n) y z \<Longrightarrow> sys_ok y \<Longrightarrow> n + work_left z \<le> work_left y"
proof (induction n arbitrary: z)
  case (Suc n)
  then obtain u where u: "(work ^^ n) y u" "work u z" by auto
  have "sys_ok u" using works_ok [OF relpowp_imp_rtranclp [OF u(1)] Suc.prems(2)] .
  from work_decreases [OF this u(2)] Suc.IH [OF u(1) Suc.prems(2)] show ?case by simp
qed simp

lemma quiescent_complete:
  assumes "sys_ok y" "quiescent y" "(s, p) \<in> set (sessions y)" "r \<in> set (rows (store_state (router y)))" "recipient r = device s"
  shows "delivery (row_blob r) \<in> set (delivered s)"
proof -
  have q: "p = Waiting" "\<not> HasSignal N (notifier_state (router y)) (sub_chan s)" "pushing y = []"
    using assms(2,3) sys_okD(2) [OF assms(1)] by (auto simp: quiescent_def)
  with sys_okD(6) [OF assms(1,3)] assms(4,5) show ?thesis by (auto simp: session_ok_def not_less)
qed

lemma work_ends_complete:
  assumes "sys_ok y" "work\<^sup>*\<^sup>* y z" "\<nexists>z'. work z z'"
  shows "store_state (router z) = store_state (router y) \<and>
    map (\<lambda>t. device (fst t)) (sessions z) = map (\<lambda>t. device (fst t)) (sessions y) \<and>
    (\<forall>(s, p) \<in> set (sessions z). \<forall>r \<in> set (rows (store_state (router z))).
       recipient r = device s \<longrightarrow> delivery (row_blob r) \<in> set (delivered s))"
proof -
  have z: "sys_ok z" by (rule works_ok [OF assms(2,1)])
  with works_frame [OF assms(2)] quiescent_complete [OF z work_enabled [OF z assms(3)]] show ?thesis by fastforce
qed

text \<open>In particular it can be completed.\<close>

lemma work_completes: "sys_ok y \<Longrightarrow> \<exists>z. work\<^sup>*\<^sup>* y z \<and> (\<nexists>z'. work z z')"
proof (induction y rule: measure_induct_rule [of work_left])
  case (less y)
  show ?case
  proof (cases "\<exists>u. work y u")
    case True
    then obtain u where u: "work y u" ..
    have "sys_ok u" using sys_ok_step [OF work_dstep [OF u] less.prems] .
    from less.IH [OF work_decreases [OF less.prems u] this] u show ?thesis by (meson converse_rtranclp_into_rtranclp)
  qed blast
qed

end

section \<open>Properties of the relay on SQLite and the in-process notifier\<close>

interpretation relay: delivery_contract sqlite_store sqlite_invar db_rows db_seq "inprocess_ops grow" notifier_ok listed_in
  for grow
  by unfold_locales

text \<open>A relay that has just started on a store.\<close>

definition relay_start :: "(nat \<Rightarrow> nat) \<Rightarrow> db \<Rightarrow> int \<Rightarrow> int \<Rightarrow> Limits \<Rightarrow> (db, notifier) system" where
  "relay_start grow d ttl' maxEnvelopeBytes' limits =
     \<lparr>router = NewRouterWithLimits sqlite_store d (inprocess_ops grow) inprocess_New ttl' maxEnvelopeBytes' limits,
      sessions = [], pushing = []\<rparr>"

lemma relay_start_ok: "sqlite_invar d \<Longrightarrow> relay.sys_ok grow (relay_start grow d ttl' m limits)"
  by (intro relay.sys_ok_I) (simp_all add: relay_start_def NewRouterWithLimits_def notifier_ok_New)

lemma reachable_ok:
  "sqlite_invar d \<Longrightarrow> dstep\<^sup>*\<^sup>* (relay_start grow d ttl' m limits) y \<Longrightarrow> relay.sys_ok grow y"
  using relay.sys_ok_reachable relay_start_ok by blast



text \<open>A concrete run: one push to the sample key, then its device connects.\<close>

lemma sample_start: "relay_start (\<lambda>n. 2 * n) sample_db 5000000000 0 sample_limits = \<lparr>router = sample_router, sessions = [], pushing = []\<rparr>"
  by (simp add: relay_start_def sample_router_def)

lemma sample_run:
  "\<exists>y s r. dstep\<^sup>*\<^sup>* (relay_start (\<lambda>n. 2 * n) sample_db 5000000000 0 sample_limits) y \<and> sessions y = [(s, Flushing)] \<and>
     device s = sample_key \<and> r \<in> set (db_rows (store_state (router y))) \<and> recipient r = sample_key \<and> envelope r = sample_envelope"
proof -
  let ?body = "sample_key @ sample_envelope"
  let ?y0 = "\<lparr>router = sample_router, sessions = [], pushing = []\<rparr> :: (db, notifier) system"
  obtain r1 where p: "push_put no_faults 0 (0, 0, 0) sample_router ?body = (None, r1)"
    using sample_push_acked by (auto simp: OnPush_split split: prod.splits option.splits)
  have s1: "dstep ?y0 (?y0\<lparr>router := r1, pushing := [sample_key]\<rparr>)" (is "dstep _ ?y1")
    using dstep.push_put [of no_faults 0 "(0, 0, 0)" ?y0 ?body r1] p by simp
  have inv: "sqlite_invar (store_state sample_router)" by (simp add: sample_db_invar)
  note fr = push_put_frame [OF p]
  obtain st where put: "PutWithLimits sqlite_store no_faults 0 sample_db sample_key sample_envelope 5000000000
      \<lparr>MaxBlobs = 2, MaxBytes = 100\<rparr> = (None, st)" "store_state r1 = st"
    using push_put_store [OF p] by auto
  have rows: "\<exists>q \<in> set (db_rows (store_state r1)). recipient q = sample_key \<and> envelope q = sample_envelope"
    using sq.put_ok [OF sample_db_invar put(1)] put(2) by auto
  obtain c where acq: "acquire (session_cap r1) sample_key = (True, c)"
    using fr by (auto simp: sample_router_def NewRouterWithLimits_def sample_limits_def acquire_def newSessionCap_def count_of_def)
  obtain ch n where sub: "Subscribe (notifier r1) (notifier_state r1) sample_key = (Inr ch, n)"
    using fr by (cases "inprocess_Subscribe (\<lambda>n. 2 * n) inprocess_New sample_key") (simp add: inprocess_ops_def)
  define s where "s = \<lparr>device = sample_key, sub_chan = ch, lastID = 0, delivered = []\<rparr>"
  have "OnReceiveConnect r1 sample_key = (Inr s, r1\<lparr>session_cap := c, notifier_state := n\<rparr>)"
    by (simp add: OnReceiveConnect_def acq sub s_def)
  with dstep.connect [of ?y1 sample_key s] have s2: "dstep ?y1 (?y1\<lparr>router := r1\<lparr>session_cap := c, notifier_state := n\<rparr>,
      sessions := [(s, Flushing)]\<rparr>)" by simp
  from s1 s2 rows show ?thesis
    unfolding sample_start
    by (intro exI [of _ "?y1\<lparr>router := r1\<lparr>session_cap := c, notifier_state := n\<rparr>, sessions := [(s, Flushing)]\<rparr>"])
       (auto simp: s_def intro: converse_rtranclp_into_rtranclp)
qed



end
