(* ===== verification/Go_Strconv.thy ===== *)
theory Go_Strconv
  imports Float64 Go_Errors
begin

text \<open>
  The text-to-value functions of Go's standard library that the relay's configuration and
  command line use: \<open>strings.TrimSpace\<close>, \<open>strconv.ParseInt\<close> (base 10, 64 bits; \<open>strconv.Atoi\<close>
  is the same function where \<open>int\<close> has 64 bits), \<open>strconv.ParseBool\<close>, \<open>strconv.ParseFloat\<close> and
  \<open>time.ParseDuration\<close>. Their callers only ask whether an error came back, so a failure is
  \<open>None\<close>. Strings are lists of bytes, as in Go.
\<close>

section \<open>Characters\<close>

abbreviation code :: "char \<Rightarrow> int" where "code \<equiv> of_char"

definition is_digit :: "char \<Rightarrow> bool" where
  "is_digit c \<longleftrightarrow> 48 \<le> code c \<and> code c \<le> 57"

definition digit_val :: "char \<Rightarrow> int" where
  "digit_val c = code c - 48"

text \<open>\<open>c | ('x' - 'X')\<close>: ASCII letters to lower case.\<close>

definition lower :: "char \<Rightarrow> char" where
  "lower c = char_of (code c OR 32)"

text \<open>The decimal value of a digit string, continuing from \<open>a\<close>.\<close>

fun digits_from :: "int \<Rightarrow> string \<Rightarrow> int" where
  "digits_from a [] = a"
| "digits_from a (c # cs) = digits_from (10 * a + digit_val c) cs"

section \<open>TrimSpace\<close>

text \<open>The UTF-8 encodings of the characters \<open>unicode.IsSpace\<close> accepts.\<close>

definition spaces :: "string list" where
  "spaces = [[CHR 0x20], [CHR 0x09], [CHR 0x0A], [CHR 0x0B], [CHR 0x0C], [CHR 0x0D], [CHR 0xC2, CHR 0x85], [CHR 0xC2, CHR 0xA0],
     [CHR 0xE1, CHR 0x9A, CHR 0x80], [CHR 0xE2, CHR 0x80, CHR 0xA8], [CHR 0xE2, CHR 0x80, CHR 0xA9], [CHR 0xE2, CHR 0x80, CHR 0xAF],
     [CHR 0xE2, CHR 0x81, CHR 0x9F], [CHR 0xE3, CHR 0x80, CHR 0x80]] @
     map (\<lambda>i. [CHR 0xE2, CHR 0x80, char_of (0x80 + i :: nat)]) [0..<11]"

lemma strip_shorter:
  "find (\<lambda>w. w \<noteq> [] \<and> take (length w) s = w) ws = Some w \<Longrightarrow> length (drop (length w) s) < length s"
  by (cases s) (auto simp: find_Some_iff)

function strip :: "string list \<Rightarrow> string \<Rightarrow> string" where
  "strip ws s = (case find (\<lambda>w. w \<noteq> [] \<and> take (length w) s = w) ws of None \<Rightarrow> s | Some w \<Rightarrow> strip ws (drop (length w) s))"
  by pat_completeness auto
termination
  by (relation "measure (\<lambda>(ws, s). length s)") (auto dest: strip_shorter)

declare strip.simps [simp del]

lemma strip_id: "(\<And>w. w \<in> set ws \<Longrightarrow> w \<noteq> [] \<Longrightarrow> take (length w) s \<noteq> w) \<Longrightarrow> strip ws s = s"
  by (subst strip.simps) (auto simp: find_Some_iff split: option.split)

lemma strip_Nil [simp]: "strip ws [] = []"
  by (rule strip_id) auto

definition TrimSpace :: "string \<Rightarrow> string" where
  "TrimSpace s = rev (strip (map rev spaces) (rev (strip spaces s)))"

lemma TrimSpace_Nil [simp]: "TrimSpace [] = []"
  by (simp add: TrimSpace_def)

text \<open>A text between two visible ASCII characters is left alone, and a final newline removed.\<close>

definition visible :: "char \<Rightarrow> bool" where
  "visible c \<longleftrightarrow> 33 \<le> code c \<and> code c \<le> 126"

lemma spaces_ends: "list_all (\<lambda>w. w \<noteq> [] \<and> \<not> visible (hd w) \<and> \<not> visible (last w)) spaces"
  by code_simp

lemma strip_visible:
  assumes "visible c" "\<And>w. w \<in> set ws \<Longrightarrow> w \<noteq> [] \<Longrightarrow> \<not> visible (hd w)"
  shows "strip ws (c # s) = c # s"
proof (rule strip_id)
  fix w assume w: "w \<in> set ws" "w \<noteq> []"
  from assms(1) assms(2) [OF w] w(2) show "take (length w) (c # s) \<noteq> w" by (cases w) auto
qed

lemma strip_spaces: "s \<noteq> [] \<Longrightarrow> visible (hd s) \<Longrightarrow> strip spaces s = s"
  using strip_visible [of "hd s" spaces "tl s"] spaces_ends [unfolded list_all_iff] by simp

lemma strip_rev_spaces: "s \<noteq> [] \<Longrightarrow> visible (hd s) \<Longrightarrow> strip (map rev spaces) s = s"
proof -
  assume "s \<noteq> []" "visible (hd s)"
  moreover have "\<not> visible (hd w)" if "w \<in> set (map rev spaces)" for w
    using that spaces_ends by (auto simp: list_all_iff hd_rev)
  ultimately show ?thesis using strip_visible [of "hd s" "map rev spaces" "tl s"] by simp
qed

lemma strip_newline: "strip (map rev spaces) (CHR 0x0A # s) = strip (map rev spaces) s"
proof -
  have "find (\<lambda>w. w \<noteq> [] \<and> take (length w) (CHR 0x0A # s) = w) (map rev spaces) = Some [CHR 0x0A]"
    by (simp add: spaces_def)
  then show ?thesis by (subst strip.simps) simp
qed

lemma TrimSpace_visible:
  assumes "s \<noteq> []" "visible (hd s)" "visible (last s)"
  shows "TrimSpace s = s" and "TrimSpace (s @ [CHR 0x0A]) = s"
  using assms strip_spaces [of s] strip_spaces [of "s @ [CHR 0x0A]"] strip_rev_spaces [of "rev s"]
  by (simp_all add: TrimSpace_def strip_newline hd_rev)

section \<open>ParseInt\<close>

text \<open>An optional sign.\<close>

definition sign_of :: "string \<Rightarrow> bool \<times> string" where
  "sign_of s = (case s of
      [] \<Rightarrow> (False, [])
    | c # cs \<Rightarrow> if c = CHR ''-'' then (True, cs) else if c = CHR ''+'' then (False, cs) else (False, s))"

definition ParseInt :: "string \<Rightarrow> int option" where
  "ParseInt s =
     (case sign_of s of (neg, t) \<Rightarrow>
        if t = [] \<or> \<not> list_all is_digit t then None
        else let v = digits_from 0 t in
          if neg then (if v > 2 ^ 63 then None else Some (- v))
          else (if v \<ge> 2 ^ 63 then None else Some v))"

text \<open>\<open>ParseInt\<close> reads what the verb \<open>%d\<close> prints.\<close>

lemma digits_from_snoc: "digits_from a (s @ [c]) = 10 * digits_from a s + digit_val c"
  by (induction s arbitrary: a) simp_all

lemma digit_char: "d < 10 \<Longrightarrow> is_digit (char_of (48 + d)) \<and> digit_val (char_of (48 + d)) = int d" for d :: nat
proof -
  assume "d < 10"
  moreover have "code (char_of (48 + d)) = int (of_char (char_of (48 + d) :: char))" by (rule of_nat_of_char [symmetric])
  ultimately show ?thesis by (simp add: is_digit_def digit_val_def)
qed

lemma dec_digits_ok: "list_all is_digit (dec_digits n) \<and> digits_from 0 (dec_digits n) = int n \<and> dec_digits n \<noteq> []"
proof (induction n rule: dec_digits.induct)
  case (1 n)
  show ?case
  proof (cases "n < 10")
    case True
    then show ?thesis using digit_char [of n] by (subst (1 2 3) dec_digits.simps) simp
  next
    case False
    with 1 have IH: "list_all is_digit (dec_digits (n div 10))" "digits_from 0 (dec_digits (n div 10)) = int (n div 10)" by auto
    from False have d: "dec_digits n = dec_digits (n div 10) @ [char_of (48 + n mod 10)]" by (subst dec_digits.simps) simp
    from IH digit_char [of "n mod 10"] show ?thesis
      by (simp add: d digits_from_snoc zdiv_int zmod_int)
  qed
qed

lemma ParseInt_fmt_d: "- (2 ^ 63) \<le> i \<Longrightarrow> i < 2 ^ 63 \<Longrightarrow> ParseInt (fmt_d i) = Some i"
proof -
  assume r: "- (2 ^ 63) \<le> i" "i < 2 ^ 63"
  have s: "sign_of (dec_digits n) = (False, dec_digits n)" for n
    using dec_digits_ok [of n] by (cases "dec_digits n") (auto simp: sign_of_def is_digit_def)
  from r dec_digits_ok [of "nat i"] dec_digits_ok [of "nat (- i)"] show ?thesis
    by (auto simp: ParseInt_def fmt_d_def s sign_of_def [of "CHR ''-'' # _"])
qed

section \<open>ParseBool\<close>

definition ParseBool :: "string \<Rightarrow> bool option" where
  "ParseBool s =
     (if s \<in> set [''1'', ''t'', ''T'', ''true'', ''TRUE'', ''True''] then Some True
      else if s \<in> set [''0'', ''f'', ''F'', ''false'', ''FALSE'', ''False''] then Some False
      else None)"

section \<open>ParseFloat\<close>

datatype float64 = Fin rat | Infinite bool | NaN

text \<open>\<open>special\<close>: the whole string is \<open>nan\<close> or an optionally signed \<open>inf\<close> or \<open>infinity\<close>, in any case.\<close>

definition special_float :: "string \<Rightarrow> float64 option" where
  "special_float s =
     (if map lower s = ''nan'' then Some NaN
      else case sign_of s of (neg, t) \<Rightarrow>
        if map lower t \<in> {''inf'', ''infinity''} then Some (Infinite neg) else None)"

text \<open>Where underscores may stand: between digits, or after a base prefix.\<close>

definition hex_letter :: "char \<Rightarrow> bool" where
  "hex_letter c \<longleftrightarrow> 97 \<le> code (lower c) \<and> code (lower c) \<le> 102"

fun underscores_ok :: "bool \<Rightarrow> char \<Rightarrow> string \<Rightarrow> bool" where
  "underscores_ok hex saw [] \<longleftrightarrow> saw \<noteq> CHR ''_''"
| "underscores_ok hex saw (c # cs) \<longleftrightarrow>
     (if is_digit c \<or> (hex \<and> hex_letter c) then underscores_ok hex (CHR ''0'') cs
      else if c = CHR ''_'' then saw = CHR ''0'' \<and> underscores_ok hex (CHR ''_'') cs
      else saw \<noteq> CHR ''_'' \<and> underscores_ok hex (CHR ''!'') cs)"

definition has_prefix0 :: "char list \<Rightarrow> string \<Rightarrow> bool" where
  "has_prefix0 letters s \<longleftrightarrow> 2 \<le> length s \<and> s ! 0 = CHR ''0'' \<and> lower (s ! 1) \<in> set letters"

definition underscoreOK :: "string \<Rightarrow> bool" where
  "underscoreOK s =
     (let t = snd (sign_of s) in
      if has_prefix0 ''box'' t then underscores_ok (has_prefix0 ''x'' t) (CHR ''0'') (drop 2 t)
      else underscores_ok False (CHR ''^'') t)"

text \<open>
  The mantissa: digits in the base with at most one point, underscores skipped. The result is
  the digits' value, how many stood after the point, whether there were any, and the rest.
\<close>

fun mantissa :: "bool \<Rightarrow> bool \<Rightarrow> int \<Rightarrow> nat \<Rightarrow> bool \<Rightarrow> string \<Rightarrow> int \<times> nat \<times> bool \<times> string" where
  "mantissa hex dot m k any [] = (m, k, any, [])"
| "mantissa hex dot m k any (c # cs) =
     (if c = CHR ''_'' then mantissa hex dot m k any cs
      else if c = CHR ''.'' then (if dot then (m, k, any, c # cs) else mantissa hex True m k any cs)
      else if is_digit c then mantissa hex dot ((if hex then 16 else 10) * m + digit_val c) (if dot then k + 1 else k) True cs
      else if hex \<and> hex_letter c then
        mantissa hex dot (16 * m + (code (lower c) - 87)) (if dot then k + 1 else k) True cs
      else (m, k, any, c # cs))"

text \<open>The exponent's digits; its value stops growing once it has reached 10000.\<close>

fun exponent :: "int \<Rightarrow> string \<Rightarrow> int \<times> string" where
  "exponent e [] = (e, [])"
| "exponent e (c # cs) =
     (if c = CHR ''_'' then exponent e cs
      else if is_digit c then exponent (if e < 10000 then 10 * e + digit_val c else e) cs
      else (e, c # cs))"

text \<open>\<open>readFloat\<close> on a whole string: the exact value it denotes, or \<open>None\<close> for a syntax error.\<close>

definition readFloat :: "string \<Rightarrow> rat option" where
  "readFloat s =
     (case sign_of s of (neg, t) \<Rightarrow>
       (let hex = 2 < length t \<and> has_prefix0 ''x'' t;
            t = (if hex then drop 2 t else t)
        in (case mantissa hex False 0 0 False t of (m, k, any, rest) \<Rightarrow>
         (let v = of_int m / (if hex then 16 else 10) ^ k;
              v = (if neg then - v else v);
              ret = (\<lambda>x. if CHR ''_'' \<in> set s \<and> \<not> underscoreOK s then None else Some x)
          in if \<not> any then None
             else (case rest of
                 [] \<Rightarrow> if hex then None else ret v
               | c # cs \<Rightarrow>
                   if lower c \<noteq> (if hex then CHR ''p'' else CHR ''e'') then None
                   else (case sign_of cs of (eneg, ds) \<Rightarrow>
                     if ds = [] \<or> \<not> is_digit (hd ds) then None
                     else (case exponent 0 ds of (e, rest') \<Rightarrow>
                       if rest' \<noteq> [] then None
                       else ret (v * (if hex then 2 else 10) powi (if eneg then - e else e)))))))))"

definition ParseFloat :: "string \<Rightarrow> float64 option" where
  "ParseFloat s =
     (case special_float s of
        Some x \<Rightarrow> Some x
      | None \<Rightarrow>
          (case readFloat s of
             None \<Rightarrow> None
           | Some x \<Rightarrow> if \<bar>fl64 x\<bar> \<ge> 2 ^ 1024 then None else Some (Fin (fl64 x))))"

section \<open>ParseDuration\<close>

definition unitMap :: "(string \<times> int) list" where
  "unitMap = [(''ns'', 1), (''us'', 1000), ([CHR 0xC2, CHR 0xB5, CHR ''s''], 1000), ([CHR 0xCE, CHR 0xBC, CHR ''s''], 1000),
     (''ms'', 1000000), (''s'', 1000000000), (''m'', 60000000000), (''h'', 3600000000000)]"

text \<open>\<open>leadingInt\<close>: the value of the leading digits, unless it leaves the 64-bit range, and the rest.\<close>

fun leadingInt :: "int \<Rightarrow> string \<Rightarrow> (int \<times> string) option" where
  "leadingInt x [] = Some (x, [])"
| "leadingInt x (c # cs) =
     (if \<not> is_digit c then Some (x, c # cs)
      else if x > 2 ^ 63 div 10 then None
      else if x * 10 + digit_val c > 2 ^ 63 then None
      else leadingInt (x * 10 + digit_val c) cs)"

text \<open>\<open>leadingFraction\<close>: once a digit would overflow, the remaining ones are only skipped.\<close>

fun leadingFraction :: "int \<Rightarrow> rat \<Rightarrow> bool \<Rightarrow> string \<Rightarrow> int \<times> rat \<times> string" where
  "leadingFraction x scale overflow [] = (x, scale, [])"
| "leadingFraction x scale overflow (c # cs) =
     (if \<not> is_digit c then (x, scale, c # cs)
      else if overflow then leadingFraction x scale True cs
      else if x > (2 ^ 63 - 1) div 10 then leadingFraction x scale True cs
      else if x * 10 + digit_val c > 2 ^ 63 then leadingFraction x scale True cs
      else leadingFraction (x * 10 + digit_val c) (fl64 (scale * 10)) False cs)"

definition is_unit_char :: "char \<Rightarrow> bool" where
  "is_unit_char c \<longleftrightarrow> \<not> (c = CHR ''.'' \<or> is_digit c)"

text \<open>A number: its whole part, its fraction with the fraction's scale, and the rest.\<close>

definition duration_number :: "string \<Rightarrow> (int \<times> int \<times> rat \<times> string) option" where
  "duration_number s =
     (case leadingInt 0 s of
        None \<Rightarrow> None
      | Some (v, s1) \<Rightarrow>
          if s1 \<noteq> [] \<and> hd s1 = CHR ''.''
          then (case leadingFraction 0 1 False (tl s1) of (f, scale, s2) \<Rightarrow>
                  if length s1 = length s \<and> length s2 = length (tl s1) then None else Some (v, f, scale, s2))
          else if length s1 = length s then None else Some (v, 0, 1, s1))"

text \<open>Its unit: the nanoseconds the number stands for, and the rest.\<close>

definition duration_unit :: "int \<Rightarrow> int \<Rightarrow> rat \<Rightarrow> string \<Rightarrow> (int \<times> string) option" where
  "duration_unit v f scale s =
     (if takeWhile is_unit_char s = [] then None
      else (case map_of unitMap (takeWhile is_unit_char s) of
        None \<Rightarrow> None
      | Some u \<Rightarrow>
          if v > 2 ^ 63 div u then None
          else (let w = (if f > 0 then v * u + \<lfloor>fl64 (fl64 (of_int f) * fl64 (of_int u / scale))\<rfloor> else v * u)
                in if f > 0 \<and> w > 2 ^ 63 then None else Some (w, dropWhile is_unit_char s))))"

definition duration_part :: "string \<Rightarrow> (int \<times> string) option" where
  "duration_part s =
     (if s = [] \<or> is_unit_char (hd s) then None
      else (case duration_number s of None \<Rightarrow> None | Some (v, f, scale, rest) \<Rightarrow> duration_unit v f scale rest))"

lemma leadingInt_length: "leadingInt x s = Some (v, s1) \<Longrightarrow> length s1 \<le> length s"
  by (induction x s rule: leadingInt.induct) (auto split: if_splits)

lemma leadingFraction_length: "leadingFraction x sc ov s = (f, scale, s2) \<Longrightarrow> length s2 \<le> length s"
  by (induction x sc ov s rule: leadingFraction.induct) (auto split: if_splits)

lemma duration_number_length: "duration_number s = Some (v, f, scale, s2) \<Longrightarrow> length s2 \<le> length s"
  by (auto simp: duration_number_def split: option.splits if_splits prod.splits
      dest!: leadingInt_length leadingFraction_length)

lemma dropWhile_shorter: "takeWhile P s \<noteq> [] \<Longrightarrow> length (dropWhile P s) < length s"
  by (cases s) (auto simp: le_imp_less_Suc length_dropWhile_le split: if_splits)

lemma duration_unit_shorter: "duration_unit v f scale s = Some (w, s') \<Longrightarrow> length s' < length s"
  by (auto simp: duration_unit_def Let_def dropWhile_shorter split: if_splits option.splits)

lemma duration_part_shorter: "duration_part s = Some (w, s') \<Longrightarrow> length s' < length s"
  by (auto simp: duration_part_def split: if_splits option.splits
      dest!: duration_number_length duration_unit_shorter)

text \<open>The sum of the parts, kept in 64 bits.\<close>

function duration_sum :: "int \<Rightarrow> string \<Rightarrow> int option" where
  "duration_sum d s =
     (if s = [] then Some d
      else (case duration_part s of
              None \<Rightarrow> None
            | Some (w, s') \<Rightarrow>
                let d' = (d + w) mod 2 ^ 64
                in if d' > 2 ^ 63 then None else duration_sum d' s'))"
  by pat_completeness auto
termination
  by (relation "measure (\<lambda>(d, s). length s)") (auto dest: duration_part_shorter)

declare duration_sum.simps [simp del]

definition ParseDuration :: "string \<Rightarrow> int option" where
  "ParseDuration s =
     (case sign_of s of (neg, t) \<Rightarrow>
        if t = ''0'' then Some 0
        else if t = [] then None
        else (case duration_sum 0 t of
                None \<Rightarrow> None
              | Some d \<Rightarrow> if neg then Some (- d) else if d > 2 ^ 63 - 1 then None else Some d))"

end
