(* ===== verification/Config.thy ===== *)
theory Config
  imports Go_Strconv Envelope
begin

text \<open>
  The operator's configuration, \<open>internal/config/config.go\<close>: a TOML file, environment overrides,
  defaults for what was left unset, and the refusals. The TOML decoder is not part of the
  repository: it is the record \<open>decoder\<close>, an argument of \<open>Load\<close>. The process environment is a
  function that answers the empty string for an unset variable. Durations are nanoseconds.
  The texts of the refusals are not modelled; their constructors name which refusal it is.
\<close>

section \<open>Constants\<close>

definition second :: int where "second = 1000000000"

definition DefaultMaxEnvelopeBytes :: int where "DefaultMaxEnvelopeBytes = ProtocolMaxEnvelopeBytes"
definition MaxRelayTTL :: int where "MaxRelayTTL = 30 * 24 * 3600 * second"
definition DefaultTTL :: int where "DefaultTTL = MaxRelayTTL"
definition DefaultReapInterval :: int where "DefaultReapInterval = 3600 * second"
definition DefaultHandshakeDeadline :: int where "DefaultHandshakeDeadline = 10 * second"
definition DefaultPushSessionDeadline :: int where "DefaultPushSessionDeadline = 30 * second"
definition DefaultReceiveIdleDeadline :: int where "DefaultReceiveIdleDeadline = 75 * second"
definition DefaultWriteDeadline :: int where "DefaultWriteDeadline = 30 * second"
definition DefaultMaxBlobsPerInbox :: int where "DefaultMaxBlobsPerInbox = 10000"
definition DefaultMaxBytesPerInbox :: int where "DefaultMaxBytesPerInbox = 256 * 1024 * 1024"
definition DefaultPushRatePerSecond :: float64 where "DefaultPushRatePerSecond = Fin 20"
definition DefaultPushRateBurst :: int where "DefaultPushRateBurst = 500"
definition DefaultMaxReceiveSessionsPerDevice :: int where "DefaultMaxReceiveSessionsPerDevice = 4"
definition DefaultShutdownDrain :: int where "DefaultShutdownDrain = 10 * second"

lemmas config_defaults = second_def DefaultMaxEnvelopeBytes_def ProtocolMaxEnvelopeBytes_def MaxRelayTTL_def DefaultTTL_def
  DefaultReapInterval_def DefaultHandshakeDeadline_def DefaultPushSessionDeadline_def DefaultReceiveIdleDeadline_def
  DefaultWriteDeadline_def DefaultMaxBlobsPerInbox_def DefaultMaxBytesPerInbox_def DefaultPushRatePerSecond_def
  DefaultPushRateBurst_def DefaultMaxReceiveSessionsPerDevice_def DefaultShutdownDrain_def

section \<open>Data\<close>

record RelayConfig =
  KeypairPath :: string
  ListenPush :: string
  ListenReceive :: string
  ListenHealth :: string
  cfg_TTL :: int
  cfg_ReapInterval :: int
  cfg_MaxEnvelopeBytes :: int
  cfg_MaxConnections :: int
  cfg_HandshakeDeadline :: int
  cfg_PushSessionDeadline :: int
  cfg_ReceiveIdleDeadline :: int
  cfg_WriteDeadline :: int
  cfg_ShutdownDrain :: int
  cfg_MaxBlobsPerInbox :: int
  cfg_MaxBytesPerInbox :: int
  cfg_PushRatePerSecond :: float64
  cfg_PushRateBurst :: int
  cfg_MaxReceiveSessionsPerDevice :: int
  Dev :: bool

record StoreConfig =
  StoreType :: string
  SQLitePath :: string
  PostgresDSN :: string

record Config =
  Relay :: RelayConfig
  StoreCfg :: StoreConfig

text \<open>The numeric knobs as pointers: \<open>None\<close> is a setting the operator left out.\<close>

record relayOverlay =
  ov_TTL :: "int option"
  ov_ReapInterval :: "int option"
  ov_MaxEnvelopeBytes :: "int option"
  ov_MaxConnections :: "int option"
  ov_HandshakeDeadline :: "int option"
  ov_PushSessionDeadline :: "int option"
  ov_ReceiveIdleDeadline :: "int option"
  ov_WriteDeadline :: "int option"
  ov_ShutdownDrain :: "int option"
  ov_MaxBlobsPerInbox :: "int option"
  ov_MaxBytesPerInbox :: "int option"
  ov_PushRatePerSecond :: "float64 option"
  ov_PushRateBurst :: "int option"
  ov_MaxReceiveSessionsPerDevice :: "int option"

definition zero_Config :: Config where
  "zero_Config = \<lparr>Relay = \<lparr>KeypairPath = [], ListenPush = [], ListenReceive = [], ListenHealth = [], cfg_TTL = 0,
     cfg_ReapInterval = 0, cfg_MaxEnvelopeBytes = 0, cfg_MaxConnections = 0, cfg_HandshakeDeadline = 0,
     cfg_PushSessionDeadline = 0, cfg_ReceiveIdleDeadline = 0, cfg_WriteDeadline = 0, cfg_ShutdownDrain = 0,
     cfg_MaxBlobsPerInbox = 0, cfg_MaxBytesPerInbox = 0, cfg_PushRatePerSecond = Fin 0, cfg_PushRateBurst = 0,
     cfg_MaxReceiveSessionsPerDevice = 0, Dev = False\<rparr>,
     StoreCfg = \<lparr>StoreType = [], SQLitePath = [], PostgresDSN = []\<rparr>\<rparr>"

definition zero_overlay :: relayOverlay where
  "zero_overlay = \<lparr>ov_TTL = None, ov_ReapInterval = None, ov_MaxEnvelopeBytes = None, ov_MaxConnections = None,
     ov_HandshakeDeadline = None, ov_PushSessionDeadline = None, ov_ReceiveIdleDeadline = None, ov_WriteDeadline = None,
     ov_ShutdownDrain = None, ov_MaxBlobsPerInbox = None, ov_MaxBytesPerInbox = None, ov_PushRatePerSecond = None,
     ov_PushRateBurst = None, ov_MaxReceiveSessionsPerDevice = None\<rparr>"

datatype config_error =
    ParseFile string go_err | InvalidEnv string string | NotInRange string
  | KeypairPathRequired | EnvelopeCeiling int | TTLCeiling int
  | SQLitePathRequired | PostgresDSNRequired | UnknownStoreType string

text \<open>\<open>toml.DecodeFile\<close> into each of the two structs.\<close>

record decoder =
  DecodeConfig :: "string \<Rightarrow> go_err + Config"
  DecodeOverlay :: "string \<Rightarrow> go_err + relayOverlay"

text \<open>\<open>os.IsNotExist\<close> looks through one \<open>PathError\<close>.\<close>

definition IsNotExist :: "go_err \<Rightarrow> bool" where
  "IsNotExist e = (case e of Wrapped p e' s \<Rightarrow> e' = ErrNotExist | _ \<Rightarrow> e = ErrNotExist)"

type_synonym environ = "string \<Rightarrow> string"

section \<open>Environment overrides\<close>

definition envDuration :: "environ \<Rightarrow> string \<Rightarrow> int option" where
  "envDuration env name = (if env name = [] then None else ParseDuration (env name))"

definition envInt64 :: "environ \<Rightarrow> string \<Rightarrow> int option" where
  "envInt64 env name = (let v = TrimSpace (env name) in if v = [] then None else ParseInt v)"

definition envInt :: "environ \<Rightarrow> string \<Rightarrow> int option" where
  "envInt env name = (let v = TrimSpace (env name) in if v = [] then None else ParseInt v)"

definition envFloat :: "environ \<Rightarrow> string \<Rightarrow> float64 option" where
  "envFloat env name =
     (let v = TrimSpace (env name) in
      if v = [] then None
      else (case ParseFloat v of Some (Fin x) \<Rightarrow> Some (Fin x) | _ \<Rightarrow> None))"

text \<open>A string setting is replaced when its variable is not empty; a knob when its variable parses.\<close>

definition over_string :: "environ \<Rightarrow> string \<Rightarrow> string \<Rightarrow> string" where
  "over_string env name old = (if env name \<noteq> [] then env name else old)"

definition over :: "'a option \<Rightarrow> 'a option \<Rightarrow> 'a option" where
  "over new old = (case new of None \<Rightarrow> old | Some v \<Rightarrow> Some v)"

text \<open>The string settings.\<close>

definition env_strings :: "environ \<Rightarrow> Config \<Rightarrow> Config" where
  "env_strings env cfg =
     (let r = Relay cfg; s = StoreCfg cfg in cfg\<lparr>
        Relay := r\<lparr>KeypairPath := over_string env ''TRUESEAL_RELAY_KEYPAIR_PATH'' (KeypairPath r),
                   ListenPush := over_string env ''TRUESEAL_RELAY_LISTEN_PUSH'' (ListenPush r),
                   ListenReceive := over_string env ''TRUESEAL_RELAY_LISTEN_RECEIVE'' (ListenReceive r),
                   ListenHealth := over_string env ''TRUESEAL_RELAY_LISTEN_HEALTH'' (ListenHealth r)\<rparr>,
        StoreCfg := s\<lparr>StoreType := over_string env ''TRUESEAL_RELAY_STORE_TYPE'' (StoreType s),
                     SQLitePath := over_string env ''TRUESEAL_RELAY_STORE_SQLITE_PATH'' (SQLitePath s),
                     PostgresDSN := over_string env ''TRUESEAL_RELAY_STORE_POSTGRES_DSN'' (PostgresDSN s)\<rparr>\<rparr>)"

text \<open>The two ceiling keys: a value that does not parse is an error.\<close>

definition env_ceilings :: "environ \<Rightarrow> relayOverlay \<Rightarrow> config_error + relayOverlay" where
  "env_ceilings env ov =
     (let v = env ''TRUESEAL_RELAY_TTL'' in
      case (if v = [] then Inr ov
            else (case ParseDuration v of
                    None \<Rightarrow> Inl (InvalidEnv ''TRUESEAL_RELAY_TTL'' v)
                  | Some d \<Rightarrow> Inr (ov\<lparr>ov_TTL := Some d\<rparr>))) of
        Inl e \<Rightarrow> Inl e
      | Inr ov \<Rightarrow>
          (let v = env ''TRUESEAL_RELAY_MAX_ENVELOPE_BYTES'' in
           if v = [] then Inr ov
           else (case ParseInt (TrimSpace v) of
                   None \<Rightarrow> Inl (InvalidEnv ''TRUESEAL_RELAY_MAX_ENVELOPE_BYTES'' v)
                 | Some n \<Rightarrow> Inr (ov\<lparr>ov_MaxEnvelopeBytes := Some n\<rparr>))))"

text \<open>The other knobs: a value that does not parse is ignored.\<close>

definition env_knobs :: "environ \<Rightarrow> relayOverlay \<Rightarrow> relayOverlay" where
  "env_knobs env ov = ov\<lparr>
     ov_ReapInterval := over (envDuration env ''TRUESEAL_RELAY_REAP_INTERVAL'') (ov_ReapInterval ov),
     ov_MaxConnections := over (envInt env ''TRUESEAL_RELAY_MAX_CONNECTIONS'') (ov_MaxConnections ov),
     ov_HandshakeDeadline := over (envDuration env ''TRUESEAL_RELAY_HANDSHAKE_DEADLINE'') (ov_HandshakeDeadline ov),
     ov_PushSessionDeadline := over (envDuration env ''TRUESEAL_RELAY_PUSH_SESSION_DEADLINE'') (ov_PushSessionDeadline ov),
     ov_ReceiveIdleDeadline := over (envDuration env ''TRUESEAL_RELAY_RECEIVE_IDLE_DEADLINE'') (ov_ReceiveIdleDeadline ov),
     ov_WriteDeadline := over (envDuration env ''TRUESEAL_RELAY_WRITE_DEADLINE'') (ov_WriteDeadline ov),
     ov_ShutdownDrain := over (envDuration env ''TRUESEAL_RELAY_SHUTDOWN_DRAIN'') (ov_ShutdownDrain ov),
     ov_MaxBlobsPerInbox := over (envInt64 env ''TRUESEAL_RELAY_MAX_BLOBS_PER_INBOX'') (ov_MaxBlobsPerInbox ov),
     ov_MaxBytesPerInbox := over (envInt64 env ''TRUESEAL_RELAY_MAX_BYTES_PER_INBOX'') (ov_MaxBytesPerInbox ov),
     ov_PushRatePerSecond := over (envFloat env ''TRUESEAL_RELAY_PUSH_RATE_PER_SECOND'') (ov_PushRatePerSecond ov),
     ov_PushRateBurst := over (envInt env ''TRUESEAL_RELAY_PUSH_RATE_BURST'') (ov_PushRateBurst ov),
     ov_MaxReceiveSessionsPerDevice :=
       over (envInt env ''TRUESEAL_RELAY_MAX_RECEIVE_SESSIONS_PER_DEVICE'') (ov_MaxReceiveSessionsPerDevice ov)\<rparr>"

definition env_dev :: "environ \<Rightarrow> Config \<Rightarrow> Config" where
  "env_dev env cfg =
     (let v = TrimSpace (env ''TRUESEAL_RELAY_DEV'') in
      if v \<noteq> [] \<and> ParseBool v = Some True then cfg\<lparr>Relay := (Relay cfg)\<lparr>Dev := True\<rparr>\<rparr> else cfg)"

definition applyEnvOverrides :: "environ \<Rightarrow> Config \<Rightarrow> relayOverlay \<Rightarrow> config_error + Config \<times> relayOverlay" where
  "applyEnvOverrides env cfg ov =
     (case env_ceilings env ov of
        Inl e \<Rightarrow> Inl e
      | Inr ov \<Rightarrow> Inr (env_dev env (env_strings env cfg), env_knobs env ov))"

section \<open>Defaults and refusals\<close>

definition setDefaults :: "Config \<Rightarrow> Config" where
  "setDefaults cfg =
     (let r = Relay cfg; s = StoreCfg cfg in cfg\<lparr>
        Relay := r\<lparr>ListenPush := (if ListenPush r = [] then '':7701'' else ListenPush r),
                   ListenReceive := (if ListenReceive r = [] then '':7700'' else ListenReceive r),
                   ListenHealth := (if ListenHealth r = [] then '':7702'' else ListenHealth r)\<rparr>,
        StoreCfg := s\<lparr>StoreType := (if StoreType s = [] then ''sqlite'' else StoreType s)\<rparr>\<rparr>)"

definition pickPositiveDuration :: "string \<Rightarrow> int option \<Rightarrow> int \<Rightarrow> config_error + int" where
  "pickPositiveDuration name v def' =
     (case v of None \<Rightarrow> Inr def' | Some d \<Rightarrow> if d \<le> 0 then Inl (NotInRange name) else Inr d)"

definition pickPositiveInt64 :: "string \<Rightarrow> int option \<Rightarrow> int \<Rightarrow> config_error + int" where
  "pickPositiveInt64 name v def' =
     (case v of None \<Rightarrow> Inr def' | Some n \<Rightarrow> if n \<le> 0 then Inl (NotInRange name) else Inr n)"

definition pickPositiveInt :: "string \<Rightarrow> int option \<Rightarrow> int \<Rightarrow> config_error + int" where
  "pickPositiveInt name v def' =
     (case v of None \<Rightarrow> Inr def' | Some n \<Rightarrow> if n \<le> 0 then Inl (NotInRange name) else Inr n)"

definition pickNonNegativeInt :: "string \<Rightarrow> int option \<Rightarrow> int \<Rightarrow> config_error + int" where
  "pickNonNegativeInt name v def' =
     (case v of None \<Rightarrow> Inr def' | Some n \<Rightarrow> if n < 0 then Inl (NotInRange name) else Inr n)"

definition pickPositiveFloat :: "string \<Rightarrow> float64 option \<Rightarrow> float64 \<Rightarrow> config_error + float64" where
  "pickPositiveFloat name v def' =
     (case v of
        None \<Rightarrow> Inr def'
      | Some x \<Rightarrow> (case x of Fin r \<Rightarrow> if r \<le> 0 then Inl (NotInRange name) else Inr x | _ \<Rightarrow> Inl (NotInRange name)))"

text \<open>An early return on an error.\<close>

definition attempt :: "'e + 'a \<Rightarrow> ('a \<Rightarrow> 'e + 'b) \<Rightarrow> 'e + 'b" where
  "attempt x k = (case x of Inl e \<Rightarrow> Inl e | Inr a \<Rightarrow> k a)"

definition resolve :: "Config \<Rightarrow> relayOverlay \<Rightarrow> config_error + Config" where
  "resolve cfg o' =
     attempt (pickPositiveDuration ''relay.ttl'' (ov_TTL o') DefaultTTL) (\<lambda>v1.
     attempt (pickPositiveDuration ''relay.reap_interval'' (ov_ReapInterval o') DefaultReapInterval) (\<lambda>v2.
     attempt (pickPositiveInt64 ''relay.max_envelope_bytes'' (ov_MaxEnvelopeBytes o') DefaultMaxEnvelopeBytes) (\<lambda>v3.
     attempt (pickNonNegativeInt ''relay.max_connections'' (ov_MaxConnections o') 1000) (\<lambda>v4.
     attempt (pickPositiveDuration ''relay.handshake_deadline'' (ov_HandshakeDeadline o') DefaultHandshakeDeadline) (\<lambda>v5.
     attempt (pickPositiveDuration ''relay.push_session_deadline'' (ov_PushSessionDeadline o') DefaultPushSessionDeadline) (\<lambda>v6.
     attempt (pickPositiveDuration ''relay.receive_idle_deadline'' (ov_ReceiveIdleDeadline o') DefaultReceiveIdleDeadline) (\<lambda>v7.
     attempt (pickPositiveDuration ''relay.write_deadline'' (ov_WriteDeadline o') DefaultWriteDeadline) (\<lambda>v8.
     attempt (pickPositiveDuration ''relay.shutdown_drain'' (ov_ShutdownDrain o') DefaultShutdownDrain) (\<lambda>v9.
     attempt (pickPositiveInt64 ''relay.max_blobs_per_inbox'' (ov_MaxBlobsPerInbox o') DefaultMaxBlobsPerInbox) (\<lambda>v10.
     attempt (pickPositiveInt64 ''relay.max_bytes_per_inbox'' (ov_MaxBytesPerInbox o') DefaultMaxBytesPerInbox) (\<lambda>v11.
     attempt (pickPositiveFloat ''relay.push_rate_per_second'' (ov_PushRatePerSecond o') DefaultPushRatePerSecond) (\<lambda>v12.
     attempt (pickPositiveInt ''relay.push_rate_burst'' (ov_PushRateBurst o') DefaultPushRateBurst) (\<lambda>v13.
     attempt (pickPositiveInt ''relay.max_receive_sessions_per_device'' (ov_MaxReceiveSessionsPerDevice o') DefaultMaxReceiveSessionsPerDevice) (\<lambda>v14.
       Inr (cfg\<lparr>Relay := (Relay cfg)\<lparr>cfg_TTL := v1, cfg_ReapInterval := v2, cfg_MaxEnvelopeBytes := v3, cfg_MaxConnections := v4,
         cfg_HandshakeDeadline := v5, cfg_PushSessionDeadline := v6, cfg_ReceiveIdleDeadline := v7, cfg_WriteDeadline := v8,
         cfg_ShutdownDrain := v9, cfg_MaxBlobsPerInbox := v10, cfg_MaxBytesPerInbox := v11, cfg_PushRatePerSecond := v12,
         cfg_PushRateBurst := v13, cfg_MaxReceiveSessionsPerDevice := v14\<rparr>\<rparr>)))))))))))))))"

definition validate :: "Config \<Rightarrow> config_error option" where
  "validate cfg =
     (if KeypairPath (Relay cfg) = [] then Some KeypairPathRequired
      else if cfg_MaxEnvelopeBytes (Relay cfg) > ProtocolMaxEnvelopeBytes
      then Some (EnvelopeCeiling (cfg_MaxEnvelopeBytes (Relay cfg)))
      else if cfg_TTL (Relay cfg) > MaxRelayTTL then Some (TTLCeiling (cfg_TTL (Relay cfg)))
      else if StoreType (StoreCfg cfg) = ''sqlite'' \<and> SQLitePath (StoreCfg cfg) = [] then Some SQLitePathRequired
      else if StoreType (StoreCfg cfg) = ''postgres'' \<and> PostgresDSN (StoreCfg cfg) = [] then Some PostgresDSNRequired
      else if StoreType (StoreCfg cfg) \<noteq> ''sqlite'' \<and> StoreType (StoreCfg cfg) \<noteq> ''postgres''
      then Some (UnknownStoreType (StoreType (StoreCfg cfg)))
      else None)"

text \<open>The file, decoded twice; a missing file counts as an empty one.\<close>

definition read_file :: "decoder \<Rightarrow> string \<Rightarrow> config_error + Config \<times> relayOverlay" where
  "read_file dec path =
     (if path = [] then Inr (zero_Config, zero_overlay)
      else case DecodeConfig dec path of
        Inl e \<Rightarrow> if IsNotExist e then Inr (zero_Config, zero_overlay) else Inl (ParseFile path e)
      | Inr cfg \<Rightarrow>
          (case DecodeOverlay dec path of Inl e \<Rightarrow> Inl (ParseFile path e) | Inr ov \<Rightarrow> Inr (cfg, ov)))"

definition Load :: "decoder \<Rightarrow> environ \<Rightarrow> string \<Rightarrow> config_error + Config" where
  "Load dec env path =
     attempt (read_file dec path) (\<lambda>(cfg, ov).
     attempt (applyEnvOverrides env cfg ov) (\<lambda>(cfg, ov).
     attempt (resolve (setDefaults cfg) ov) (\<lambda>cfg.
       case validate cfg of Some e \<Rightarrow> Inl e | None \<Rightarrow> Inr cfg)))"

section \<open>What an accepted configuration satisfies\<close>

lemma attempt_Inr: "attempt x k = Inr b \<longleftrightarrow> (\<exists>a. x = Inr a \<and> k a = Inr b)"
  by (auto simp: attempt_def split: sum.split)

text \<open>An explicit value or the default.\<close>

definition picked :: "'a \<Rightarrow> 'a option \<Rightarrow> 'a" where
  "picked def' v = (case v of None \<Rightarrow> def' | Some x \<Rightarrow> x)"

fun positive_float :: "float64 \<Rightarrow> bool" where
  "positive_float (Fin r) \<longleftrightarrow> 0 < r"
| "positive_float _ \<longleftrightarrow> False"

text \<open>The settings that count as explicit: the environment's where it parses, else the file's.\<close>

definition effective :: "environ \<Rightarrow> relayOverlay \<Rightarrow> relayOverlay" where
  "effective env toml =
     env_knobs env (toml\<lparr>ov_TTL := over (envDuration env ''TRUESEAL_RELAY_TTL'') (ov_TTL toml),
       ov_MaxEnvelopeBytes := over (envInt64 env ''TRUESEAL_RELAY_MAX_ENVELOPE_BYTES'') (ov_MaxEnvelopeBytes toml)\<rparr>)"

text \<open>The two ceiling keys, if set, hold a duration and an integer.\<close>

definition ceilings_parse :: "environ \<Rightarrow> bool" where
  "ceilings_parse env \<longleftrightarrow>
     (env ''TRUESEAL_RELAY_TTL'' \<noteq> [] \<longrightarrow> envDuration env ''TRUESEAL_RELAY_TTL'' \<noteq> None) \<and>
     (env ''TRUESEAL_RELAY_MAX_ENVELOPE_BYTES'' \<noteq> [] \<longrightarrow> envInt64 env ''TRUESEAL_RELAY_MAX_ENVELOPE_BYTES'' \<noteq> None)"

text \<open>Every explicit setting is in range.\<close>

definition explicit :: "('a \<Rightarrow> bool) \<Rightarrow> 'a option \<Rightarrow> bool" where
  "explicit ok v = (case v of None \<Rightarrow> True | Some x \<Rightarrow> ok x)"

definition explicit_in_range :: "relayOverlay \<Rightarrow> bool" where
  "explicit_in_range ov \<longleftrightarrow>
     list_all (explicit (\<lambda>d. 0 < d))
       [ov_TTL ov, ov_ReapInterval ov, ov_MaxEnvelopeBytes ov, ov_HandshakeDeadline ov, ov_PushSessionDeadline ov,
        ov_ReceiveIdleDeadline ov, ov_WriteDeadline ov, ov_ShutdownDrain ov, ov_MaxBlobsPerInbox ov, ov_MaxBytesPerInbox ov,
        ov_PushRateBurst ov, ov_MaxReceiveSessionsPerDevice ov] \<and>
     explicit (\<lambda>n. 0 \<le> n) (ov_MaxConnections ov) \<and> explicit positive_float (ov_PushRatePerSecond ov)"

text \<open>Each knob is its explicit setting or its default.\<close>

definition with_knobs :: "relayOverlay \<Rightarrow> RelayConfig \<Rightarrow> RelayConfig" where
  "with_knobs ov r = r\<lparr>
     cfg_TTL := picked DefaultTTL (ov_TTL ov),
     cfg_ReapInterval := picked DefaultReapInterval (ov_ReapInterval ov),
     cfg_MaxEnvelopeBytes := picked DefaultMaxEnvelopeBytes (ov_MaxEnvelopeBytes ov),
     cfg_MaxConnections := picked 1000 (ov_MaxConnections ov),
     cfg_HandshakeDeadline := picked DefaultHandshakeDeadline (ov_HandshakeDeadline ov),
     cfg_PushSessionDeadline := picked DefaultPushSessionDeadline (ov_PushSessionDeadline ov),
     cfg_ReceiveIdleDeadline := picked DefaultReceiveIdleDeadline (ov_ReceiveIdleDeadline ov),
     cfg_WriteDeadline := picked DefaultWriteDeadline (ov_WriteDeadline ov),
     cfg_ShutdownDrain := picked DefaultShutdownDrain (ov_ShutdownDrain ov),
     cfg_MaxBlobsPerInbox := picked DefaultMaxBlobsPerInbox (ov_MaxBlobsPerInbox ov),
     cfg_MaxBytesPerInbox := picked DefaultMaxBytesPerInbox (ov_MaxBytesPerInbox ov),
     cfg_PushRatePerSecond := picked DefaultPushRatePerSecond (ov_PushRatePerSecond ov),
     cfg_PushRateBurst := picked DefaultPushRateBurst (ov_PushRateBurst ov),
     cfg_MaxReceiveSessionsPerDevice := picked DefaultMaxReceiveSessionsPerDevice (ov_MaxReceiveSessionsPerDevice ov)\<rparr>"

lemma list_all_nil: "list_all P [] \<longleftrightarrow> True"
  by simp

lemma attempt_pick:
  "attempt (pickPositiveDuration nm v d) k = Inr b \<longleftrightarrow> explicit (\<lambda>x. 0 < x) v \<and> k (picked d v) = Inr b"
  "attempt (pickPositiveInt64 nm v d) k = Inr b \<longleftrightarrow> explicit (\<lambda>x. 0 < x) v \<and> k (picked d v) = Inr b"
  "attempt (pickPositiveInt nm v d) k = Inr b \<longleftrightarrow> explicit (\<lambda>x. 0 < x) v \<and> k (picked d v) = Inr b"
  "attempt (pickNonNegativeInt nm v d) k = Inr b \<longleftrightarrow> explicit (\<lambda>x. 0 \<le> x) v \<and> k (picked d v) = Inr b"
  "attempt (pickPositiveFloat nm w e) h = Inr b \<longleftrightarrow> explicit positive_float w \<and> h (picked e w) = Inr b"
  by (auto simp: pickPositiveDuration_def pickPositiveInt64_def pickPositiveInt_def pickNonNegativeInt_def
      pickPositiveFloat_def picked_def explicit_def attempt_def split: option.split float64.split)

lemma resolve_Inr:
  "resolve cfg ov = Inr cfg' \<longleftrightarrow> explicit_in_range ov \<and> cfg' = cfg\<lparr>Relay := with_knobs ov (Relay cfg)\<rparr>"
  unfolding resolve_def attempt_pick explicit_in_range_def with_knobs_def list.pred_inject sum.inject
  by (simp only: simp_thms list.pred_inject list_all_nil conj_ac eq_commute [of cfg'])

lemma ParseInt_Nil [simp]: "ParseInt [] = None"
  by (simp add: ParseInt_def sign_of_def)

lemma env_ceilings_Inr:
  "env_ceilings env ov = Inr ov' \<longleftrightarrow> ceilings_parse env \<and>
     ov' = ov\<lparr>ov_TTL := over (envDuration env ''TRUESEAL_RELAY_TTL'') (ov_TTL ov),
              ov_MaxEnvelopeBytes := over (envInt64 env ''TRUESEAL_RELAY_MAX_ENVELOPE_BYTES'') (ov_MaxEnvelopeBytes ov)\<rparr>"
proof -
  have 1: "envInt64 env nm = ParseInt (TrimSpace (env nm))" for nm by (simp add: envInt64_def Let_def)
  have 2: "envDuration env nm = (if env nm = [] then None else ParseDuration (env nm))" for nm by (simp add: envDuration_def)
  show ?thesis
    unfolding env_ceilings_def ceilings_parse_def 1 2 over_def Let_def
    by (auto split: option.split if_splits sum.splits)
qed

text \<open>The configuration the relay runs with, when it runs.\<close>

definition configured :: "environ \<Rightarrow> Config \<Rightarrow> relayOverlay \<Rightarrow> Config" where
  "configured env cfg toml =
     (let c = setDefaults (env_dev env (env_strings env cfg)) in c\<lparr>Relay := with_knobs (effective env toml) (Relay c)\<rparr>)"


text \<open>The limits an accepted configuration hands to the rest of the relay.\<close>

definition knobs_sound :: "RelayConfig \<Rightarrow> bool" where
  "knobs_sound r \<longleftrightarrow>
     0 < cfg_TTL r \<and> cfg_TTL r \<le> MaxRelayTTL \<and> 0 < cfg_ReapInterval r \<and>
     0 < cfg_MaxEnvelopeBytes r \<and> cfg_MaxEnvelopeBytes r \<le> ProtocolMaxEnvelopeBytes \<and> 0 \<le> cfg_MaxConnections r \<and>
     0 < cfg_HandshakeDeadline r \<and> 0 < cfg_PushSessionDeadline r \<and> 0 < cfg_ReceiveIdleDeadline r \<and>
     0 < cfg_WriteDeadline r \<and> 0 < cfg_ShutdownDrain r \<and> 0 < cfg_MaxBlobsPerInbox r \<and> 0 < cfg_MaxBytesPerInbox r \<and>
     positive_float (cfg_PushRatePerSecond r) \<and> 0 < cfg_PushRateBurst r \<and> 0 < cfg_MaxReceiveSessionsPerDevice r"

definition settings_present :: "Config \<Rightarrow> bool" where
  "settings_present cfg \<longleftrightarrow>
     KeypairPath (Relay cfg) \<noteq> [] \<and> ListenPush (Relay cfg) \<noteq> [] \<and> ListenReceive (Relay cfg) \<noteq> [] \<and>
     ListenHealth (Relay cfg) \<noteq> [] \<and>
     (StoreType (StoreCfg cfg) = ''sqlite'' \<and> SQLitePath (StoreCfg cfg) \<noteq> [] \<or>
      StoreType (StoreCfg cfg) = ''postgres'' \<and> PostgresDSN (StoreCfg cfg) \<noteq> [])"

lemma picked_pos: "explicit P v \<Longrightarrow> P d \<Longrightarrow> P (picked d v)"
  by (cases v) (auto simp: explicit_def picked_def)

lemma with_knobs_sound:
  assumes "explicit_in_range ov"
    and "cfg_TTL (with_knobs ov r) \<le> MaxRelayTTL" "cfg_MaxEnvelopeBytes (with_knobs ov r) \<le> ProtocolMaxEnvelopeBytes"
  shows "knobs_sound (with_knobs ov r)"
proof -
  have e: "explicit ((<) 0) (ov_TTL ov)" "explicit ((<) 0) (ov_ReapInterval ov)" "explicit ((<) 0) (ov_MaxEnvelopeBytes ov)"
    "explicit ((<) 0) (ov_HandshakeDeadline ov)" "explicit ((<) 0) (ov_PushSessionDeadline ov)"
    "explicit ((<) 0) (ov_ReceiveIdleDeadline ov)" "explicit ((<) 0) (ov_WriteDeadline ov)" "explicit ((<) 0) (ov_ShutdownDrain ov)"
    "explicit ((<) 0) (ov_MaxBlobsPerInbox ov)" "explicit ((<) 0) (ov_MaxBytesPerInbox ov)" "explicit ((<) 0) (ov_PushRateBurst ov)"
    "explicit ((<) 0) (ov_MaxReceiveSessionsPerDevice ov)" "explicit ((\<le>) 0) (ov_MaxConnections ov)"
    "explicit positive_float (ov_PushRatePerSecond ov)"
    using assms(1) unfolding explicit_in_range_def list.pred_inject list_all_nil by blast+
  from assms(2,3) e [THEN picked_pos] show ?thesis
    unfolding knobs_sound_def with_knobs_def by (simp add: config_defaults)
qed

lemma setDefaults_listen:
  "ListenPush (Relay (setDefaults c)) \<noteq> []" "ListenReceive (Relay (setDefaults c)) \<noteq> []" "ListenHealth (Relay (setDefaults c)) \<noteq> []"
  by (simp_all add: setDefaults_def Let_def)

lemma Load_sound:
  assumes "Load dec env path = Inr cfg"
  shows "knobs_sound (Relay cfg) \<and> settings_present cfg"
proof -
  from assms obtain c ov where r: "resolve (setDefaults c) ov = Inr cfg" and v: "validate cfg = None"
    by (auto simp: Load_def attempt_Inr split: option.splits)
  from r have e: "explicit_in_range ov" and cfg: "cfg = (setDefaults c)\<lparr>Relay := with_knobs ov (Relay (setDefaults c))\<rparr>"
    by (simp_all add: resolve_Inr)
  have w: "KeypairPath (with_knobs ov q) = KeypairPath q" "ListenPush (with_knobs ov q) = ListenPush q"
    "ListenReceive (with_knobs ov q) = ListenReceive q" "ListenHealth (with_knobs ov q) = ListenHealth q" for q
    by (simp_all add: with_knobs_def)
  have "cfg_TTL (Relay cfg) \<le> MaxRelayTTL" "cfg_MaxEnvelopeBytes (Relay cfg) \<le> ProtocolMaxEnvelopeBytes"
    using v by (auto simp: validate_def not_less split: if_splits)
  with with_knobs_sound [OF e] have "knobs_sound (Relay cfg)" by (simp add: cfg)
  moreover have "settings_present cfg"
    using v setDefaults_listen [of c] by (auto simp: settings_present_def cfg w validate_def split: if_splits)
  ultimately show ?thesis ..
qed


text \<open>An environment that sets the two required paths and a rate, with no file.\<close>

definition no_toml :: decoder where
  "no_toml = \<lparr>DecodeConfig = (\<lambda>p. Inl (Wrapped ''open '' ErrNotExist '''')), DecodeOverlay = (\<lambda>p. Inl ErrNotExist)\<rparr>"

definition sample_environ :: environ where
  "sample_environ = (\<lambda>_. [])(''TRUESEAL_RELAY_KEYPAIR_PATH'' := ''k.hex'', ''TRUESEAL_RELAY_STORE_SQLITE_PATH'' := ''r.db'',
     ''TRUESEAL_RELAY_MAX_CONNECTIONS'' := ''0'', ''TRUESEAL_RELAY_PUSH_RATE_BURST'' := ''-x'')"

lemma sample_config_loads:
  "\<exists>cfg. Load no_toml sample_environ ''relay.toml'' = Inr cfg \<and> cfg_MaxConnections (Relay cfg) = 0 \<and>
     cfg_PushRatePerSecond (Relay cfg) = Fin 20 \<and> cfg_PushRateBurst (Relay cfg) = 500 \<and>
     cfg_MaxEnvelopeBytes (Relay cfg) = 65482 \<and> cfg_MaxBlobsPerInbox (Relay cfg) = 10000 \<and>
     cfg_MaxBytesPerInbox (Relay cfg) = 268435456"
proof -
  have "case Load no_toml sample_environ ''relay.toml'' of Inl e \<Rightarrow> False
      | Inr cfg \<Rightarrow> cfg_MaxConnections (Relay cfg) = 0 \<and> cfg_PushRatePerSecond (Relay cfg) = Fin 20 \<and>
          cfg_PushRateBurst (Relay cfg) = 500 \<and> cfg_MaxEnvelopeBytes (Relay cfg) = 65482 \<and>
          cfg_MaxBlobsPerInbox (Relay cfg) = 10000 \<and> cfg_MaxBytesPerInbox (Relay cfg) = 268435456" by code_simp
  then show ?thesis by (auto split: sum.splits)
qed


end
