(* ===== verification/Reaper.thy ===== *)
theory Reaper
  imports Sqlite_Store
begin

text \<open>
  The TTL reaper of \<open>internal/store/reaper.go\<close>: a loop that calls \<open>Reap\<close> at every tick of a
  timer until its context is done. A run is given the ticks it sees before that, each with the
  wall clock \<open>Reap\<close> reads and the failures it meets. What a run does to the stored rows is proved
  from the storage contract.
\<close>

section \<open>The reaper\<close>

record 'st Reaper =
  rp_store :: "'st InboxStore"
  rp_interval :: int

definition NewReaper :: "'st InboxStore \<Rightarrow> int \<Rightarrow> 'st Reaper" where
  "NewReaper s interval' = \<lparr>rp_store = s, rp_interval = interval'\<rparr>"

type_synonym tick = "faults \<times> int"

text \<open>The loop: an error of \<open>Reap\<close> is logged (with what came back) and the loop goes on.\<close>

fun reap_loop :: "'st InboxStore \<Rightarrow> tick list \<Rightarrow> 'st \<Rightarrow> go_err option list \<times> 'st" where
  "reap_loop s [] st = ([], st)"
| "reap_loop s ((f, now) # ticks) st =
     (case Reap s f now st of (err, st') \<Rightarrow>
       (case reap_loop s ticks st' of (errs, st'') \<Rightarrow> (err # errs, st'')))"

text \<open>\<open>time.NewTicker\<close> panics unless its interval is positive.\<close>

definition Run :: "'st Reaper \<Rightarrow> tick list \<Rightarrow> 'st \<Rightarrow> (go_err option list \<times> 'st) go" where
  "Run r ticks st = (if rp_interval r \<le> 0 then Panic else Ret (reap_loop (rp_store r) ticks st))"

section \<open>What a run removes\<close>

context inbox_contract
begin

lemma reap_loop_rows:
  assumes "invar st" "reap_loop S ticks st = (errs, st')"
  shows "invar st' \<and> last_id st' = last_id st \<and> length errs = length ticks \<and>
    rows st' = filter (\<lambda>r. \<forall>i < length ticks. errs ! i = None \<longrightarrow> Unix (snd (ticks ! i)) < expires_at r) (rows st)"
  using assms
proof (induction ticks arbitrary: st errs)
  case Nil
  then show ?case by simp
next
  case (Cons t ticks)
  obtain f now where t: "t = (f, now)" by fastforce
  obtain err st1 where 1: "Reap S f now st = (err, st1)" by fastforce
  obtain es where 2: "reap_loop S ticks st1 = (es, st')" "errs = err # es"
    using Cons.prems(2) by (auto simp: t 1 split: prod.splits)
  have st1: "invar st1" "last_id st1 = last_id st"
    "rows st1 = (if err = None then filter (\<lambda>r. Unix now < expires_at r) (rows st) else rows st)"
    using reap_ok [OF Cons.prems(1), of f now st1] reap_err [of f now st _ st1] 1 Cons.prems(1) by (cases err; auto)+
  from Cons.IH [OF st1(1) 2(1)] st1(2,3) show ?case
    by (auto simp: 2(2) t less_Suc_eq_0_disj nth_Cons split: nat.splits intro!: filter_cong)
qed

end

lemma sqlite_Reap_result:
  "sqlite_invar d \<Longrightarrow> fst (sqlite_Reap f now d) = None \<longleftrightarrow> f ReapExec = None"
  by (rule sqlite_invarE, assumption)
     (auto simp: sqlite_Reap_def run_stmt_def delete_where_def prepare_ok inbox_columns_def split: option.splits)

lemma reap_loop_results:
  assumes "sqlite_invar d" "reap_loop sqlite_store ticks d = (errs, d')" "i < length ticks"
  shows "errs ! i = None \<longleftrightarrow> fst (ticks ! i) ReapExec = None"
  using assms
proof (induction ticks arbitrary: d errs i)
  case (Cons t ticks)
  obtain f now where t: "t = (f, now)" by fastforce
  obtain err d1 where 1: "sqlite_Reap f now d = (err, d1)" by fastforce
  have s: "Reap sqlite_store = sqlite_Reap" by (simp add: sqlite_store_def)
  obtain es where 2: "reap_loop sqlite_store ticks d1 = (es, d')" "errs = err # es"
    using Cons.prems(2) by (auto simp: t s 1 split: prod.splits)
  have "sqlite_invar d1"
    using sq.reap_ok [OF Cons.prems(1), of f now d1] sq.reap_err [of f now d _ d1] 1 Cons.prems(1) by (cases err) (auto simp: s)
  with Cons.IH [OF this 2(1)] Cons.prems sqlite_Reap_result [OF Cons.prems(1), of f now] 1 show ?case
    by (cases i) (auto simp: 2(2) t)
qed simp

text \<open>
  C33 (the reaper removes exactly what has expired). Over any run of the reaper on the SQLite
  store, with any failures: it does not panic, and afterwards exactly those rows are gone that
  had reached their expiry at a tick whose sweep the database carried out. A sweep that fails
  removes nothing, and a later one makes up for it.
\<close>

theorem reaper_removes_expired:
  assumes "0 < rp_interval r" and "rp_store r = sqlite_store" and "sqlite_invar d"
  shows "\<exists>errs d'. Run r ticks d = Ret (errs, d') \<and> sqlite_invar d' \<and>
     db_rows d' = filter (\<lambda>q. \<forall>(f, now) \<in> set ticks. f ReapExec = None \<longrightarrow> Unix now < expires_at q) (db_rows d)"
proof -
  obtain errs d' where l: "reap_loop sqlite_store ticks d = (errs, d')" by fastforce
  have e: "(\<forall>i < length ticks. errs ! i = None \<longrightarrow> Unix (snd (ticks ! i)) < expires_at q) \<longleftrightarrow>
      (\<forall>(f, now) \<in> set ticks. f ReapExec = None \<longrightarrow> Unix now < expires_at q)" for q
    by (simp add: all_set_conv_all_nth case_prod_beta reap_loop_results [OF assms(3) l] cong: imp_cong)
  from sq.reap_loop_rows [OF assms(3) l, unfolded e] assms(1,2) l show ?thesis by (simp add: Run_def)
qed

text \<open>A failed sweep, then one at 6 s: the row that expires at 5 s goes, the later one stays.\<close>

definition two_rows :: db where
  "two_rows = sample_db\<lparr>inbox := Some (fresh_inbox\<lparr>trows := [\<lparr>row_id = 1, recipient = sample_key, envelope = [4], expires_at = 5\<rparr>,
     \<lparr>row_id = 2, recipient = sample_key, envelope = [6], expires_at = 7\<rparr>], seq := 2\<rparr>)\<rparr>"

theorem reaper_removes_expired_witness:
  "\<exists>errs d'. Run (NewReaper sqlite_store 1) [(\<lambda>s. Some EOF, 9000000000), (no_faults, 6000000000)] two_rows = Ret (errs, d') \<and>
     map row_id (db_rows d') = [2]"
proof -
  have i: "sqlite_invar two_rows"
    by (simp add: two_rows_def sample_db_def sqlite_invar_def fresh_inbox_def table_ok_def)
  have "db_rows two_rows = [\<lparr>row_id = 1, recipient = sample_key, envelope = [4], expires_at = 5\<rparr>,
     \<lparr>row_id = 2, recipient = sample_key, envelope = [6], expires_at = 7\<rparr>]"
    by (simp add: two_rows_def db_rows_def)
  with reaper_removes_expired [OF _ _ i, of "NewReaper sqlite_store 1" "[(\<lambda>s. Some EOF, 9000000000), (no_faults, 6000000000)]"]
  show ?thesis by (auto simp: NewReaper_def no_faults_def Unix_def)
qed

end
