(* ===== verification/Frame.thy ===== *)
theory Frame
  imports Relay_Prelude
begin

text \<open>
  The application framing of \<open>internal/session/frame.go\<close>: the frame types, the reason codes
  of Error frames, the encoder \<open>Frame\<close>, the decoder \<open>Parse\<close> with its 32-bit length
  arithmetic, and the Deliver and DeliverAck bodies.
\<close>

section \<open>Types and constants\<close>

type_synonym MsgType = byte

definition MsgTypePush :: MsgType where [msg_types]: "MsgTypePush = 0x01"
definition MsgTypeDeliver :: MsgType where [msg_types]: "MsgTypeDeliver = 0x02"
definition MsgTypeHeartbeat :: MsgType where [msg_types]: "MsgTypeHeartbeat = 0x03"
definition MsgTypeAck :: MsgType where [msg_types]: "MsgTypeAck = 0x04"
definition MsgTypeError :: MsgType where [msg_types]: "MsgTypeError = 0x05"
definition MsgTypeDeliverAck :: MsgType where [msg_types]: "MsgTypeDeliverAck = 0x06"

type_synonym ErrorReason = byte

definition ReasonTooLarge :: ErrorReason where [msg_types]: "ReasonTooLarge = 0x01"
definition ReasonMalformed :: ErrorReason where [msg_types]: "ReasonMalformed = 0x02"
definition ReasonInboxFull :: ErrorReason where [msg_types]: "ReasonInboxFull = 0x81"
definition ReasonRateLimited :: ErrorReason where [msg_types]: "ReasonRateLimited = 0x82"
definition ReasonUnavailable :: ErrorReason where [msg_types]: "ReasonUnavailable = 0x83"
definition ReasonInternal :: ErrorReason where [msg_types]: "ReasonInternal = 0x84"

definition Temporary :: "ErrorReason \<Rightarrow> bool" where
  "Temporary r \<longleftrightarrow> r AND 0x80 \<noteq> 0"

section \<open>Operations\<close>

definition Frame :: "MsgType \<Rightarrow> bytes \<Rightarrow> bytes" where
  "Frame t body =
     (let out = replicate (5 + length body) 0;
          l = (of_nat (length body) :: u32);
          out = out[0 := t];
          out = out[1 := byte_at l 3];
          out = out[2 := byte_at l 2];
          out = out[3 := byte_at l 1];
          out = out[4 := byte_at l 0]
      in copy_at out 5 body)"

text \<open>The \<open>switch\<close> of \<open>Parse\<close>: the six frame types it knows.\<close>

definition known_type :: "MsgType \<Rightarrow> bool" where
  "known_type t \<longleftrightarrow>
     t \<in> {MsgTypePush, MsgTypeDeliver, MsgTypeHeartbeat, MsgTypeAck, MsgTypeError, MsgTypeDeliverAck}"

text \<open>The big-endian length field, bytes 1 to 4 of a frame.\<close>

definition frame_len :: "bytes \<Rightarrow> u32" where
  "frame_len raw = put_byte (raw ! 1) 3 OR put_byte (raw ! 2) 2 OR put_byte (raw ! 3) 1 OR put_byte (raw ! 4) 0"

definition Parse :: "bytes \<Rightarrow> (MsgType \<times> bytes \<times> bool) go" where
  "Parse raw =
     (if length raw < 5 then Ret (0, [], False)
      else let t = raw ! 0 in
        if \<not> known_type t then Ret (0, [], False)
        else let l = frame_len raw in
          if (of_nat (length raw) :: u32) < 5 + l then Ret (0, [], False)
          else (case go_slice raw 5 (unat (5 + l)) of
                  Ret body \<Rightarrow> Ret (t, body, True)
                | Panic \<Rightarrow> Panic))"

definition putU64BE :: "bytes \<Rightarrow> u64 \<Rightarrow> bytes" where
  "putU64BE b v =
     b[0 := byte_at v 7, 1 := byte_at v 6, 2 := byte_at v 5, 3 := byte_at v 4,
       4 := byte_at v 3, 5 := byte_at v 2, 6 := byte_at v 1, 7 := byte_at v 0]"

definition getU64BE :: "bytes \<Rightarrow> u64" where
  "getU64BE b =
     put_byte (b ! 0) 7 OR put_byte (b ! 1) 6 OR put_byte (b ! 2) 5 OR put_byte (b ! 3) 4 OR
     put_byte (b ! 4) 3 OR put_byte (b ! 5) 2 OR put_byte (b ! 6) 1 OR put_byte (b ! 7) 0"

definition EncodeDeliverBody :: "u64 \<Rightarrow> bytes \<Rightarrow> bytes" where
  "EncodeDeliverBody blobID envelope =
     copy_at (putU64BE (replicate (8 + length envelope) 0) blobID) 8 envelope"

definition DecodeDeliverBody :: "bytes \<Rightarrow> u64 \<times> bytes \<times> bool" where
  "DecodeDeliverBody body =
     (if length body < 8 then (0, [], False) else (getU64BE body, drop 8 body, True))"

definition EncodeDeliverAckBody :: "u64 \<Rightarrow> bytes" where
  "EncodeDeliverAckBody blobID = putU64BE (replicate 8 0) blobID"

definition DecodeDeliverAckBody :: "bytes \<Rightarrow> u64 \<times> bool" where
  "DecodeDeliverAckBody body = (if length body < 8 then (0, False) else (getU64BE body, True))"

section \<open>The frame layout\<close>

text \<open>The 5-byte header of a frame, and \<open>Frame\<close> as header followed by body.\<close>

definition header :: "MsgType \<Rightarrow> u32 \<Rightarrow> bytes" where
  "header t l = [t, byte_at l 3, byte_at l 2, byte_at l 1, byte_at l 0]"

lemma length_header [simp]: "length (header t l) = 5"
  by (simp add: header_def)

lemma Frame_eq [wire_defs]: "Frame t body = header t (of_nat (length body)) @ body"
  by (simp add: Frame_def header_def copy_at_exact Let_def list_update_append)

lemma length_Frame [simp]: "length (Frame t body) = 5 + length body"
  by (simp add: Frame_eq)

lemma frame_len_header [simp]: "frame_len (header t l @ rest) = l"
proof (rule bit_word_eqI)
  fix n assume "n < LENGTH(32)"
  then show "bit (frame_len (header t l @ rest)) n \<longleftrightarrow> bit l n"
    by (simp add: frame_len_def header_def bit_or_iff) linarith
qed

text \<open>The eight big-endian bytes of a 64-bit value.\<close>

definition u64be :: "u64 \<Rightarrow> bytes" where
  "u64be v = map (byte_at v) [7, 6, 5, 4, 3, 2, 1, 0]"

lemma length_u64be [simp]: "length (u64be v) = 8"
  by (simp add: u64be_def)

lemma putU64BE_eq: "putU64BE (replicate (8 + n) 0) v = u64be v @ replicate n 0"
  by (simp add: putU64BE_def u64be_def)

lemma EncodeDeliverBody_eq [wire_defs]: "EncodeDeliverBody v env = u64be v @ env"
  by (simp add: EncodeDeliverBody_def putU64BE_eq copy_at_exact del: make_8)

lemma EncodeDeliverAckBody_eq [wire_defs]: "EncodeDeliverAckBody v = u64be v"
  using putU64BE_eq [of 0 v] by (simp add: EncodeDeliverAckBody_def)

lemma getU64BE_u64be [simp]: "getU64BE (u64be v @ rest) = v"
proof (rule bit_word_eqI)
  fix n assume "n < LENGTH(64)"
  then show "bit (getU64BE (u64be v @ rest)) n \<longleftrightarrow> bit v n"
    by (simp add: getU64BE_def u64be_def bit_or_iff) linarith
qed

text \<open>Conversely, five bytes are the header of their own type and length fields.\<close>

lemma byte_at_frame_len:
  "byte_at (frame_len raw) 3 = raw ! 1" "byte_at (frame_len raw) 2 = raw ! 2"
  "byte_at (frame_len raw) 1 = raw ! 3" "byte_at (frame_len raw) 0 = raw ! 4"
  by (rule bit_word_eqI; simp add: frame_len_def bit_or_iff bit_put_byte)+

lemma list_5_nth: "5 \<le> length xs \<Longrightarrow> xs = [xs ! 0, xs ! 1, xs ! 2, xs ! 3, xs ! 4] @ drop 5 xs"
  by (rule nth_equalityI) (auto simp: nth_append less_Suc_eq numeral_eq_Suc nth_Cons split: nat.splits)

lemma header_frame_len: "5 \<le> length raw \<Longrightarrow> raw = header (raw ! 0) (frame_len raw) @ drop 5 raw"
  using list_5_nth [of raw] by (simp add: header_def byte_at_frame_len del: One_nat_def)

lemma list_8_nth:
  "8 \<le> length xs \<Longrightarrow>
     xs = [xs ! 0, xs ! 1, xs ! 2, xs ! 3, xs ! 4, xs ! 5, xs ! 6, xs ! 7] @ drop 8 xs"
  by (rule nth_equalityI) (auto simp: nth_append less_Suc_eq numeral_eq_Suc nth_Cons split: nat.splits)

lemma byte_at_getU64BE:
  "byte_at (getU64BE b) 7 = b ! 0" "byte_at (getU64BE b) 6 = b ! 1"
  "byte_at (getU64BE b) 5 = b ! 2" "byte_at (getU64BE b) 4 = b ! 3"
  "byte_at (getU64BE b) 3 = b ! 4" "byte_at (getU64BE b) 2 = b ! 5"
  "byte_at (getU64BE b) 1 = b ! 6" "byte_at (getU64BE b) 0 = b ! 7"
  by (rule bit_word_eqI; simp add: getU64BE_def bit_or_iff bit_put_byte)+

lemma u64be_getU64BE: "8 \<le> length b \<Longrightarrow> b = u64be (getU64BE b) @ drop 8 b"
  using list_8_nth [of b] by (simp add: u64be_def byte_at_getU64BE del: One_nat_def)

section \<open>Parsing\<close>

text \<open>The 32-bit sum \<open>5 + l\<close> wraps exactly for the five largest lengths.\<close>

lemma unat_5_plus:
  fixes l :: u32
  shows "unat (5 + l) = (if l < 0xFFFFFFFB then unat l + 5 else unat l + 5 - 2 ^ 32)"
proof -
  show ?thesis using unat_u32_less [of l]
    by (auto simp: word_less_nat_alt unat_word_ariths le_mod_geq)
qed

text \<open>One unfolding of \<open>Parse\<close> in terms of the natural-number length.\<close>

lemma Parse_cases:
  assumes "length raw < 2 ^ 32"
  shows "Parse raw =
    (if 5 \<le> length raw \<and> known_type (raw ! 0) then
       (if 0xFFFFFFFB \<le> frame_len raw then Panic
        else if length raw < unat (frame_len raw) + 5 then Ret (0, [], False)
        else Ret (raw ! 0, take (unat (frame_len raw)) (drop 5 raw), True))
     else Ret (0, [], False))"
proof -
  have len: "unat (of_nat (length raw) :: u32) = length raw"
    using assms by (simp add: unat_of_nat)
  show ?thesis using unat_u32_less [of "frame_len raw"]
    by (auto simp: Parse_def Let_def go_slice_def word_less_nat_alt [of _ "5 + _"] len unat_5_plus
        not_le split: go.splits if_splits)
qed

lemma known_type_0: "\<not> known_type 0"
  by (simp add: known_type_def msg_types)

text \<open>A frame of a known type is parsed back, whatever follows it.\<close>

lemma Parse_Frame:
  assumes "known_type t" and short: "length (Frame t body @ rest) < 2 ^ 32"
  shows "Parse (Frame t body @ rest) = Ret (t, body, True)"
proof -
  let ?raw = "Frame t body @ rest"
  have raw: "?raw = header t (of_nat (length body)) @ body @ rest" by (simp add: Frame_eq)
  from short have n: "length body + 5 < 2 ^ 32" by simp
  have hd: "?raw ! 0 = t" by (simp add: raw header_def)
  from n have fl: "frame_len ?raw = of_nat (length body)" "unat (frame_len ?raw) = length body"
    by (simp_all add: raw unat_of_nat)
  from n fl have "\<not> 0xFFFFFFFB \<le> frame_len ?raw"
    by (simp add: word_le_nat_alt)
  moreover from fl have "take (unat (frame_len ?raw)) (drop 5 ?raw) = body"
    by (simp add: raw)
  moreover from fl have "5 \<le> length ?raw" "\<not> length ?raw < unat (frame_len ?raw) + 5"
    by simp_all
  ultimately show ?thesis
    using assms(1) hd unfolding Parse_cases [OF short] by (simp only: if_True if_False simp_thms)
qed

text \<open>
  C1. \<open>Parse\<close> and \<open>Frame\<close> are inverse: on any input shorter than 4 GiB, \<open>Parse\<close> reports
  success with type \<open>t\<close> and body \<open>body\<close> exactly when the type is one of the six known ones
  and the input is the frame of \<open>t\<close> and \<open>body\<close>, possibly followed by further bytes, which
  are ignored.
\<close>

theorem parse_iff_frame:
  assumes "length raw < 2 ^ 32"
  shows "Parse raw = Ret (t, body, True) \<longleftrightarrow> known_type t \<and> (\<exists>rest. raw = Frame t body @ rest)"
proof
  assume "Parse raw = Ret (t, body, True)"
  then have len: "5 \<le> length raw" and t: "known_type (raw ! 0)" "t = raw ! 0"
    and fit: "unat (frame_len raw) + 5 \<le> length raw"
    and body: "body = take (unat (frame_len raw)) (drop 5 raw)"
    by (auto simp: Parse_cases [OF assms] split: if_splits)
  from fit body have "of_nat (length body) = frame_len raw"
    by simp
  then have "raw = Frame t body @ drop (5 + length body) raw"
    using header_frame_len [OF len] t body fit
    by (metis Frame_eq append_assoc append_take_drop_id drop_drop add.commute length_drop
        length_take min.absorb2 le_diff_conv2 len)
  with t show "known_type t \<and> (\<exists>rest. raw = Frame t body @ rest)"
    by auto
next
  assume "known_type t \<and> (\<exists>rest. raw = Frame t body @ rest)"
  with assms show "Parse raw = Ret (t, body, True)" by (auto simp: Parse_Frame)
qed

text \<open>The client's smallest useful frame, a Heartbeat, and a frame with a body and a trailing byte.\<close>

theorem parse_iff_frame_witness:
  "length [1, 0, 0, 0, 2, 7, 8, 9 :: byte] < 2 ^ 32 \<and>
   Parse [1, 0, 0, 0, 2, 7, 8, 9] = Ret (1, [7, 8], True)"
proof -
  have h: "length [1, 0, 0, 0, 2, 7, 8, 9 :: byte] < 2 ^ 32" by simp
  have k: "known_type 1" by (simp add: known_type_def msg_types)
  have "[1, 0, 0, 0, 2, 7, 8, 9 :: byte] = Frame 1 [7, 8] @ [9]"
    by (simp add: Frame_eq header_def byte_at_def)
  then have "\<exists>rest. [1, 0, 0, 0, 2, 7, 8, 9 :: byte] = Frame 1 [7, 8] @ rest" ..
  with k have "Parse [1, 0, 0, 0, 2, 7, 8, 9] = Ret (1, [7, 8], True)"
    unfolding parse_iff_frame [OF h] ..
  with h show ?thesis by blast
qed

text \<open>
  C2. \<open>Parse\<close> panics on exactly the inputs of at least five bytes with a known type whose
  32-bit length field is one of the five values \<open>0xFFFFFFFB .. 0xFFFFFFFF\<close>: there the bound
  \<open>5 + l\<close> wraps around to less than 5, the length check passes, and the slice expression
  \<open>raw[5 : 5+l]\<close> has its bounds reversed. On every other input it returns.
\<close>

theorem parse_panics_iff:
  assumes "length raw < 2 ^ 32"
  shows "Parse raw = Panic \<longleftrightarrow>
    5 \<le> length raw \<and> known_type (raw ! 0) \<and> 0xFFFFFFFB \<le> frame_len raw"
  by (auto simp: Parse_cases [OF assms])

text \<open>The five-byte Push frame \<open>01 FF FF FF FF\<close> makes \<open>Parse\<close> panic.\<close>

theorem parse_panics_iff_witness:
  "length [0x01, 0xFF, 0xFF, 0xFF, 0xFF :: byte] < 2 ^ 32 \<and>
   Parse [0x01, 0xFF, 0xFF, 0xFF, 0xFF] = Panic"
proof -
  have h: "length [0x01, 0xFF, 0xFF, 0xFF, 0xFF :: byte] < 2 ^ 32" by simp
  have "Parse [0x01, 0xFF, 0xFF, 0xFF, 0xFF] = Panic"
    unfolding parse_panics_iff [OF h]
    by (simp add: known_type_def msg_types frame_len_def put_byte_def)
  with h show ?thesis by blast
qed

text \<open>
  The Deliver body codec is exact in both directions: decoding succeeds with a Blob ID and
  an envelope if and only if the body is the encoding of that pair.
\<close>

lemma deliver_body_iff:
  "DecodeDeliverBody body = (blobID, envelope, True) \<longleftrightarrow> body = EncodeDeliverBody blobID envelope"
proof
  assume "DecodeDeliverBody body = (blobID, envelope, True)"
  then show "body = EncodeDeliverBody blobID envelope"
    using u64be_getU64BE [of body] by (auto simp: DecodeDeliverBody_def EncodeDeliverBody_eq split: if_splits)
next
  assume "body = EncodeDeliverBody blobID envelope"
  then show "DecodeDeliverBody body = (blobID, envelope, True)"
    by (simp add: DecodeDeliverBody_def EncodeDeliverBody_eq)
qed

text \<open>The DeliverAck body codec; bytes after the eighth are ignored.\<close>

lemma deliver_ack_body_iff:
  "DecodeDeliverAckBody body = (blobID, True) \<longleftrightarrow> (\<exists>rest. body = EncodeDeliverAckBody blobID @ rest)"
proof
  assume "DecodeDeliverAckBody body = (blobID, True)"
  then show "\<exists>rest. body = EncodeDeliverAckBody blobID @ rest"
    using u64be_getU64BE [of body]
    by (auto simp: DecodeDeliverAckBody_def EncodeDeliverAckBody_eq split: if_splits)
next
  assume "\<exists>rest. body = EncodeDeliverAckBody blobID @ rest"
  then show "DecodeDeliverAckBody body = (blobID, True)"
    by (auto simp: DecodeDeliverAckBody_def EncodeDeliverAckBody_eq)
qed

end
