(* ===== verification/Transport.thy ===== *)
theory Transport
  imports Go_Errors
begin

text \<open>
  The connection and its outer framing: \<open>internal/session/transport.go\<close> (the length-prefixed
  messages that carry Noise ciphertext) and \<open>internal/session/version.go\<close> (the plaintext
  Transport Version exchange that precedes the handshake).
\<close>

section \<open>A connection\<close>

text \<open>
  The relay's end of a \<open>net.Conn\<close>: the bytes still to arrive, the error a read reports once
  they are used up (end of file, a deadline, a local close), the writes that completed, one
  list element per \<open>Write\<close> call, and which write calls fail.
\<close>

record conn =
  inb :: bytes
  fin :: go_err
  outs :: "bytes list"
  wfail :: "nat \<Rightarrow> go_err option"

text \<open>
  \<open>io.ReadFull\<close> into a buffer of \<open>n\<close> bytes: end of file is reported as \<open>io.EOF\<close> only when no
  byte was read, and as \<open>io.ErrUnexpectedEOF\<close> after a partial read.
\<close>

definition ReadFull :: "nat \<Rightarrow> conn \<Rightarrow> (go_err + bytes) \<times> conn" where
  "ReadFull n c =
     (if n \<le> length (inb c) then (Inr (take n (inb c)), c\<lparr>inb := drop n (inb c)\<rparr>)
      else (Inl (if inb c \<noteq> [] \<and> fin c = EOF then UnexpectedEOF else fin c), c\<lparr>inb := []\<rparr>))"

definition conn_Write :: "bytes \<Rightarrow> conn \<Rightarrow> go_err option \<times> conn" where
  "conn_Write b c =
     (case wfail c (length (outs c)) of
        Some e \<Rightarrow> (Some e, c)
      | None \<Rightarrow> (None, c\<lparr>outs := outs c @ [b]\<rparr>))"

section \<open>Length-prefixed messages\<close>

definition u16be :: "u16 \<Rightarrow> bytes" where
  "u16be v = [byte_at v 1, byte_at v 0]"

definition get_u16be :: "bytes \<Rightarrow> u16" where
  "get_u16be b = put_byte (b ! 0) 1 OR put_byte (b ! 1) 0"

text \<open>The buffer \<open>writeNoiseMsg\<close> builds: \<open>uint16(len(msg))\<close> truncates to 16 bits.\<close>

definition noise_msg :: "bytes \<Rightarrow> bytes" where
  "noise_msg msg =
     copy_at (copy_at (replicate (2 + length msg) 0) 0 (u16be (of_nat (length msg)))) 2 msg"

definition writeNoiseMsg :: "conn \<Rightarrow> bytes \<Rightarrow> go_err option \<times> conn" where
  "writeNoiseMsg c msg = conn_Write (noise_msg msg) c"

definition readNoiseMsg :: "conn \<Rightarrow> (go_err + bytes) \<times> conn" where
  "readNoiseMsg c =
     (case ReadFull 2 c of
        (Inl e, c) \<Rightarrow> (Inl e, c)
      | (Inr lenbuf, c) \<Rightarrow> ReadFull (unat (get_u16be lenbuf)) c)"

section \<open>Error classification\<close>

definition isClosedErr :: "go_err option \<Rightarrow> bool" where
  "isClosedErr err =
     (case err of
        None \<Rightarrow> False
      | Some e \<Rightarrow>
          if errors_Is e NetErrClosed \<or> errors_Is e ErrClosedPipe then True
          else let s = Error_msg e in
            contains s ''use of closed network connection'' \<or>
            contains s ''broken pipe'' \<or>
            contains s ''connection reset'')"

definition isTimeoutErr :: "go_err option \<Rightarrow> bool" where
  "isTimeoutErr err =
     (case err of None \<Rightarrow> False | Some e \<Rightarrow> as_net_Error e = Some True)"

definition formatErr :: "string \<Rightarrow> go_err \<Rightarrow> go_err" where
  "formatErr op err = Wrapped (op @ '': '') err []"

section \<open>Transport Version exchange\<close>

definition TransportVersion :: u16 where "TransportVersion = 1"
definition MinTransportVersion :: u16 where "MinTransportVersion = TransportVersion"
definition MaxTransportVersion :: u16 where "MaxTransportVersion = TransportVersion"
definition transportPrefixLen :: nat where "transportPrefixLen = 5"
definition replySupported :: byte where "replySupported = 0x01"
definition prefixMagic :: bytes where "prefixMagic = map of_char ''TSP''"

definition refusal_line :: bytes where
  "refusal_line = map of_char
     (''unsupported '' @ dec_digits (unat MinTransportVersion) @ ''..'' @ dec_digits (unat MaxTransportVersion) @ [CHR 0x0A])"

definition exchangeTransportVersion :: "conn \<Rightarrow> (go_err + bytes) \<times> conn" where
  "exchangeTransportVersion c =
     (case ReadFull transportPrefixLen c of
        (Inl e, c) \<Rightarrow> (Inl e, c)
      | (Inr prefix, c) \<Rightarrow>
          if take 3 prefix = prefixMagic \<and>
             get_u16be (drop 3 prefix) \<ge> MinTransportVersion \<and>
             get_u16be (drop 3 prefix) \<le> MaxTransportVersion
          then (case conn_Write [replySupported] c of
                  (Some e, c) \<Rightarrow> (Inl e, c)
                | (None, c) \<Rightarrow> (Inr prefix, c))
          else (Inl (VersionRefusalError MinTransportVersion MaxTransportVersion),
                snd (conn_Write refusal_line c)))"

section \<open>Reading what was written\<close>

lemma length_u16be [simp]: "length (u16be v) = 2"
  by (simp add: u16be_def)

lemma get_u16be_u16be [simp]: "get_u16be (u16be v) = v"
proof (rule bit_word_eqI)
  fix n assume "n < LENGTH(16)"
  then show "bit (get_u16be (u16be v)) n \<longleftrightarrow> bit v n"
    by (simp add: get_u16be_def u16be_def bit_or_iff) linarith
qed

lemma u16be_get_u16be:
  assumes "length b = 2"
  shows "u16be (get_u16be b) = b"
proof -
  from assms have b: "b = [b ! 0, b ! 1]"
    by (auto simp: numeral_2_eq_2 length_Suc_conv)
  have "byte_at (get_u16be b) 1 = b ! 0" "byte_at (get_u16be b) 0 = b ! 1"
    by (rule bit_word_eqI; simp add: get_u16be_def bit_or_iff bit_put_byte)+
  with b show ?thesis by (simp add: u16be_def del: One_nat_def)
qed

lemma noise_msg_eq [wire_defs]: "noise_msg msg = u16be (of_nat (length msg)) @ msg"
  by (simp add: noise_msg_def copy_at_def)

lemma ReadFull_append:
  "ReadFull n (c\<lparr>inb := b @ rest\<rparr>) = (Inr b, c\<lparr>inb := rest\<rparr>)" if "length b = n"
  using that by (simp add: ReadFull_def)

lemma ReadFull_short:
  "length (inb c) < n \<Longrightarrow>
     ReadFull n c = (Inl (if inb c \<noteq> [] \<and> fin c = EOF then UnexpectedEOF else fin c), c\<lparr>inb := []\<rparr>)"
  by (simp add: ReadFull_def)

lemma readNoiseMsg_framed:
  "readNoiseMsg (c\<lparr>inb := u16be n @ rest\<rparr>) = ReadFull (unat n) (c\<lparr>inb := rest\<rparr>)"
  by (simp add: readNoiseMsg_def ReadFull_append)

lemma unat_len16: "unat (of_nat (length msg) :: u16) = length msg mod 65536"
  by (simp add: unat_of_nat)

text \<open>
  C4. What \<open>readNoiseMsg\<close> gets from the bytes \<open>writeNoiseMsg\<close> puts on the wire: the message,
  cut to its length modulo 65536, with everything after it left unread. A message of at most
  65535 bytes is therefore read back whole and the stream stays in step; a longer one is cut
  and its tail is taken for the next length prefix.
\<close>

theorem read_written_noise_msg:
  "readNoiseMsg (c\<lparr>inb := noise_msg msg @ rest\<rparr>) =
     (Inr (take (length msg mod 65536) msg), c\<lparr>inb := drop (length msg mod 65536) msg @ rest\<rparr>)"
  by (simp add: noise_msg_eq readNoiseMsg_framed ReadFull_def unat_len16)

corollary read_written_noise_msg_fits:
  "length msg \<le> 65535 \<Longrightarrow> readNoiseMsg (c\<lparr>inb := noise_msg msg @ rest\<rparr>) = (Inr msg, c\<lparr>inb := rest\<rparr>)"
  by (simp add: noise_msg_eq readNoiseMsg_framed ReadFull_def unat_len16)

text \<open>Every successful read consumes its two length bytes and its body, in one piece.\<close>

lemma readNoiseMsg_Inr:
  "readNoiseMsg c = (Inr msg, c') \<Longrightarrow> inb c = noise_msg msg @ inb c' \<and> length msg \<le> 65535 \<and> c' = c\<lparr>inb := inb c'\<rparr>"
proof -
  assume r: "readNoiseMsg c = (Inr msg, c')"
  then have two: "2 \<le> length (inb c)"
    by (auto simp: readNoiseMsg_def ReadFull_def split: if_splits)
  define n where "n = get_u16be (take 2 (inb c))"
  define r2 where "r2 = drop 2 (inb c)"
  have inb: "inb c = u16be n @ r2"
    using two by (simp add: n_def r2_def u16be_get_u16be)
  have "unat n < 2 ^ LENGTH(16)" by (rule unsigned_less)
  then have n: "unat n \<le> 65535" by simp
  have "readNoiseMsg (c\<lparr>inb := u16be n @ r2\<rparr>) = (Inr msg, c')"
    using r inb by (metis conn.surjective conn.update_convs(1))
  then have "unat n \<le> length r2" "msg = take (unat n) r2" "c' = c\<lparr>inb := drop (unat n) r2\<rparr>"
    by (auto simp: readNoiseMsg_framed ReadFull_def split: if_splits)
  moreover from this have "of_nat (length msg) = n" by simp
  ultimately show ?thesis
    using n inb by (auto simp: noise_msg_eq)
qed

lemma readNoiseMsg_shrinks: "readNoiseMsg c = (Inr msg, c') \<Longrightarrow> length (inb c') + 2 \<le> length (inb c)"
  by (drule readNoiseMsg_Inr) (auto simp: noise_msg_eq dest: arg_cong [where f = length])

text \<open>
  C5. The version exchange decides on the first five bytes alone. Fewer than five: the read
  error is returned and nothing is written. Exactly \<open>TSP\<close> followed by version 1: the accept
  byte is the only write and those five bytes are returned, to be bound as the Noise prologue.
  Anything else: one refusal line is attempted and the refusal error returned.
\<close>

theorem exchange_decides:
  "exchangeTransportVersion c =
     (if length (inb c) < 5
      then (Inl (if inb c \<noteq> [] \<and> fin c = EOF then UnexpectedEOF else fin c), c\<lparr>inb := []\<rparr>)
      else if take 5 (inb c) = [0x54, 0x53, 0x50, 0x00, 0x01]
      then (case wfail c (length (outs c)) of
              Some e \<Rightarrow> (Inl e, c\<lparr>inb := drop 5 (inb c)\<rparr>)
            | None \<Rightarrow> (Inr [0x54, 0x53, 0x50, 0x00, 0x01],
                       c\<lparr>inb := drop 5 (inb c), outs := outs c @ [[0x01]]\<rparr>))
      else (Inl (VersionRefusalError 1 1),
            case wfail c (length (outs c)) of
              Some e \<Rightarrow> c\<lparr>inb := drop 5 (inb c)\<rparr>
            | None \<Rightarrow> c\<lparr>inb := drop 5 (inb c),
                        outs := outs c @ [map of_char (''unsupported 1..1'' @ [CHR 0x0A])]\<rparr>))"
proof (cases "length (inb c) < 5")
  case True
  then show ?thesis
    by (simp add: exchangeTransportVersion_def transportPrefixLen_def ReadFull_short)
next
  case False
  define p where "p = take 5 (inb c)"
  from False have len: "length p = 5" by (simp add: p_def)
  have "get_u16be (drop 3 p) = 1 \<longleftrightarrow> drop 3 p = u16be 1"
    using len u16be_get_u16be [of "drop 3 p"] by auto
  then have v: "MinTransportVersion \<le> get_u16be (drop 3 p) \<and> get_u16be (drop 3 p) \<le> MaxTransportVersion
      \<longleftrightarrow> drop 3 p = [0, 1]"
    by (auto simp: MinTransportVersion_def MaxTransportVersion_def TransportVersion_def u16be_def byte_at_def)
  have acc: "take 3 p = prefixMagic \<and> drop 3 p = [0, 1] \<longleftrightarrow> p = [0x54, 0x53, 0x50, 0x00, 0x01]"
  proof
    assume "take 3 p = prefixMagic \<and> drop 3 p = [0, 1]"
    then have "p = prefixMagic @ [0, 1]" using append_take_drop_id [of 3 p] by simp
    then show "p = [0x54, 0x53, 0x50, 0x00, 0x01]" by (simp add: prefixMagic_def)
  qed (simp add: prefixMagic_def)
  have "dec_digits 1 = ''1''" by code_simp
  then have line: "refusal_line = map of_char (''unsupported 1..1'' @ [CHR 0x0A])"
    by (simp add: refusal_line_def MinTransportVersion_def MaxTransportVersion_def TransportVersion_def
        del: One_nat_def)
  have rd: "ReadFull transportPrefixLen c = (Inr p, c\<lparr>inb := drop 5 (inb c)\<rparr>)"
    using False by (simp add: ReadFull_def transportPrefixLen_def p_def)
  have cond: "(take 3 p = prefixMagic \<and> MinTransportVersion \<le> get_u16be (drop 3 p) \<and>
      get_u16be (drop 3 p) \<le> MaxTransportVersion) \<longleftrightarrow> p = [0x54, 0x53, 0x50, 0x00, 0x01]"
    using v acc by blast
  show ?thesis
    unfolding exchangeTransportVersion_def rd prod.case sum.case cond conn_Write_def line
    using False
    by (simp add: replySupported_def p_def [symmetric] MinTransportVersion_def MaxTransportVersion_def
        TransportVersion_def split: option.splits)
qed

end
