(* ===== verification/Server.thy ===== *)
theory Server
  imports Config Reaper Frame Transport
begin

text \<open>
  The process around the sessions, \<open>cmd/trueseal-relay/server.go\<close> and the parts of \<open>main.go\<close> it
  uses: the rate-limited error log, the accept loops with their connection semaphores, the health
  endpoint, and the shutdown sequence. The goroutines (two accept loops, the sessions, the reaper,
  the goroutine in \<open>shutdown\<close>) are interleaved by a step relation; a wait with a timeout is a
  choice between its two outcomes.
\<close>

section \<open>The session error log\<close>

text \<open>The class of a session error, by inspection of its chain.\<close>

definition classifySessionErr :: "go_err \<Rightarrow> string" where
  "classifySessionErr err =
     (if as_net_Error err = Some True then ''timeout''
      else if errors_Is err ECONNRESET \<or> errors_Is err EPIPE then ''reset''
      else if errors_Is err EOF \<or> errors_Is err UnexpectedEOF \<or> errors_Is err NetErrClosed then ''closed''
      else ''internal'')"

record sessionErrorLog =
  el_last :: "string \<rightharpoonup> int"
  el_suppressed :: "string \<Rightarrow> int"

definition newSessionErrorLog :: sessionErrorLog where
  "newSessionErrorLog = \<lparr>el_last = Map.empty, el_suppressed = (\<lambda>_. 0)\<rparr>"

definition sessionErrorLogInterval :: int where "sessionErrorLogInterval = 60 * second"

text \<open>A line of the log: when it was printed, its kind and class, and the count it carries.\<close>

record log_line =
  line_at :: int
  line_kind :: string
  line_class :: string
  line_count :: int

definition line_text :: "log_line \<Rightarrow> string" where
  "line_text l =
     (if line_count l > 1
      then line_kind l @ '' session error ('' @ line_class l @ '', '' @ fmt_d (line_count l) @ '' since last report)''
      else line_kind l @ '' session error ('' @ line_class l @ '')'')"

definition logf :: "int \<Rightarrow> string \<Rightarrow> go_err \<Rightarrow> sessionErrorLog \<Rightarrow> log_line option \<times> sessionErrorLog" where
  "logf now kind err l =
     (let n = el_suppressed l kind + 1;
          l1 = l\<lparr>el_suppressed := (el_suppressed l)(kind := n)\<rparr>
      in if (case el_last l kind of None \<Rightarrow> False | Some last' \<Rightarrow> now - last' < sessionErrorLogInterval) then (None, l1)
         else (Some \<lparr>line_at = now, line_kind = kind, line_class = classifySessionErr err, line_count = n\<rparr>,
               l1\<lparr>el_suppressed := (el_suppressed l1)(kind := 0), el_last := (el_last l1)(kind \<mapsto> now)\<rparr>))"

text \<open>A history of calls, with the clock each one reads, and the lines it prints.\<close>

type_synonym log_call = "int \<times> string \<times> go_err"

fun log_run :: "log_call list \<Rightarrow> sessionErrorLog \<Rightarrow> log_line list \<times> sessionErrorLog" where
  "log_run [] l = ([], l)"
| "log_run ((now, kind, err) # cs) l =
     (case logf now kind err l of (x, l1) \<Rightarrow>
       (case log_run cs l1 of (xs, l2) \<Rightarrow> (case x of None \<Rightarrow> xs | Some y \<Rightarrow> y # xs, l2)))"

abbreviation of_kind :: "string \<Rightarrow> log_line list \<Rightarrow> log_line list" where
  "of_kind k \<equiv> filter (\<lambda>x. line_kind x = k)"

text \<open>What holds of the lines printed from state \<open>l\<close> on.\<close>

lemma log_run_from:
  assumes "log_run cs l = (xs, l')"
  shows "successively (\<lambda>a b. line_at a + sessionErrorLogInterval \<le> line_at b) (of_kind k xs) \<and>
    (\<forall>t x. el_last l k = Some t \<longrightarrow> x \<in> set (take 1 (of_kind k xs)) \<longrightarrow> t + sessionErrorLogInterval \<le> line_at x) \<and>
    sum_list (map line_count (of_kind k xs)) + el_suppressed l' k = el_suppressed l k + int (length (filter (\<lambda>(now, kind, err). kind = k) cs))"
  using assms
proof (induction cs arbitrary: l xs)
  case (Cons c cs)
  obtain now kind err where c: "c = (now, kind, err)" by (cases c)
  obtain x l1 where 1: "logf now kind err l = (x, l1)" by fastforce
  obtain ys where 2: "log_run cs l1 = (ys, l')" "xs = (case x of None \<Rightarrow> ys | Some y \<Rightarrow> y # ys)"
    using Cons.prems by (auto simp: c 1 split: prod.splits)
  note IH = Cons.IH [OF 2(1)]
  show ?case
  proof (cases "kind = k")
    case True
    show ?thesis
    proof (cases x)
      case None
      with 1 True have "el_last l1 k = el_last l k" "el_suppressed l1 k = el_suppressed l k + 1"
        by (auto simp: logf_def Let_def split: if_splits option.splits)
      with IH None True show ?thesis by (simp add: 2(2) c)
    next
      case (Some y)
      with 1 True have y: "line_kind y = k" "line_at y = now" "line_count y = el_suppressed l k + 1" "el_last l1 k = Some now"
          "el_suppressed l1 k = 0" "\<And>t. el_last l k = Some t \<Longrightarrow> t + sessionErrorLogInterval \<le> now"
        by (auto simp: logf_def Let_def split: if_splits option.splits)
      with IH Some True show ?thesis
        by (cases "of_kind k ys") (auto simp: 2(2) c)
    qed
  next
    case False
    with 1 have "el_last l1 k = el_last l k" "el_suppressed l1 k = el_suppressed l k" "\<And>y. x = Some y \<Longrightarrow> line_kind y \<noteq> k"
      by (auto simp: logf_def Let_def split: if_splits option.splits)
    with IH False show ?thesis by (cases x) (simp_all add: 2(2) c)
  qed
qed simp

text \<open>
  C34 (a scanner cannot flood the log, and nothing goes uncounted). Whatever session errors
  occur, whenever: two lines of the same kind are at least a minute apart, and the counts on the
  printed lines of a kind together with the number still suppressed are exactly the errors of
  that kind.
\<close>

theorem error_log_bounded:
  "successively (\<lambda>a b. line_at a + sessionErrorLogInterval \<le> line_at b) (of_kind k (fst (log_run cs newSessionErrorLog))) \<and>
   sum_list (map line_count (of_kind k (fst (log_run cs newSessionErrorLog)))) + el_suppressed (snd (log_run cs newSessionErrorLog)) k =
     int (length (filter (\<lambda>(now, kind, err). kind = k) cs))"
  using log_run_from [of cs newSessionErrorLog _ _ k, OF prod.collapse [symmetric]]
  by (simp add: newSessionErrorLog_def)

section \<open>Listeners and sessions\<close>

text \<open>
  One kind of session, push or receive: its semaphore (\<open>None\<close> for the nil channel, otherwise its
  capacity) and the slots taken, whether the listener is open and the accept loop runs, the
  session goroutines its WaitGroup counts, whether its context is cancelled, and the counter of
  refused connections.
\<close>

record side =
  sem :: "int option"
  sem_used :: int
  ln_open :: bool
  loop_running :: bool
  live :: int
  cancelled :: bool
  refused :: int

datatype kind = Push | Receive

fun kind_name :: "kind \<Rightarrow> string" where
  "kind_name Push = ''push''"
| "kind_name Receive = ''receive''"

text \<open>
  The server. \<open>phase\<close> counts the steps of \<open>shutdown\<close> that are done; the three outcomes say how
  its bounded waits ended: whether the pushes drained within the budget, whether every session
  stopped within the hard grace, whether the reaper stopped in time.
\<close>

record server =
  deadlines :: "int \<times> int \<times> int \<times> int"
  drain :: int
  sides :: "kind \<Rightarrow> side"
  health_up :: bool
  reaper_running :: bool
  reaper_cancelled :: bool
  errLog :: sessionErrorLog
  phase :: nat
  pushes_drained :: "bool option"
  sessions_stopped :: "bool option"
  reaper_stopped :: "bool option"

definition newServer :: "RelayConfig \<Rightarrow> server" where
  "newServer cfg =
     (let x = \<lparr>sem = (if cfg_MaxConnections cfg > 0 then Some (cfg_MaxConnections cfg) else None), sem_used = 0,
               ln_open = False, loop_running = False, live = 0, cancelled = False, refused = 0\<rparr>
      in \<lparr>deadlines = (cfg_HandshakeDeadline cfg, cfg_PushSessionDeadline cfg, cfg_ReceiveIdleDeadline cfg, cfg_WriteDeadline cfg),
          drain = cfg_ShutdownDrain cfg, sides = (\<lambda>k. x), health_up = False, reaper_running = False, reaper_cancelled = False,
          errLog = newSessionErrorLog, phase = 0, pushes_drained = None, sessions_stopped = None, reaper_stopped = None\<rparr>)"

definition set_side :: "kind \<Rightarrow> (side \<Rightarrow> side) \<Rightarrow> server \<Rightarrow> server" where
  "set_side k f s = s\<lparr>sides := (sides s)(k := f (sides s k))\<rparr>"

text \<open>\<open>start\<close>, given what the two \<open>net.Listen\<close> calls return: an error leaves no listener open.\<close>

definition start :: "go_err option \<Rightarrow> go_err option \<Rightarrow> server \<Rightarrow> go_err option \<times> server" where
  "start push_err recv_err s =
     (case push_err of
        Some e \<Rightarrow> (Some e, s)
      | None \<Rightarrow>
          (let s = set_side Push (\<lambda>x. x\<lparr>ln_open := True\<rparr>) s in
           case recv_err of
             Some e \<Rightarrow> (Some e, set_side Push (\<lambda>x. x\<lparr>ln_open := False\<rparr>) s)
           | None \<Rightarrow>
               (let s = set_side Receive (\<lambda>x. x\<lparr>ln_open := True\<rparr>) s;
                    s = s\<lparr>health_up := True, reaper_running := True\<rparr>
                in (None, set_side Push (\<lambda>x. x\<lparr>loop_running := True\<rparr>) (set_side Receive (\<lambda>x. x\<lparr>loop_running := True\<rparr>) s)))))"

text \<open>The body of \<open>acceptLoop\<close> on an accepted connection: is it served, and the new state.\<close>

definition accept_conn :: "side \<Rightarrow> bool \<times> side" where
  "accept_conn x =
     (case sem x of
        Some c \<Rightarrow>
          if sem_used x < c then (True, x\<lparr>sem_used := sem_used x + 1, live := live x + 1\<rparr>)
          else (False, x\<lparr>refused := refused x + 1\<rparr>)
      | None \<Rightarrow> (True, x\<lparr>live := live x + 1\<rparr>))"

text \<open>
  The end of a session goroutine: its deferred calls give back the slot and then leave the
  WaitGroup. They are one step here, so \<open>live\<close> counts the sessions that are still being served; the
  goroutine does nothing in between.
\<close>

definition session_exit :: "side \<Rightarrow> side" where
  "session_exit x = (case sem x of Some c \<Rightarrow> x\<lparr>sem_used := sem_used x - 1, live := live x - 1\<rparr> | None \<Rightarrow> x\<lparr>live := live x - 1\<rparr>)"

text \<open>An error is logged unless the session's context is done.\<close>

definition report :: "int \<Rightarrow> kind \<Rightarrow> go_err option \<Rightarrow> server \<Rightarrow> server" where
  "report now k err s =
     (case err of
        Some e \<Rightarrow> if cancelled (sides s k) then s else s\<lparr>errLog := snd (logf now (kind_name k) e (errLog s))\<rparr>
      | None \<Rightarrow> s)"

section \<open>Steps\<close>

text \<open>
  The accept loops end at the first error of \<open>Accept\<close>, which a closed listener always returns
  and an open one may; a connection accepted just before the close may still be served. A
  session ends with any result at any time. The rules \<open>d_\<close> are the successive statements of
  \<open>shutdown\<close>; \<open>d_drained\<close>, \<open>d_stopped\<close> and \<open>d_reaper\<close> wait for an event or a timer.
\<close>

inductive sstep :: "server \<Rightarrow> server \<Rightarrow> bool" where
  s_accept: "loop_running (sides s k) \<Longrightarrow> sstep s (set_side k (\<lambda>x. snd (accept_conn x)) s)"
| s_accept_error: "loop_running (sides s k) \<Longrightarrow> sstep s (set_side k (\<lambda>x. x\<lparr>loop_running := False\<rparr>) s)"
| s_session_exit: "live (sides s k) > 0 \<Longrightarrow> sstep s (set_side k session_exit (report now k err s))"
| s_reaper_exit: "reaper_cancelled s \<Longrightarrow> sstep s (s\<lparr>reaper_running := False\<rparr>)"
| d_health: "phase s = 0 \<Longrightarrow> sstep s (s\<lparr>health_up := False, phase := 1\<rparr>)"
| d_close_push: "phase s = 1 \<Longrightarrow> sstep s ((set_side Push (\<lambda>x. x\<lparr>ln_open := False\<rparr>) s)\<lparr>phase := 2\<rparr>)"
| d_close_recv: "phase s = 2 \<Longrightarrow> sstep s ((set_side Receive (\<lambda>x. x\<lparr>ln_open := False\<rparr>) s)\<lparr>phase := 3\<rparr>)"
| d_accepts: "phase s = 3 \<Longrightarrow> \<not> loop_running (sides s Push) \<Longrightarrow> \<not> loop_running (sides s Receive) \<Longrightarrow> sstep s (s\<lparr>phase := 4\<rparr>)"
| d_drained: "phase s = 4 \<Longrightarrow> b \<longrightarrow> live (sides s Push) = 0 \<Longrightarrow> sstep s (s\<lparr>phase := 5, pushes_drained := Some b\<rparr>)"
| d_cancel_recv: "phase s = 5 \<Longrightarrow> sstep s ((set_side Receive (\<lambda>x. x\<lparr>cancelled := True\<rparr>) s)\<lparr>phase := 6\<rparr>)"
| d_cancel_push: "phase s = 6 \<Longrightarrow> sstep s ((set_side Push (\<lambda>x. x\<lparr>cancelled := True\<rparr>) s)\<lparr>phase := 7\<rparr>)"
| d_stopped: "phase s = 7 \<Longrightarrow> b \<longrightarrow> live (sides s Push) = 0 \<and> live (sides s Receive) = 0 \<Longrightarrow>
    sstep s (s\<lparr>phase := 8, sessions_stopped := Some b\<rparr>)"
| d_cancel_reaper: "phase s = 8 \<Longrightarrow> sstep s (s\<lparr>reaper_cancelled := True, phase := 9\<rparr>)"
| d_reaper: "phase s = 9 \<Longrightarrow> b \<longrightarrow> \<not> reaper_running s \<Longrightarrow> sstep s (s\<lparr>phase := 10, reaper_stopped := Some b\<rparr>)"

text \<open>The states of a started server; \<open>shutdown\<close> has returned in phase 10.\<close>

inductive running_server :: "RelayConfig \<Rightarrow> server \<Rightarrow> bool" for cfg where
  started: "start None None (newServer cfg) = (None, s) \<Longrightarrow> running_server cfg s"
| stepped: "running_server cfg s \<Longrightarrow> sstep s s' \<Longrightarrow> running_server cfg s'"

section \<open>The connection cap\<close>

definition side_ok :: "RelayConfig \<Rightarrow> side \<Rightarrow> bool" where
  "side_ok cfg x \<longleftrightarrow> sem x = (if cfg_MaxConnections cfg > 0 then Some (cfg_MaxConnections cfg) else None) \<and> 0 \<le> live x \<and>
     (cfg_MaxConnections cfg > 0 \<longrightarrow> sem_used x = live x \<and> live x \<le> cfg_MaxConnections cfg)"

lemma sides_set_side [simp]: "sides (set_side k f s) j = (if j = k then f (sides s k) else sides s j)"
  by (simp add: set_side_def)

lemma set_side_frame [simp]:
  "phase (set_side k f s) = phase s" "health_up (set_side k f s) = health_up s" "pushes_drained (set_side k f s) = pushes_drained s"
  "sessions_stopped (set_side k f s) = sessions_stopped s" "reaper_stopped (set_side k f s) = reaper_stopped s"
  "reaper_running (set_side k f s) = reaper_running s" "reaper_cancelled (set_side k f s) = reaper_cancelled s"
  by (simp_all add: set_side_def)

lemma report_frame [simp]:
  "sides (report now k err s) = sides s" "phase (report now k err s) = phase s" "health_up (report now k err s) = health_up s"
  "pushes_drained (report now k err s) = pushes_drained s" "sessions_stopped (report now k err s) = sessions_stopped s"
  "reaper_stopped (report now k err s) = reaper_stopped s" "reaper_running (report now k err s) = reaper_running s"
  "reaper_cancelled (report now k err s) = reaper_cancelled s"
  by (simp_all add: report_def split: option.split)

lemma started_sides:
  assumes "start None None (newServer cfg) = (None, s)"
  shows "sides s k = \<lparr>sem = (if cfg_MaxConnections cfg > 0 then Some (cfg_MaxConnections cfg) else None), sem_used = 0,
    ln_open = True, loop_running = True, live = 0, cancelled = False, refused = 0\<rparr>"
  using assms by (cases k) (auto simp: start_def newServer_def set_side_def Let_def)

lemma side_ok_accept: "side_ok cfg x \<Longrightarrow> side_ok cfg (snd (accept_conn x))"
  by (auto simp: side_ok_def accept_conn_def split: option.split if_splits)

lemma side_ok_exit: "side_ok cfg x \<Longrightarrow> 0 < live x \<Longrightarrow> side_ok cfg (session_exit x)"
  by (auto simp: side_ok_def session_exit_def split: option.split if_splits)

lemma side_ok_flags [simp]:
  "side_ok cfg (x\<lparr>ln_open := b\<rparr>) = side_ok cfg x" "side_ok cfg (x\<lparr>loop_running := b\<rparr>) = side_ok cfg x"
  "side_ok cfg (x\<lparr>cancelled := b\<rparr>) = side_ok cfg x"
  by (simp_all add: side_ok_def)

lemma sstep_side_ok: "sstep s s' \<Longrightarrow> (\<And>k. side_ok cfg (sides s k)) \<Longrightarrow> side_ok cfg (sides s' k)"
  by (induction rule: sstep.induct) (auto simp: side_ok_accept side_ok_exit)

lemma running_side_ok: "running_server cfg s \<Longrightarrow> side_ok cfg (sides s k)"
proof (induction arbitrary: k rule: running_server.induct)
  case (started s)
  then show ?case by (simp add: started_sides side_ok_def)
next
  case (stepped s s')
  then show ?case by (blast intro: sstep_side_ok)
qed

text \<open>
  C35 (the connection cap). In every state of a server whose configured \<open>max_connections\<close> is
  positive, at most that many sessions of each kind are live, and the next connection of a
  kind is served exactly when fewer are; a connection that is not served changes nothing but the
  refusal counter. With \<open>max_connections\<close> 0 no connection is refused.
\<close>

theorem connection_cap:
  assumes "running_server cfg s"
  shows "(0 < cfg_MaxConnections cfg \<longrightarrow> live (sides s k) \<le> cfg_MaxConnections cfg) \<and>
    (fst (accept_conn (sides s k)) \<longleftrightarrow> cfg_MaxConnections cfg \<le> 0 \<or> live (sides s k) < cfg_MaxConnections cfg) \<and>
    (\<not> fst (accept_conn (sides s k)) \<longrightarrow> snd (accept_conn (sides s k)) = (sides s k)\<lparr>refused := refused (sides s k) + 1\<rparr>)"
  using running_side_ok [OF assms, of k] by (auto simp: side_ok_def accept_conn_def split: option.splits if_splits)

text \<open>A server for one connection of each kind, with one push being served.\<close>

definition small_config :: RelayConfig where
  "small_config = (Relay zero_Config)\<lparr>cfg_MaxConnections := 1\<rparr>"

definition busy_server :: server where
  "busy_server = set_side Push (\<lambda>x. snd (accept_conn x)) (snd (start None None (newServer small_config)))"

lemma busy_server_runs: "running_server small_config busy_server"
proof -
  have f: "start None None (newServer small_config) = (None, snd (start None None (newServer small_config)))"
    by (simp add: start_def Let_def)
  have "loop_running (sides (snd (start None None (newServer small_config))) Push)"
    using started_sides [OF f, of Push] by simp
  from stepped [OF started [OF f] s_accept [OF this]] show ?thesis by (simp add: busy_server_def)
qed

lemma busy_server_side: "live (sides busy_server Push) = 1"
  by (simp add: busy_server_def start_def newServer_def Let_def set_side_def accept_conn_def small_config_def zero_Config_def)

theorem connection_cap_witness:
  "running_server small_config busy_server \<and> live (sides busy_server Push) = 1 \<and> \<not> fst (accept_conn (sides busy_server Push))"
  using connection_cap [OF busy_server_runs, of Push] busy_server_side busy_server_runs
  by (simp add: small_config_def)

section \<open>Shutdown\<close>

text \<open>What each phase of the shutdown sequence has established.\<close>

definition phase_ok :: "server \<Rightarrow> bool" where
  "phase_ok s \<longleftrightarrow> phase s \<le> 10 \<and>
     (1 \<le> phase s \<longrightarrow> \<not> health_up s) \<and>
     (2 \<le> phase s \<longrightarrow> \<not> ln_open (sides s Push)) \<and>
     (3 \<le> phase s \<longrightarrow> \<not> ln_open (sides s Receive)) \<and>
     (4 \<le> phase s \<longrightarrow> (\<forall>k. \<not> loop_running (sides s k))) \<and>
     (5 \<le> phase s \<longleftrightarrow> pushes_drained s \<noteq> None) \<and>
     (pushes_drained s = Some True \<longrightarrow> live (sides s Push) = 0) \<and>
     (6 \<le> phase s \<longleftrightarrow> cancelled (sides s Receive)) \<and>
     (7 \<le> phase s \<longleftrightarrow> cancelled (sides s Push)) \<and>
     (8 \<le> phase s \<longleftrightarrow> sessions_stopped s \<noteq> None) \<and>
     (sessions_stopped s = Some True \<longrightarrow> (\<forall>k. live (sides s k) = 0)) \<and>
     (9 \<le> phase s \<longleftrightarrow> reaper_cancelled s) \<and>
     (10 \<le> phase s \<longleftrightarrow> reaper_stopped s \<noteq> None) \<and>
     (reaper_stopped s = Some True \<longrightarrow> \<not> reaper_running s)"

lemma accept_conn_flags [simp]:
  "ln_open (snd (accept_conn x)) = ln_open x" "loop_running (snd (accept_conn x)) = loop_running x"
  "cancelled (snd (accept_conn x)) = cancelled x"
  by (simp_all add: accept_conn_def split: option.split)

lemma session_exit_flags [simp]:
  "ln_open (session_exit x) = ln_open x" "loop_running (session_exit x) = loop_running x"
  "cancelled (session_exit x) = cancelled x" "live (session_exit x) = live x - 1"
  by (simp_all add: session_exit_def split: option.split)

lemma kind_all: "(\<forall>k. P k) \<longleftrightarrow> P Push \<and> P Receive"
  by (metis kind.exhaust)

lemma phase_okD:
  assumes "phase_ok s"
  shows "1 \<le> phase s \<Longrightarrow> \<not> health_up s"
    and "2 \<le> phase s \<Longrightarrow> \<not> ln_open (sides s Push)" and "3 \<le> phase s \<Longrightarrow> \<not> ln_open (sides s Receive)"
    and "4 \<le> phase s \<Longrightarrow> \<not> loop_running (sides s k)" and "5 \<le> phase s \<longleftrightarrow> pushes_drained s \<noteq> None"
    and "pushes_drained s = Some True \<Longrightarrow> live (sides s Push) = 0"
    and "6 \<le> phase s \<longleftrightarrow> cancelled (sides s Receive)" and "7 \<le> phase s \<longleftrightarrow> cancelled (sides s Push)"
    and "8 \<le> phase s \<longleftrightarrow> sessions_stopped s \<noteq> None" and "sessions_stopped s = Some True \<Longrightarrow> live (sides s k) = 0"
    and "reaper_stopped s = Some True \<Longrightarrow> \<not> reaper_running s"
  using assms unfolding phase_ok_def by blast+

lemma phase_ok_accept:
  assumes "phase_ok s" "loop_running (sides s k)"
  shows "phase_ok (set_side k (\<lambda>x. snd (accept_conn x)) s)"
proof -
  from phase_okD(4) [OF assms(1), of k] assms(2) have "\<not> 4 \<le> phase s" by blast
  with phase_okD(5,9) [OF assms(1)] have "pushes_drained s = None" "sessions_stopped s = None" by auto
  with assms(1) show ?thesis by (cases k) (simp_all add: phase_ok_def kind_all)
qed

lemma phase_ok_exit:
  assumes "phase_ok s" "live (sides s k) > 0"
  shows "phase_ok (set_side k session_exit (report now k' err s))"
proof -
  from phase_okD(10) [OF assms(1), of k] assms(2) have "sessions_stopped s \<noteq> Some True" by auto
  moreover from phase_okD(6) [OF assms(1)] assms(2) have "k = Push \<Longrightarrow> pushes_drained s \<noteq> Some True" by auto
  ultimately show ?thesis using assms(1) by (cases k) (simp_all add: phase_ok_def kind_all)
qed

lemma phase_ok_loop_ends:
  "phase_ok s \<Longrightarrow> phase_ok (set_side k (\<lambda>x. x\<lparr>loop_running := False\<rparr>) s)"
  by (cases k) (simp_all add: phase_ok_def kind_all)

lemma sstep_phase_ok:
  assumes "sstep s s'" "phase_ok s"
  shows "phase_ok s'"
  using assms
proof (induction rule: sstep.induct)
  case (d_drained s b)
  then show ?case by (cases b) (simp_all add: phase_ok_def kind_all)
next
  case (d_stopped s b)
  then show ?case by (cases b) (simp_all add: phase_ok_def kind_all)
next
  case (d_reaper s b)
  then show ?case by (cases b) (simp_all add: phase_ok_def kind_all)
qed (simp_all add: phase_ok_accept phase_ok_exit phase_ok_loop_ends, simp_all add: phase_ok_def kind_all)

lemma running_phase_ok: "running_server cfg s \<Longrightarrow> phase_ok s"
proof (induction rule: running_server.induct)
  case (started s)
  then have "phase s = 0" "pushes_drained s = None" "sessions_stopped s = None" "reaper_stopped s = None" "\<not> reaper_cancelled s"
    by (auto simp: start_def newServer_def set_side_def Let_def)
  then show ?case using started_sides [OF started] by (simp add: phase_ok_def)
qed (rule sstep_phase_ok)

text \<open>
  C36 (shutdown order). In every state of the server: a Receive Session's context is cancelled
  only when the health endpoint is down, both listeners are closed, no accept loop runs, and the
  push drain is over, with no push left or its budget used up; a Push Session's context is
  cancelled only after that. When \<open>shutdown\<close> has returned and neither of its last-resort timers
  was needed, no session, accept loop or reaper is left that could use the store its caller
  closes next.
\<close>

theorem shutdown_order:
  assumes "running_server cfg s"
  shows "(cancelled (sides s Receive) \<longrightarrow> \<not> health_up s \<and> (\<forall>k. \<not> ln_open (sides s k) \<and> \<not> loop_running (sides s k)) \<and>
       (pushes_drained s = Some True \<and> live (sides s Push) = 0 \<or> pushes_drained s = Some False)) \<and>
    (cancelled (sides s Push) \<longrightarrow> cancelled (sides s Receive)) \<and>
    (phase s = 10 \<and> sessions_stopped s = Some True \<and> reaper_stopped s = Some True \<longrightarrow>
       (\<forall>k. live (sides s k) = 0 \<and> \<not> loop_running (sides s k)) \<and> \<not> reaper_running s)"
proof -
  note ok = phase_okD [OF running_phase_ok [OF assms]]
  have "\<not> health_up s \<and> (\<forall>k. \<not> ln_open (sides s k) \<and> \<not> loop_running (sides s k)) \<and>
      (pushes_drained s = Some True \<and> live (sides s Push) = 0 \<or> pushes_drained s = Some False)" if "cancelled (sides s Receive)"
  proof -
    from ok(7) that have p: "6 \<le> phase s" by simp
    then have "pushes_drained s \<noteq> None" using ok(5) by simp
    with p ok(1-4,6) show ?thesis by (auto simp: kind_all)
  qed
  moreover have "cancelled (sides s Push) \<longrightarrow> cancelled (sides s Receive)" using ok(7,8) by linarith
  ultimately show ?thesis using ok(4,10,11) by auto
qed

text \<open>The way through shutdown on which no session ends: each wait takes its event if it can, else its timer.\<close>

definition same_sessions :: "server \<Rightarrow> server \<Rightarrow> bool" where
  "same_sessions s s' \<longleftrightarrow> (\<forall>k. live (sides s' k) = live (sides s k))"

definition no_sessions :: "server \<Rightarrow> bool" where
  "no_sessions s \<longleftrightarrow> live (sides s Push) = 0 \<and> live (sides s Receive) = 0"

definition outcomes_true :: "server \<Rightarrow> bool" where
  "outcomes_true s \<longleftrightarrow> (8 \<le> phase s \<longrightarrow> sessions_stopped s = Some (no_sessions s)) \<and>
     (10 \<le> phase s \<longrightarrow> reaper_stopped s = Some True)"

lemma same_sessions_trans: "same_sessions s s' \<Longrightarrow> same_sessions s' s'' \<Longrightarrow> same_sessions s s''"
  by (simp add: same_sessions_def)

lemma loops_can_end:
  "\<exists>s'. sstep\<^sup>*\<^sup>* s s' \<and> phase s' = phase s \<and> same_sessions s s' \<and> (\<forall>k. \<not> loop_running (sides s' k))"
proof -
  have one: "\<exists>s'. sstep\<^sup>*\<^sup>* s s' \<and> phase s' = phase s \<and> same_sessions s s' \<and> \<not> loop_running (sides s' k) \<and>
      (\<forall>j. loop_running (sides s' j) \<longrightarrow> loop_running (sides s j))" for s k
  proof (cases "loop_running (sides s k)")
    case True
    from s_accept_error [OF this] show ?thesis
      by (intro exI [of _ "set_side k (\<lambda>x. x\<lparr>loop_running := False\<rparr>) s"]) (auto simp: same_sessions_def)
  qed (auto simp: same_sessions_def)
  obtain s1 where s1: "sstep\<^sup>*\<^sup>* s s1" "phase s1 = phase s" "same_sessions s s1" "\<not> loop_running (sides s1 Push)"
    using one [of s Push] by blast
  obtain s2 where s2: "sstep\<^sup>*\<^sup>* s1 s2" "phase s2 = phase s1" "same_sessions s1 s2" "\<not> loop_running (sides s2 Receive)"
      "\<And>j. loop_running (sides s2 j) \<Longrightarrow> loop_running (sides s1 j)"
    using one [of s1 Receive] by blast
  have "\<not> loop_running (sides s2 k)" for k using s1(4) s2(4,5) by (cases k) auto
  with s1 s2 show ?thesis
    by (intro exI [of _ s2] conjI rtranclp_trans [OF s1(1) s2(1)] same_sessions_trans [OF s1(3) s2(3)]) auto
qed

lemma next_phase:
  assumes "phase s < 10" "phase_ok s"
  shows "\<exists>s'. sstep\<^sup>*\<^sup>* s s' \<and> phase s' = phase s + 1 \<and> same_sessions s s' \<and> (outcomes_true s \<longrightarrow> outcomes_true s')"
proof -
  have step: ?thesis if "sstep s s'" "phase s' = phase s + 1" "\<And>k. live (sides s' k) = live (sides s k)"
      "sessions_stopped s' = (if phase s = 7 then Some (no_sessions s) else sessions_stopped s)" "phase s \<noteq> 9" for s'
    using that assms by (intro exI [of _ s']) (auto simp: same_sessions_def outcomes_true_def no_sessions_def)
  have "phase s = 0 \<or> phase s = 1 \<or> phase s = 2 \<or> phase s = 3 \<or> phase s = 4 \<or> phase s = 5 \<or> phase s = 6 \<or>
      phase s = 7 \<or> phase s = 8 \<or> phase s = 9" using assms(1) by arith
  then consider "phase s = 0" | "phase s = 1" | "phase s = 2" | "phase s = 3" | "phase s = 4" | "phase s = 5" | "phase s = 6"
    | "phase s = 7" | "phase s = 8" | "phase s = 9" by (elim disjE; blast)
  then show ?thesis
  proof cases
    case 4
    obtain s1 where s1: "sstep\<^sup>*\<^sup>* s s1" "phase s1 = 3" "same_sessions s s1" "\<forall>k. \<not> loop_running (sides s1 k)"
      using loops_can_end [of s] 4 by auto
    then have "sstep\<^sup>*\<^sup>* s (s1\<lparr>phase := 4\<rparr>)" using d_accepts [of s1] by (auto intro: rtranclp.rtrancl_into_rtrancl)
    with s1(3) 4 show ?thesis by (intro exI [of _ "s1\<lparr>phase := 4\<rparr>"]) (simp add: same_sessions_def outcomes_true_def)
  next
    case 5
    show ?thesis by (rule step [OF d_drained [OF 5, of False]]) (simp_all add: 5)
  next
    case 8
    show ?thesis by (rule step [OF d_stopped [OF 8, of "no_sessions s"]]) (simp_all add: 8 no_sessions_def)
  next
    case 10
    then have "reaper_cancelled s" using assms(2) by (simp add: phase_ok_def)
    then have "sstep\<^sup>*\<^sup>* s (s\<lparr>reaper_running := False, phase := 10, reaper_stopped := Some True\<rparr>)"
      using s_reaper_exit [of s] d_reaper [of "s\<lparr>reaper_running := False\<rparr>" True] 10
      by (auto intro: rtranclp.rtrancl_into_rtrancl)
    with 10 show ?thesis
      by (intro exI [of _ "s\<lparr>reaper_running := False, phase := 10, reaper_stopped := Some True\<rparr>"])
         (simp add: same_sessions_def outcomes_true_def no_sessions_def)
  next
    case 1
    show ?thesis by (rule step [OF d_health [OF 1]]) (simp_all add: 1)
  next
    case 2
    show ?thesis by (rule step [OF d_close_push [OF 2]]) (simp_all add: 2)
  next
    case 3
    show ?thesis by (rule step [OF d_close_recv [OF 3]]) (simp_all add: 3)
  next
    case 6
    show ?thesis by (rule step [OF d_cancel_recv [OF 6]]) (simp_all add: 6)
  next
    case 7
    show ?thesis by (rule step [OF d_cancel_push [OF 7]]) (simp_all add: 7)
  next
    case 9
    show ?thesis by (rule step [OF d_cancel_reaper [OF 9]]) (simp_all add: 9)
  qed
qed

lemma rtranclp_phase_ok: "sstep\<^sup>*\<^sup>* s s' \<Longrightarrow> phase_ok s \<Longrightarrow> phase_ok s'"
  by (induction rule: rtranclp_induct) (auto intro: sstep_phase_ok)

lemma last_phase:
  "phase_ok s \<Longrightarrow> \<exists>s'. sstep\<^sup>*\<^sup>* s s' \<and> phase s' = 10 \<and> same_sessions s s' \<and> (outcomes_true s \<longrightarrow> outcomes_true s')"
proof (induction "10 - phase s" arbitrary: s)
  case 0
  then have "phase s = 10" by (simp add: phase_ok_def)
  with 0 show ?case by (intro exI [of _ s]) (simp add: same_sessions_def)
next
  case (Suc n)
  have "phase s < 10" using Suc.hyps(2) by simp
  from next_phase [OF this Suc.prems] obtain s1 where s1: "sstep\<^sup>*\<^sup>* s s1" "phase s1 = phase s + 1"
    "same_sessions s s1" "outcomes_true s \<longrightarrow> outcomes_true s1" by blast
  have "n = 10 - phase s1" using Suc.hyps(2) s1(2) by simp
  from Suc.hyps(1) [OF this rtranclp_phase_ok [OF s1(1) Suc.prems]] obtain s' where
    s': "sstep\<^sup>*\<^sup>* s1 s'" "phase s' = 10" "same_sessions s1 s'" "outcomes_true s1 \<longrightarrow> outcomes_true s'" by blast
  with s1 show ?case
    by (intro exI [of _ s'] conjI rtranclp_trans [OF s1(1) s'(1)] same_sessions_trans [OF s1(3) s'(3)]) auto
qed

lemma initial_outcomes: "start None None (newServer cfg) = (None, s) \<Longrightarrow> outcomes_true s \<and> no_sessions s"
  by (auto simp: start_def newServer_def set_side_def Let_def outcomes_true_def no_sessions_def)

lemma running_rtranclp: "sstep\<^sup>*\<^sup>* s s' \<Longrightarrow> running_server cfg s \<Longrightarrow> running_server cfg s'"
  by (induction rule: rtranclp_induct) (auto intro: stepped)

theorem shutdown_order_witness:
  "\<exists>s. running_server small_config s \<and> phase s = 10 \<and> (\<forall>k. live (sides s k) = 0 \<and> \<not> loop_running (sides s k)) \<and> \<not> reaper_running s"
proof -
  obtain s0 where s0: "start None None (newServer small_config) = (None, s0)" by (simp add: start_def Let_def)
  have r: "running_server small_config s0" by (rule started [OF s0])
  obtain s where s: "sstep\<^sup>*\<^sup>* s0 s" "phase s = 10" "same_sessions s0 s" "outcomes_true s"
    using last_phase [OF running_phase_ok [OF r]] initial_outcomes [OF s0] by blast
  have "no_sessions s" using s(3) initial_outcomes [OF s0] by (simp add: same_sessions_def no_sessions_def)
  with s(2,4) have "sessions_stopped s = Some True" "reaper_stopped s = Some True" by (simp_all add: outcomes_true_def)
  with shutdown_order [OF running_rtranclp [OF s(1) r]] s(2) running_rtranclp [OF s(1) r] show ?thesis by blast
qed


text \<open>
  Shutdown returns. From every state of the server \<open>shutdown\<close> can run to its end without
  waiting for a session: even if no session ever ends again, its remaining steps and the end of
  the accept loops, whose listeners are closed, lead to the phase in which it has returned.
\<close>

lemma shutdown_returns:
  assumes "running_server cfg s"
  shows "\<exists>s'. sstep\<^sup>*\<^sup>* s s' \<and> phase s' = 10 \<and> (\<forall>k. live (sides s' k) = live (sides s k))"
  using last_phase [OF running_phase_ok [OF assms]] by (auto simp: same_sessions_def)

lemma shutdown_returns_sample:
  "\<exists>s'. sstep\<^sup>*\<^sup>* busy_server s' \<and> phase s' = 10 \<and> live (sides s' Push) = 1"
  using shutdown_returns [OF busy_server_runs] busy_server_side by metis

section \<open>The health endpoint\<close>

text \<open>The status code and the body \<open>healthHandler\<close> answers with, given what the store probe returned.\<close>

definition quoted :: "string \<Rightarrow> string" where
  "quoted s = [CHR 0x22] @ s @ [CHR 0x22]"

definition healthHandler :: "go_err option \<Rightarrow> bool \<Rightarrow> int \<times> string" where
  "healthHandler ping devMode =
     (let status = (if ping = None then ''ok'' else ''unavailable''); code' = (if ping = None then 200 else 503)
      in (code', ''{'' @ quoted ''status'' @ '':'' @ quoted status @ '','' @ quoted ''dev_mode'' @ '':'' @
                (if devMode then ''true'' else ''false'') @ '','' @ quoted ''transport_version'' @ '':'' @
                dec_digits (unat TransportVersion) @ ''}'' @ [CHR 0x0A]))"

end
