(* ===== verification/Keypair.thy ===== *)
theory Keypair
  imports Go_Strconv Go_Hex
begin

text \<open>
  The relay's static key, \<open>internal/keypair/keypair.go\<close>. The file system is a map from paths to
  contents; every system call may fail. The Noise library's key generation and \<open>X25519\<close> are
  not part of the repository: their results are arguments. Another process may act on the file
  system between two calls; its action at the point where it matters, just before the link that
  installs a new key, is an argument too.
\<close>

section \<open>Data\<close>

type_synonym fs = "string \<rightharpoonup> string"

datatype fs_step = ReadKey | CreateTemp | WriteTemp | SyncTemp | CloseTemp | LinkTemp

type_synonym fs_faults = "fs_step \<Rightarrow> go_err option"

record KeyPair =
  Private :: bytes
  Public :: bytes

definition newline :: char where "newline = CHR 0x0A"

text \<open>\<open>ErrExists\<close> is \<open>fs.ErrExist\<close>.\<close>

definition ErrExists :: go_err where "ErrExists = ErrExist"

section \<open>Parsing\<close>

definition fromPrivate :: "(bytes \<Rightarrow> go_err + bytes) \<Rightarrow> bytes \<Rightarrow> go_err + KeyPair" where
  "fromPrivate x25519 priv =
     (if length priv \<noteq> 32
      then Inl (Opaque (''keypair: want 32-byte private key, got '' @ dec_digits (length priv) @ '' bytes''))
      else (case x25519 priv of
              Inl e \<Rightarrow> Inl (Wrapped ''keypair: derive public key: '' e '''')
            | Inr pub \<Rightarrow> Inr \<lparr>Private = priv, Public = pub\<rparr>))"

text \<open>The decoder's error text is not modelled.\<close>

definition ParseHex :: "(bytes \<Rightarrow> go_err + bytes) \<Rightarrow> string \<Rightarrow> go_err + KeyPair" where
  "ParseHex x25519 privHex =
     (case DecodeString (TrimSpace privHex) of
        None \<Rightarrow> Inl (Wrapped ''keypair: decode hex: '' (Opaque ''encoding/hex'') '''')
      | Some priv \<Rightarrow> fromPrivate x25519 priv)"

definition ReadFile :: "fs_faults \<Rightarrow> fs \<Rightarrow> string \<Rightarrow> go_err + string" where
  "ReadFile f fs path =
     (case f ReadKey of
        Some e \<Rightarrow> Inl e
      | None \<Rightarrow> (case fs path of None \<Rightarrow> Inl (Wrapped (''open '' @ path @ '': '') ErrNotExist '''') | Some data \<Rightarrow> Inr data))"

definition LoadKey :: "(bytes \<Rightarrow> go_err + bytes) \<Rightarrow> fs_faults \<Rightarrow> fs \<Rightarrow> string \<Rightarrow> go_err + KeyPair" where
  "LoadKey x25519 f fs path =
     (case ReadFile f fs path of
        Inl e \<Rightarrow> Inl (Wrapped (''keypair: read '' @ path @ '': '') e '''')
      | Inr data \<Rightarrow>
          (case ParseHex x25519 data of
             Inl e \<Rightarrow> Inl (Wrapped (''keypair: '' @ path @ '': '') e '''')
           | Inr kp \<Rightarrow> Inr kp))"

section \<open>Generating\<close>

definition GenerateHex :: "go_err + bytes \<Rightarrow> go_err + string" where
  "GenerateHex gen =
     (case gen of Inl e \<Rightarrow> Inl (Wrapped ''keypair: generate: '' e '''') | Inr priv \<Rightarrow> Inr (EncodeToString priv))"

text \<open>\<open>os.Link\<close>: atomic, and refused when the new name exists.\<close>

definition link :: "fs_faults \<Rightarrow> fs \<Rightarrow> string \<Rightarrow> string \<Rightarrow> go_err + fs" where
  "link f fs old new =
     (case f LinkTemp of
        Some e \<Rightarrow> Inl e
      | None \<Rightarrow> if fs new \<noteq> None then Inl (Wrapped ''link: '' ErrExist '''') else Inr (fs(new := fs old)))"

text \<open>
  \<open>Generate\<close>: the error, the file systems seen on the way (a crash leaves one of them; a write
  cut short leaves a prefix in the temporary file, here any \<open>part\<close>), and the final one. \<open>tmp\<close> is
  the fresh name \<open>os.CreateTemp\<close> picks, \<open>others\<close> what other processes do before the link.
\<close>

definition Generate ::
    "fs_faults \<Rightarrow> (fs \<Rightarrow> fs) \<Rightarrow> go_err + bytes \<Rightarrow> string \<Rightarrow> string \<Rightarrow> string \<Rightarrow> fs \<Rightarrow> go_err option \<times> fs list \<times> fs" where
  "Generate f others gen tmp part path fs =
     (case GenerateHex gen of
        Inl e \<Rightarrow> (Some e, [], fs)
      | Inr hexKey \<Rightarrow>
     (case f CreateTemp of
        Some e \<Rightarrow> (Some (Wrapped (''keypair: create temp for '' @ path @ '': '') e ''''), [], fs)
      | None \<Rightarrow>
         (let fs1 = fs(tmp \<mapsto> []); fs2 = fs(tmp \<mapsto> part); fs3 = fs(tmp \<mapsto> hexKey @ [newline]) in
     (case f WriteTemp of
        Some e \<Rightarrow> (Some (Wrapped (''keypair: write temp for '' @ path @ '': '') e ''''), [fs1, fs2], fs2(tmp := None))
      | None \<Rightarrow>
     (case f SyncTemp of
        Some e \<Rightarrow> (Some (Wrapped (''keypair: sync temp for '' @ path @ '': '') e ''''), [fs1, fs2, fs3], fs3(tmp := None))
      | None \<Rightarrow>
     (case f CloseTemp of
        Some e \<Rightarrow> (Some (Wrapped (''keypair: close temp for '' @ path @ '': '') e ''''), [fs1, fs2, fs3], fs3(tmp := None))
      | None \<Rightarrow>
         (let fs4 = others fs3 in
     (case link f fs4 tmp path of
        Inl e \<Rightarrow>
          (Some (if errors_Is e ErrExist
                 then Wrapped (''keypair: '' @ path @ '' already exists '' @ [CHR 0xE2, CHR 0x80, CHR 0x94] @ '' refusing to replace the relay key: '') ErrExists ''''
                 else Wrapped (''keypair: install '' @ path @ '': '') e ''''), [fs1, fs2, fs3, fs4], fs4(tmp := None))
      | Inr fs5 \<Rightarrow> (None, [fs1, fs2, fs3, fs4, fs5], fs5(tmp := None))))))))))"

definition LoadOrGenerate ::
    "(bytes \<Rightarrow> go_err + bytes) \<Rightarrow> fs_faults \<Rightarrow> fs_faults \<Rightarrow> (fs \<Rightarrow> fs) \<Rightarrow> go_err + bytes \<Rightarrow> string \<Rightarrow> string \<Rightarrow> string \<Rightarrow> fs \<Rightarrow>
     (go_err + KeyPair \<times> bool) \<times> fs" where
  "LoadOrGenerate x25519 f f' others gen tmp part path fs =
     (case LoadKey x25519 f fs path of
        Inr kp \<Rightarrow> (Inr (kp, False), fs)
      | Inl err \<Rightarrow>
          if \<not> errors_Is err ErrNotExist then (Inl err, fs)
          else
            (case Generate f others gen tmp part path fs of (genErr, trace, fs') \<Rightarrow>
               (case genErr of
                  Some e \<Rightarrow>
                    if errors_Is e ErrExists
                    then (case LoadKey x25519 f' fs' path of Inl e \<Rightarrow> (Inl e, fs') | Inr kp \<Rightarrow> (Inr (kp, False), fs'))
                    else (Inl e, fs')
                | None \<Rightarrow>
                    (case LoadKey x25519 f' fs' path of Inl e \<Rightarrow> (Inl e, fs') | Inr kp \<Rightarrow> (Inr (kp, True), fs')))))"

definition Resolve ::
    "string \<Rightarrow> (bytes \<Rightarrow> go_err + bytes) \<Rightarrow> fs_faults \<Rightarrow> fs_faults \<Rightarrow> (fs \<Rightarrow> fs) \<Rightarrow> go_err + bytes \<Rightarrow> string \<Rightarrow> string \<Rightarrow> string \<Rightarrow> fs \<Rightarrow>
     (go_err + KeyPair \<times> bool) \<times> fs" where
  "Resolve keypair_hex x25519 f f' others gen tmp part path fs =
     (if keypair_hex \<noteq> [] then
        (case ParseHex x25519 keypair_hex of
           Inl e \<Rightarrow> (Inl (Wrapped ''TRUESEAL_RELAY_KEYPAIR_HEX: '' e ''''), fs)
         | Inr kp \<Rightarrow> (Inr (kp, False), fs))
      else LoadOrGenerate x25519 f f' others gen tmp part path fs)"

section \<open>Key files\<close>

text \<open>What a complete key file holds, and what a well-behaved other process does to the path: at
  most install a complete file where there was none.\<close>

definition complete_file :: "string \<Rightarrow> bool" where
  "complete_file c \<longleftrightarrow> (\<exists>priv. length priv = 32 \<and> c = EncodeToString priv @ [newline])"

definition kept_or_installed :: "string option \<Rightarrow> string option \<Rightarrow> bool" where
  "kept_or_installed old new \<longleftrightarrow> new = old \<or> old = None \<and> (\<exists>c. new = Some c \<and> complete_file c)"

lemma kept_refl [simp]: "kept_or_installed x x"
  by (simp add: kept_or_installed_def)

lemma kept_trans: "kept_or_installed x y \<Longrightarrow> kept_or_installed y z \<Longrightarrow> kept_or_installed x z"
  by (auto simp: kept_or_installed_def)

lemma visible_char: "33 \<le> n \<Longrightarrow> n \<le> 126 \<Longrightarrow> visible (char_of (n :: nat))"
proof -
  assume "33 \<le> n" "n \<le> 126"
  moreover have "code (char_of n) = int (of_char (char_of n :: char))" by (rule of_nat_of_char [symmetric])
  ultimately show ?thesis by (simp add: visible_def)
qed

lemma hex_digit_visible: "unat d < 16 \<Longrightarrow> visible (hex_digit d)"
  by (auto simp: hex_digit_def intro!: visible_char)

lemma EncodeToString_snoc:
  "EncodeToString (bs @ [b]) = EncodeToString bs @ [hex_digit (drop_bit 4 b), hex_digit (b AND 0x0F)]"
  by (induction bs) simp_all

lemma TrimSpace_key: "bs \<noteq> [] \<Longrightarrow> TrimSpace (EncodeToString bs @ [newline]) = EncodeToString bs"
proof -
  assume b: "bs \<noteq> []"
  then have "EncodeToString bs \<noteq> []" "visible (hd (EncodeToString bs))"
    by (cases bs; simp add: hex_digit_visible high_nibble)+
  moreover from b have "visible (last (EncodeToString bs))"
    by (cases bs rule: rev_cases) (simp_all add: EncodeToString_snoc hex_digit_visible low_nibble)
  ultimately show ?thesis unfolding newline_def by (rule TrimSpace_visible)
qed

lemma ParseHex_complete:
  "length priv = 32 \<Longrightarrow> ParseHex x25519 (EncodeToString priv @ [newline]) = fromPrivate x25519 priv"
  by (subst ParseHex_def, subst TrimSpace_key) auto

text \<open>
  C38 (the key file is never replaced and never partial). Let \<open>Generate\<close> run with any failures
  and any leftover of a short write, beside other processes that at most install a complete key
  file where there is none and leave the temporary file alone. Then in every file system it passes through, and so after a crash at
  any point, and in the one it leaves, the key path holds what it held before, or there was
  nothing and it now holds a complete key file.
\<close>

theorem key_file_safe:
  assumes "Generate f others gen tmp part path fs = (err, trace, fs')" and "tmp \<noteq> path"
    and "\<forall>priv. gen = Inr priv \<longrightarrow> length priv = 32" and "\<forall>g. kept_or_installed (g path) (others g path) \<and> others g tmp = g tmp"
  shows "\<forall>g \<in> set trace \<union> {fs'}. kept_or_installed (fs path) (g path)"
proof (cases gen)
  case (Inl e)
  with assms(1) show ?thesis by (auto simp: Generate_def GenerateHex_def)
next
  case (Inr priv)
  let ?c = "EncodeToString priv @ [newline]"
  let ?g = "fs(tmp \<mapsto> ?c)"
  have c: "complete_file ?c" using assms(3) Inr by (auto simp: complete_file_def)
  have o: "kept_or_installed (fs path) (others ?g path)" using assms(4) [rule_format, of ?g] assms(2) by simp
  have l: "kept_or_installed (fs path) (g path)" if "link f (others ?g) tmp path = Inr g" for g
    using that o c assms(4) [rule_format, of ?g] by (auto simp: link_def kept_or_installed_def split: option.splits if_splits)
  show ?thesis
    using assms(1,2) o l by (auto simp: Generate_def GenerateHex_def Inr Let_def split: option.splits sum.splits)
qed

definition sample_priv :: bytes where "sample_priv = replicate 32 1"

theorem key_file_safe_witness:
  "\<exists>err trace fs'. Generate (\<lambda>_. None) id (Inr sample_priv) ''t'' ''01'' ''k'' [''k'' \<mapsto> ''old''] = (err, trace, fs') \<and>
     length trace = 4 \<and> (\<forall>g \<in> set trace \<union> {fs'}. g ''k'' = Some ''old'')"
proof -
  obtain err trace fs' where g: "Generate (\<lambda>_. None) id (Inr sample_priv) ''t'' ''01'' ''k'' [''k'' \<mapsto> ''old''] = (err, trace, fs')"
    by (metis prod_cases3)
  then have "length trace = 4" by (auto simp: Generate_def GenerateHex_def link_def Let_def)
  moreover have "\<forall>h \<in> set trace \<union> {fs'}. kept_or_installed ([''k'' \<mapsto> ''old''] ''k'') (h ''k'')"
    by (rule key_file_safe [OF g]) (simp_all add: sample_priv_def)
  ultimately show ?thesis using g by (intro exI conjI) (auto simp: kept_or_installed_def)
qed

section \<open>The relay's identity\<close>

lemma Generate_existing:
  assumes "fs path = Some c" "Generate f others gen tmp part path fs = (err, trace, fs')" "tmp \<noteq> path"
    "\<And>g. kept_or_installed (g path) (others g path)"
  shows "fs' path = Some c \<and> err \<noteq> None"
proof -
  have o: "others (fs(tmp \<mapsto> x)) path = Some c" for x
    using assms(4) [of "fs(tmp \<mapsto> x)"] assms(1,3) by (simp add: kept_or_installed_def)
  then have "link f (others (fs(tmp \<mapsto> x))) tmp path \<noteq> Inr g" for x g
    by (simp add: link_def split: option.split)
  with assms(1-3) o show ?thesis
    by (auto simp: Generate_def Let_def split: option.splits sum.splits)
qed

lemma LoadKey_Inr: "LoadKey x25519 f fs path = Inr kp \<Longrightarrow> \<exists>c. fs path = Some c \<and> ParseHex x25519 c = Inr kp"
  by (auto simp: LoadKey_def ReadFile_def split: option.splits sum.splits)

lemma LoadKey_ok: "fs path = Some c \<Longrightarrow> ParseHex x25519 c = Inr kp \<Longrightarrow> LoadKey x25519 (\<lambda>_. None) fs path = Inr kp"
  by (simp add: LoadKey_def ReadFile_def)

lemma LoadOrGenerate_Inr:
  assumes "LoadOrGenerate x25519 f f' others gen tmp part path fs = (Inr (kp, generated), fs')"
  shows "(fs' = fs \<and> \<not> generated \<and> LoadKey x25519 f fs path = Inr kp) \<or>
    (\<exists>err trace. Generate f others gen tmp part path fs = (err, trace, fs') \<and> (generated \<longleftrightarrow> err = None) \<and>
       LoadKey x25519 f' fs' path = Inr kp)"
  using assms by (auto simp: LoadOrGenerate_def split: sum.splits if_splits prod.splits option.splits)

text \<open>
  One key for ever. When \<open>Resolve\<close> hands out a key pair read from, or generated into, the
  key file, whatever failures and races it met: a key file that existed is unchanged and is not
  reported as generated, and every later start that can read the file gets the same key pair.
\<close>

lemma key_is_stable:
  assumes "Resolve [] x25519 f f' others gen tmp part path fs = (Inr (kp, generated), fs')" and "tmp \<noteq> path"
    and "\<forall>g. kept_or_installed (g path) (others g path)"
  shows "(\<forall>c. fs path = Some c \<longrightarrow> fs' path = Some c \<and> \<not> generated) \<and>
    Resolve [] x25519 (\<lambda>_. None) f2 others2 gen2 tmp2 part2 path fs' = (Inr (kp, False), fs')"
proof -
  from assms(1) have r: "LoadOrGenerate x25519 f f' others gen tmp part path fs = (Inr (kp, generated), fs')"
    by (simp add: Resolve_def)
  then obtain c where c: "fs' path = Some c" "ParseHex x25519 c = Inr kp"
    using LoadOrGenerate_Inr [OF r] LoadKey_Inr by blast
  have "fs' path = Some d \<and> \<not> generated" if "fs path = Some d" for d
    using LoadOrGenerate_Inr [OF r] Generate_existing [of fs path d f others gen tmp part] assms(2,3) that by blast
  moreover have "Resolve [] x25519 (\<lambda>_. None) f2 others2 gen2 tmp2 part2 path fs' = (Inr (kp, False), fs')"
    by (simp add: Resolve_def LoadOrGenerate_def LoadKey_ok [of fs' path, OF c])
  ultimately show ?thesis by blast
qed

text \<open>A first start installs and loads the key it generated.\<close>

lemma first_start:
  assumes "fs path = None" "length priv = 32" "x25519 priv = Inr pub" "tmp \<noteq> path"
  shows "Resolve [] x25519 (\<lambda>_. None) (\<lambda>_. None) id (Inr priv) tmp part path fs =
    (Inr (\<lparr>Private = priv, Public = pub\<rparr>, True), fs(tmp := None, path \<mapsto> EncodeToString priv @ [newline]))"
proof -
  have "fromPrivate x25519 priv = Inr \<lparr>Private = priv, Public = pub\<rparr>" by (simp add: fromPrivate_def assms)
  with assms show ?thesis
    by (simp add: Resolve_def LoadOrGenerate_def LoadKey_def ReadFile_def Generate_def GenerateHex_def link_def ParseHex_complete
        Let_def fun_upd_twist)
qed

lemma key_is_stable_witness:
  "\<exists>kp fs'. Resolve [] Inr (\<lambda>_. None) (\<lambda>_. None) id (Inr sample_priv) ''t'' [] ''k'' Map.empty = (Inr (kp, True), fs') \<and>
     Private kp = sample_priv \<and>
     Resolve [] Inr (\<lambda>_. None) (\<lambda>_. None) id (Inr (replicate 32 2)) ''u'' [] ''k'' fs' = (Inr (kp, False), fs')"
proof -
  let ?kp = "\<lparr>Private = sample_priv, Public = sample_priv\<rparr>"
  obtain fs' where r: "Resolve [] Inr (\<lambda>_. None) (\<lambda>_. None) id (Inr sample_priv) ''t'' [] ''k'' Map.empty = (Inr (?kp, True), fs')"
    using first_start [of Map.empty "''k''" sample_priv Inr sample_priv "''t''" "[]"] by (simp add: sample_priv_def)
  from key_is_stable [OF r] r show ?thesis by (intro exI [of _ ?kp] exI [of _ fs']) simp
qed

end
