(* ===== verification/Push_Session.thy ===== *)
theory Push_Session
  imports Frame Transport Router
begin

text \<open>
  The Push Session of \<open>internal/session/push.go\<close>: version exchange, Noise NK handshake, and the
  loop that answers every Push frame with an Ack or an Error frame. The Noise library
  (\<open>github.com/flynn/noise\<close>) is the record \<open>noise\<close>, an argument of the definitions. Deadlines
  and the watcher that closes the connection on shutdown appear as the error with which the
  connection's input ends.
\<close>

section \<open>The Noise library\<close>

text \<open>
  A handshake state is built from the prologue (pattern, cipher suite and static key are fixed
  by the instance). \<open>WriteFinal\<close> and \<open>ReadFinal\<close> are the \<open>WriteMessage\<close> and \<open>ReadMessage\<close>
  that complete the handshake and return the two cipher states.
\<close>

record ('hs, 'cs) noise =
  NewHandshakeState :: "bytes \<Rightarrow> go_err + 'hs"
  ReadMessage :: "'hs \<Rightarrow> bytes \<Rightarrow> go_err + 'hs"
  WriteMessage :: "'hs \<Rightarrow> go_err + bytes \<times> 'hs"
  WriteFinal :: "'hs \<Rightarrow> go_err + bytes \<times> 'cs \<times> 'cs"
  ReadFinal :: "'hs \<Rightarrow> bytes \<Rightarrow> go_err + 'hs \<times> 'cs \<times> 'cs"
  PeerStatic :: "'hs \<Rightarrow> bytes"
  Encrypt :: "'cs \<Rightarrow> bytes \<Rightarrow> (go_err + bytes) \<times> 'cs"
  Decrypt :: "'cs \<Rightarrow> bytes \<Rightarrow> (go_err + bytes) \<times> 'cs"

section \<open>Refusals\<close>

definition pushRefusalReason :: "go_err \<Rightarrow> ErrorReason" where
  "pushRefusalReason err =
     (if errors_Is err ErrEnvelopeTooLarge then ReasonTooLarge
      else if errors_Is err ErrPushBodyTooShort then ReasonMalformed
      else if errors_Is err ErrPushRecipientMalformed then ReasonMalformed
      else if errors_Is err ErrRecipientMismatch then ReasonMalformed
      else if errors_Is err ErrInboxFull then ReasonInboxFull
      else if errors_Is err ErrRateLimited then ReasonRateLimited
      else ReasonInternal)"

definition sendPushError :: "('hs, 'cs) noise \<Rightarrow> conn \<Rightarrow> 'cs \<Rightarrow> ErrorReason \<Rightarrow> conn \<times> 'cs" where
  "sendPushError N c cs reason =
     (case Encrypt N cs (Frame MsgTypeError [reason]) of
        (Inl encErr, cs) \<Rightarrow> (c, cs)
      | (Inr errFrame, cs) \<Rightarrow> (snd (writeNoiseMsg c errFrame), cs))"

lemma writeNoiseMsg_inb: "writeNoiseMsg c m = (e, c') \<Longrightarrow> inb c' = inb c"
  by (auto simp: writeNoiseMsg_def conn_Write_def split: option.splits)

lemma inb_snd_writeNoiseMsg [simp]: "inb (snd (writeNoiseMsg c m)) = inb c"
  by (simp add: writeNoiseMsg_def conn_Write_def split: option.splits)

lemma sendPushError_inb: "sendPushError N c cs reason = (c', cs') \<Longrightarrow> inb c' = inb c"
  by (auto simp: sendPushError_def split: prod.splits sum.splits)

section \<open>The frame loop\<close>

text \<open>
  What the \<open>n\<close>-th call of \<open>OnPush\<close> on this session meets: store failures, wall clock, limiter
  clock; and whether the session's context is done when it returns.
\<close>

record push_env =
  pe_faults :: faults
  pe_now :: int
  pe_clk :: "int \<times> int \<times> int"
  pe_done :: bool

function push_loop ::
    "('hs, 'cs) noise \<Rightarrow> (nat \<Rightarrow> push_env) \<Rightarrow> conn \<Rightarrow> 'cs \<Rightarrow> 'cs \<Rightarrow> ('st, 'n) Router \<Rightarrow> nat \<Rightarrow>
     (go_err option \<times> conn \<times> ('st, 'n) Router) go" where
  "push_loop N env c cs1 cs2 r n =
     (case readNoiseMsg c of
        (Inl err, c') \<Rightarrow>
          if err = EOF \<or> isClosedErr (Some err) \<or> isTimeoutErr (Some err) then Ret (None, c', r)
          else Ret (Some (formatErr ''push: read frame'' err), c', r)
      | (Inr raw, c') \<Rightarrow>
          (case Decrypt N cs1 raw of
             (Inl err, cs1') \<Rightarrow> Ret (Some (formatErr ''push: decrypt'' err), c', r)
           | (Inr plain, cs1') \<Rightarrow>
               (case Parse plain of
                  Panic \<Rightarrow> Panic
                | Ret (typ, body, ok) \<Rightarrow>
                    if \<not> ok \<or> typ \<noteq> MsgTypePush
                    then (case sendPushError N c' cs2 ReasonMalformed of
                            (c'', cs2') \<Rightarrow> push_loop N env c'' cs1' cs2' r n)
                    else
                      (case OnPush (pe_faults (env n)) (pe_now (env n)) (pe_clk (env n)) r body of
                         Panic \<Rightarrow> Panic
                       | Ret (Some err, r') \<Rightarrow>
                           if pe_done (env n) then Ret (None, c', r')
                           else (case sendPushError N c' cs2 (pushRefusalReason err) of
                                   (c'', cs2') \<Rightarrow> push_loop N env c'' cs1' cs2' r' (n + 1))
                       | Ret (None, r') \<Rightarrow>
                           (case Encrypt N cs2 (Frame MsgTypeAck []) of
                              (Inl err, cs2') \<Rightarrow> Ret (Some (formatErr ''push: encrypt ack'' err), c', r')
                            | (Inr ack, cs2') \<Rightarrow>
                                (case writeNoiseMsg c' ack of
                                   (Some err, c'') \<Rightarrow> Ret (Some (formatErr ''push: send ack'' err), c'', r')
                                 | (None, c'') \<Rightarrow> push_loop N env c'' cs1' cs2' r' (n + 1)))))))"
  by pat_completeness auto
termination
  by (relation "measure (\<lambda>(N, env, c, cs1, cs2, r, n). length (inb c))")
     (auto dest!: readNoiseMsg_shrinks [OF sym] sendPushError_inb [OF sym] writeNoiseMsg_inb [OF sym])

declare push_loop.simps [simp del]

section \<open>The session\<close>

definition acceptPushSession ::
    "('hs, 'cs) noise \<Rightarrow> (nat \<Rightarrow> push_env) \<Rightarrow> conn \<Rightarrow> ('st, 'n) Router \<Rightarrow> (go_err option \<times> conn \<times> ('st, 'n) Router) go" where
  "acceptPushSession N env c r =
     (case exchangeTransportVersion c of
        (Inl err, c) \<Rightarrow> Ret (Some err, c, r)
      | (Inr prologue, c) \<Rightarrow>
     (case NewHandshakeState N prologue of
        Inl err \<Rightarrow> Ret (Some (formatErr ''push: handshake state'' err), c, r)
      | Inr hs \<Rightarrow>
     (case readNoiseMsg c of
        (Inl err, c) \<Rightarrow> Ret (Some (formatErr ''push: read e'' err), c, r)
      | (Inr msg, c) \<Rightarrow>
     (case ReadMessage N hs msg of
        Inl err \<Rightarrow> Ret (Some (formatErr ''push: read e msg'' err), c, r)
      | Inr hs \<Rightarrow>
     (case WriteFinal N hs of
        Inl err \<Rightarrow> Ret (Some (formatErr ''push: write resp'' err), c, r)
      | Inr (resp, cs1, cs2) \<Rightarrow>
     (case writeNoiseMsg c resp of
        (Some err, c) \<Rightarrow> Ret (Some (formatErr ''push: send resp'' err), c, r)
      | (None, c) \<Rightarrow> push_loop N env c cs1 cs2 r 0))))))"

text \<open>A deadline that expires ends the session without an error.\<close>

definition AcceptPushWithContext ::
    "('hs, 'cs) noise \<Rightarrow> (nat \<Rightarrow> push_env) \<Rightarrow> conn \<Rightarrow> ('st, 'n) Router \<Rightarrow> (go_err option \<times> conn \<times> ('st, 'n) Router) go" where
  "AcceptPushWithContext N env c r =
     (case acceptPushSession N env c r of
        Panic \<Rightarrow> Panic
      | Ret (err, c, r) \<Rightarrow> Ret (if isTimeoutErr err then None else err, c, r))"

section \<open>Reason codes\<close>

text \<open>The errors the session layer looks for. A database driver never returns one of them.\<close>

definition relay_sentinels :: "go_err set" where
  "relay_sentinels = {ErrEnvelopeTooLarge, ErrPushBodyTooShort, ErrPushRecipientMalformed, ErrRecipientMismatch,
     ErrInboxFull, ErrRateLimited}"

definition driver_errors :: "faults \<Rightarrow> bool" where
  "driver_errors f \<longleftrightarrow> (\<forall>s e. f s = Some e \<longrightarrow> (\<forall>t \<in> relay_sentinels. \<not> errors_Is e t))"

lemma sqlite_put_error_chain:
  assumes "sqlite_PutWithLimits f now d k env tm lims = (Some e, d')" "driver_errors f" "t \<in> relay_sentinels"
  shows "\<not> errors_Is e t"
  using assms
  by (auto simp: sqlite_PutWithLimits_def put_check_def insert_inbox_def select_occupancy_def prepare_def run_stmt_def
      Let_def driver_errors_def relay_sentinels_def split: option.splits if_splits sum.splits)

lemma pushRefusalReason_internal: "(\<And>t. t \<in> relay_sentinels \<Longrightarrow> \<not> errors_Is e t) \<Longrightarrow> pushRefusalReason e = ReasonInternal"
  by (simp add: pushRefusalReason_def relay_sentinels_def)

text \<open>The codes of the refusals that are decided before the limiter and the store.\<close>

lemma misaddressed_reason:
  assumes "\<not> well_addressed r body" "OnPush f now clk r body = Ret (Some e, r')"
  shows "pushRefusalReason e \<in> {ReasonTooLarge, ReasonMalformed}"
  using OnPush_misaddressed [OF assms(1), of f now clk] assms(2) by (auto simp: pushRefusalReason_def)

lemma well_addressed_reason:
  assumes "well_addressed r body" "OnPush f now clk r body = Ret (Some e, r')" "store r = sqlite_store" "driver_errors f"
  shows "pushRefusalReason e \<in> {ReasonRateLimited, ReasonInboxFull, ReasonInternal}"
proof -
  obtain t1 t2 t3 where clk: "clk = (t1, t2, t3)" by (cases clk)
  obtain ok l where l: "allow t1 t2 t3 (limiter r) (take 32 body) = (ok, l)"
    by (cases "allow t1 t2 t3 (limiter r) (take 32 body)")
  obtain x st where p: "sqlite_PutWithLimits f now (store_state r) (take 32 body) (drop 32 body) (ttl r) (inboxLimits r) = (x, st)"
    by (cases "sqlite_PutWithLimits f now (store_state r) (take 32 body) (drop 32 body) (ttl r) (inboxLimits r)")
  have put: "PutWithLimits (store r) = sqlite_PutWithLimits" by (simp add: assms(3) sqlite_store_def)
  consider "e = ErrRateLimited" | s where "e = Wrapped '''' ErrInboxFull s" | "x = Some e"
    using assms(2) by (auto simp: clk OnPush_well_addressed [OF assms(1)] l put p split: option.splits if_splits go.splits)
  then show ?thesis
  proof cases
    case 3
    with sqlite_put_error_chain [OF _ assms(4)] p show ?thesis by (simp add: pushRefusalReason_internal)
  qed (auto simp: pushRefusalReason_def)
qed

lemma Temporary_codes [simp]:
  "\<not> Temporary ReasonTooLarge" "\<not> Temporary ReasonMalformed" "Temporary ReasonInboxFull" "Temporary ReasonRateLimited"
  "Temporary ReasonUnavailable" "Temporary ReasonInternal"
  by (simp_all add: Temporary_def msg_types)

text \<open>
  C25 (permanent or temporary). The reason code a refused push is answered with has the
  temporary bit exactly when the push itself was in order: a client is told never to retry if
  and only if the body is too short, too large, or not addressed to the Inbox it names, and is
  told to retry later for a full Inbox, a rate limit or any failure of the store.
\<close>

theorem refusal_temporary_iff:
  assumes "store r = sqlite_store" and "driver_errors f" and "OnPush f now clk r body = Ret (Some e, r')"
  shows "Temporary (pushRefusalReason e) \<longleftrightarrow> well_addressed r body"
proof (cases "well_addressed r body")
  case True
  from well_addressed_reason [OF True assms(3,1,2)] True show ?thesis by auto
next
  case False
  from misaddressed_reason [OF False assms(3)] False show ?thesis by auto
qed

theorem refusal_temporary_iff_witness:
  "OnPush no_faults 0 (0, 0, 0) sample_router [1, 2] = Ret (Some ErrPushBodyTooShort, count_malformed sample_router) \<and>
   \<not> Temporary (pushRefusalReason ErrPushBodyTooShort)"
proof -
  have o: "OnPush no_faults 0 (0, 0, 0) sample_router [1, 2] = Ret (Some ErrPushBodyTooShort, count_malformed sample_router)"
    by (simp add: OnPush_def)
  have "driver_errors no_faults" by (simp add: driver_errors_def no_faults_def)
  from refusal_temporary_iff [OF _ this o] o show ?thesis by (simp add: well_addressed_def)
qed

section \<open>The session on frames\<close>

text \<open>The session seen above the transport: one reply per decrypted frame.\<close>

datatype push_reply = Acked bytes | Refused ErrorReason

fun reply_frame :: "push_reply \<Rightarrow> bytes" where
  "reply_frame (Acked body) = Frame MsgTypeAck []"
| "reply_frame (Refused reason) = Frame MsgTypeError [reason]"

text \<open>One frame: its reply (none when shutdown cuts the session off), the router, the push count.\<close>

definition push_frame ::
    "(nat \<Rightarrow> push_env) \<Rightarrow> bytes \<Rightarrow> ('st, 'n) Router \<Rightarrow> nat \<Rightarrow> (push_reply option \<times> ('st, 'n) Router \<times> nat) go" where
  "push_frame env p r n =
     (case Parse p of
        Panic \<Rightarrow> Panic
      | Ret (typ, body, ok) \<Rightarrow>
          if \<not> ok \<or> typ \<noteq> MsgTypePush then Ret (Some (Refused ReasonMalformed), r, n)
          else
            (case OnPush (pe_faults (env n)) (pe_now (env n)) (pe_clk (env n)) r body of
               Panic \<Rightarrow> Panic
             | Ret (Some err, r') \<Rightarrow>
                 Ret (if pe_done (env n) then None else Some (Refused (pushRefusalReason err)), r', n + 1)
             | Ret (None, r') \<Rightarrow> Ret (Some (Acked body), r', n + 1)))"

definition and_then :: "push_reply \<Rightarrow> (push_reply list \<times> bytes list \<times> 'r) go \<Rightarrow> (push_reply list \<times> bytes list \<times> 'r) go" where
  "and_then x g = (case g of Panic \<Rightarrow> Panic | Ret (xs, rest, r) \<Rightarrow> Ret (x # xs, rest, r))"

text \<open>All frames: the replies, the frames left unread after a cut, the router.\<close>

fun push_frames ::
    "(nat \<Rightarrow> push_env) \<Rightarrow> bytes list \<Rightarrow> ('st, 'n) Router \<Rightarrow> nat \<Rightarrow> (push_reply list \<times> bytes list \<times> ('st, 'n) Router) go" where
  "push_frames env [] r n = Ret ([], [], r)"
| "push_frames env (p # ps) r n =
     (case push_frame env p r n of
        Panic \<Rightarrow> Panic
      | Ret (None, r', n') \<Rightarrow> Ret ([], ps, r')
      | Ret (Some x, r', n') \<Rightarrow> and_then x (push_frames env ps r' n'))"

text \<open>A run of the two cipher states.\<close>

fun open_all :: "('hs, 'cs) noise \<Rightarrow> 'cs \<Rightarrow> bytes list \<Rightarrow> bytes list option" where
  "open_all N cs [] = Some []"
| "open_all N cs (raw # raws) =
     (case Decrypt N cs raw of
        (Inl e, cs') \<Rightarrow> None
      | (Inr plain, cs') \<Rightarrow> map_option (Cons plain) (open_all N cs' raws))"

fun seal_all :: "('hs, 'cs) noise \<Rightarrow> 'cs \<Rightarrow> bytes list \<Rightarrow> bytes list" where
  "seal_all N cs [] = []"
| "seal_all N cs (p # ps) =
     (case Encrypt N cs p of
        (Inl e, cs') \<Rightarrow> []
      | (Inr ct, cs') \<Rightarrow> ct # seal_all N cs' ps)"

lemma and_then_Ret: "and_then x g = Ret (xs, rest, r) \<longleftrightarrow> (\<exists>ys. xs = x # ys \<and> g = Ret (ys, rest, r))"
  by (auto simp: and_then_def split: go.split)

text \<open>What a non-empty run of frames that does not panic comes to.\<close>

lemma push_frames_Cons:
  assumes "push_frames env (p # ps) r n = Ret (xs, rest, r')"
  obtains (cut) n' where "push_frame env p r n = Ret (None, r', n')" "xs = []" "rest = ps"
  | (more) x r1 n1 ys where "push_frame env p r n = Ret (Some x, r1, n1)" "xs = x # ys"
      "push_frames env ps r1 n1 = Ret (ys, rest, r')"
proof -
  from assms obtain x r1 n1 where f: "push_frame env p r n = Ret (x, r1, n1)" by (auto split: go.splits)
  with assms cut more show thesis by (cases x) (auto simp: and_then_Ret)
qed

lemma push_frames_rest: "push_frames env ps r n = Ret (xs, rest, r') \<Longrightarrow> length rest \<le> length ps"
proof (induction ps arbitrary: r n xs)
  case (Cons p ps)
  from Cons.prems show ?case by (cases rule: push_frames_Cons) (auto dest: Cons.IH)
qed simp

lemma open_all_length: "open_all N cs raws = Some ps \<Longrightarrow> length ps = length raws"
  by (induction raws arbitrary: cs ps) (auto split: prod.splits sum.splits)

lemma send_ok: "wfail c = (\<lambda>_. None) \<Longrightarrow> writeNoiseMsg c m = (None, c\<lparr>outs := outs c @ [noise_msg m]\<rparr>)"
  by (simp add: writeNoiseMsg_def conn_Write_def)

lemma sendPushError_ok:
  "wfail c = (\<lambda>_. None) \<Longrightarrow> Encrypt N cs (Frame MsgTypeError [code]) = (Inr ct, cs') \<Longrightarrow>
     sendPushError N c cs code = (c\<lparr>outs := outs c @ [noise_msg ct]\<rparr>, cs')"
  by (simp add: sendPushError_def send_ok)

lemma read_next:
  assumes "inb c = noise_msg raw @ rest" "length raw \<le> 65535"
  shows "readNoiseMsg c = (Inr raw, c\<lparr>inb := rest\<rparr>)"
proof -
  have "readNoiseMsg (c\<lparr>inb := noise_msg raw @ rest\<rparr>) = (Inr raw, c\<lparr>inb := rest\<rparr>)"
    by (rule read_written_noise_msg_fits [OF assms(2)])
  moreover have "c\<lparr>inb := noise_msg raw @ rest\<rparr> = c" using assms(1) by simp
  ultimately show ?thesis by simp
qed

lemma read_end: "inb c = [] \<Longrightarrow> fin c = EOF \<Longrightarrow> readNoiseMsg c = (Inl EOF, c)"
  by (simp add: readNoiseMsg_def ReadFull_def)

text \<open>One round of the loop is one frame of the description.\<close>

lemma push_loop_round:
  assumes rd: "readNoiseMsg c = (Inr raw, c1)" and dec: "Decrypt N cs1 raw = (Inr plain, cs1')"
    and w: "wfail c1 = (\<lambda>_. None)" and enc: "\<And>cs p. Encrypt N cs p = (Inr (ct cs p), nx cs p)"
  shows "push_loop N env c cs1 cs2 r n =
    (case push_frame env plain r n of
       Panic \<Rightarrow> Panic
     | Ret (None, r', n') \<Rightarrow> Ret (None, c1, r')
     | Ret (Some x, r', n') \<Rightarrow>
         push_loop N env (c1\<lparr>outs := outs c1 @ [noise_msg (ct cs2 (reply_frame x))]\<rparr>) cs1' (nx cs2 (reply_frame x)) r' n')"
  by (subst push_loop.simps)
     (simp add: rd dec push_frame_def enc send_ok [OF w] sendPushError_ok [OF w enc] split: go.split prod.split option.split)


text \<open>A cipher that changes nothing, for concrete runs.\<close>

definition plain_noise :: "(unit, unit) noise" where
  "plain_noise = \<lparr>NewHandshakeState = (\<lambda>_. Inr ()), ReadMessage = (\<lambda>hs m. Inr hs), WriteMessage = (\<lambda>hs. Inr ([], hs)),
     WriteFinal = (\<lambda>hs. Inr ([], (), ())), ReadFinal = (\<lambda>hs m. Inr (hs, (), ())), PeerStatic = (\<lambda>_. sample_key),
     Encrypt = (\<lambda>cs p. (Inr p, cs)), Decrypt = (\<lambda>cs p. (Inr p, cs))\<rparr>"

definition sample_conn :: "bytes \<Rightarrow> conn" where
  "sample_conn b = \<lparr>inb = b, fin = EOF, outs = [], wfail = (\<lambda>_. None)\<rparr>"

definition sample_env :: "nat \<Rightarrow> push_env" where
  "sample_env = (\<lambda>_. \<lparr>pe_faults = no_faults, pe_now = 0, pe_clk = (0, 0, 0), pe_done = False\<rparr>)"

lemma parse_empty_heartbeat: "Parse [3, 0, 0, 0, 0] = Ret (3, [], True)"
  by code_simp


text \<open>The bodies that were acknowledged, in order.\<close>

fun acked :: "push_reply list \<Rightarrow> bytes list" where
  "acked [] = []"
| "acked (Acked body # xs) = body # acked xs"
| "acked (Refused reason # xs) = acked xs"

lemma push_frame_stored:
  assumes "store r = sqlite_store" "sqlite_invar (store_state r)" "push_frame env p r n = Ret (x, r', n')"
  shows "store r' = sqlite_store \<and> sqlite_invar (store_state r') \<and>
    (\<exists>qs. db_rows (store_state r') = db_rows (store_state r) @ qs \<and>
       map (\<lambda>q. recipient q @ envelope q) qs = (case x of Some y \<Rightarrow> acked [y] | None \<Rightarrow> []))"
proof -
  obtain ty body ok where p: "Parse p = Ret (ty, body, ok)"
    using assms(3) by (auto simp: push_frame_def split: go.splits)
  show ?thesis
  proof (cases "\<not> ok \<or> ty \<noteq> MsgTypePush")
    case True
    with assms p show ?thesis by (auto simp: push_frame_def)
  next
    case False
    then obtain e r1 where o: "OnPush (pe_faults (env n)) (pe_now (env n)) (pe_clk (env n)) r body = Ret (e, r1)"
      using assms(3) p by (auto simp: push_frame_def split: go.splits)
    have st: "store r1 = sqlite_store" using OnPush_store [OF o] assms(1) by simp
    show ?thesis
    proof (cases e)
      case None
      from sq.OnPush_ack [OF assms(1,2) o [unfolded None]] False None o p assms(3) st show ?thesis
        by (auto simp: push_frame_def push_row_def)
    next
      case (Some err)
      from sq.OnPush_refused [OF assms(1) o [unfolded Some]] False Some o p assms st show ?thesis
        by (auto simp: push_frame_def)
    qed
  qed
qed


lemma sample_push_parses:
  "Parse (Frame MsgTypePush (sample_key @ sample_envelope)) = Ret (MsgTypePush, sample_key @ sample_envelope, True)"
  by code_simp


end
