(* ===== verification/Receive_Session.thy ===== *)
theory Receive_Session
  imports Push_Session "HOL-Library.Sublist"
begin

text \<open>
  The Receive Session of \<open>internal/session/receive.go\<close> and its writer (\<open>internal/session/writer.go\<close>):
  version exchange, Noise XX handshake, registration, then three goroutines, the read loop, the
  deliver goroutine and the writer, sharing a bounded queue of plaintext frames. The goroutines
  are interleaved by a step relation; the handshake before them is a function.
\<close>

section \<open>The writer's queue\<close>

definition writerQueueCapacity :: nat where "writerQueueCapacity = 16"

text \<open>\<open>trySend\<close> drops the frame when the queue is full; \<open>send\<close> blocks (\<open>None\<close>) until there is room.\<close>

definition trySend :: "bytes list \<Rightarrow> bytes \<Rightarrow> bytes list" where
  "trySend queue fr = (if length queue < writerQueueCapacity then queue @ [fr] else queue)"

definition send :: "bytes list \<Rightarrow> bytes \<Rightarrow> bytes list option" where
  "send queue fr = (if length queue < writerQueueCapacity then Some (queue @ [fr]) else None)"

section \<open>Handshake and registration\<close>

text \<open>\<open>copy(deviceKey[:], hs.PeerStatic())\<close> into a 32-byte array.\<close>

definition device_key :: "bytes \<Rightarrow> RecipientKey" where
  "device_key static = copy_at (replicate 32 0) 0 static"

datatype running = Running | Returned "go_err option" | Panicked

record ('st, 'n, 'cs) recv_state =
  rconn :: conn
  rcs1 :: 'cs
  rcs2 :: 'cs
  rrouter :: "('st, 'n) Router"
  rkey :: RecipientKey
  queue :: "bytes list"
  deliver_done :: bool
  writer_done :: bool
  outcome :: running

text \<open>
  The part of \<open>acceptReceiveSession\<close> before its goroutines start: an error with what is left of
  the connection and the router, or the running session with its delivery goroutine's state.
\<close>

definition receive_handshake ::
    "('hs, 'cs) noise \<Rightarrow> conn \<Rightarrow> ('st, 'n) Router \<Rightarrow> go_err \<times> conn \<times> ('st, 'n) Router + ('st, 'n, 'cs) recv_state \<times> recv_session" where
  "receive_handshake N c r =
     (case exchangeTransportVersion c of
        (Inl err, c) \<Rightarrow> Inl (err, c, r)
      | (Inr prologue, c) \<Rightarrow>
     (case NewHandshakeState N prologue of
        Inl err \<Rightarrow> Inl (formatErr ''receive: handshake state'' err, c, r)
      | Inr hs \<Rightarrow>
     (case readNoiseMsg c of
        (Inl err, c) \<Rightarrow> Inl (formatErr ''receive: read e'' err, c, r)
      | (Inr msg, c) \<Rightarrow>
     (case ReadMessage N hs msg of
        Inl err \<Rightarrow> Inl (formatErr ''receive: read e msg'' err, c, r)
      | Inr hs \<Rightarrow>
     (case WriteMessage N hs of
        Inl err \<Rightarrow> Inl (formatErr ''receive: write e,ee,s,es'' err, c, r)
      | Inr (resp, hs) \<Rightarrow>
     (case writeNoiseMsg c resp of
        (Some err, c) \<Rightarrow> Inl (formatErr ''receive: send e,ee,s,es'' err, c, r)
      | (None, c) \<Rightarrow>
     (case readNoiseMsg c of
        (Inl err, c) \<Rightarrow> Inl (formatErr ''receive: read s,se'' err, c, r)
      | (Inr msg, c) \<Rightarrow>
     (case ReadFinal N hs msg of
        Inl err \<Rightarrow> Inl (formatErr ''receive: read s,se msg'' err, c, r)
      | Inr (hs, cs1, cs2) \<Rightarrow>
          (let deviceKey = device_key (PeerStatic N hs) in
           case OnReceiveConnect r deviceKey of
             (Inl err, r) \<Rightarrow> Inl (formatErr ''receive: register device'' err, c, r)
           | (Inr s, r) \<Rightarrow>
               Inr (\<lparr>rconn = c, rcs1 = cs1, rcs2 = cs2, rrouter = r, rkey = deviceKey, queue = [],
                     deliver_done = False, writer_done = False, outcome = Running\<rparr>, s))))))))))"

section \<open>The read loop\<close>

text \<open>One decrypted frame; \<open>f\<close> is what the store call of a DeliverAck meets. Its error is only logged.\<close>

definition recv_frame ::
    "faults \<Rightarrow> RecipientKey \<Rightarrow> ('st, 'n) Router \<Rightarrow> bytes list \<Rightarrow> bytes \<Rightarrow> (('st, 'n) Router \<times> bytes list) go" where
  "recv_frame f deviceKey r q plain =
     (case Parse plain of
        Panic \<Rightarrow> Panic
      | Ret (typ, body, ok) \<Rightarrow>
          if \<not> ok then Ret (r, trySend q (Frame MsgTypeError [ReasonMalformed]))
          else if typ = MsgTypeHeartbeat then Ret (r, trySend q (Frame MsgTypeHeartbeat []))
          else if typ = MsgTypeDeliverAck then
            (case DecodeDeliverAckBody body of (blobID, ok) \<Rightarrow>
               if \<not> ok then Ret (r, trySend q (Frame MsgTypeError [ReasonMalformed]))
               else Ret (snd (OnDeliverAck f r deviceKey (sint blobID)), q))
          else Ret (r, trySend q (Frame MsgTypeError [ReasonMalformed])))"

text \<open>How the read loop ends on a read error.\<close>

definition read_outcome :: "go_err \<Rightarrow> go_err option" where
  "read_outcome err =
     (if err = EOF \<or> isClosedErr (Some err) \<or> isTimeoutErr (Some err) then None
      else Some (formatErr ''receive: read frame'' err))"

section \<open>The session's goroutines\<close>

definition deliver_frame :: "DeliveryBlob \<Rightarrow> bytes" where
  "deliver_frame b = Frame MsgTypeDeliver (EncodeDeliverBody (word_of_int (BlobID b)) (Env b))"

text \<open>A local close: nothing more is read from or written to the peer.\<close>

definition close_conn :: "conn \<Rightarrow> conn" where
  "close_conn c = c\<lparr>inb := [], fin := NetErrClosed, wfail := (\<lambda>_. Some NetErrClosed)\<rparr>"

text \<open>
  One round of the writer's loop, on the frame it took off the queue; the last component says
  whether the writer leaves, and it closes the connection when it does.
\<close>

definition run_frame :: "('hs, 'cs) noise \<Rightarrow> conn \<Rightarrow> 'cs \<Rightarrow> bytes \<Rightarrow> conn \<times> 'cs \<times> bool" where
  "run_frame N c cs frame =
     (case Encrypt N cs frame of
        (Inl err, cs) \<Rightarrow> (close_conn c, cs, True)
      | (Inr encrypted, cs) \<Rightarrow>
          (case writeNoiseMsg c encrypted of
             (Some err, c) \<Rightarrow> (close_conn c, cs, True)
           | (None, c) \<Rightarrow> (c, cs, False)))"

text \<open>
  What a step shows: a frame the read loop decrypted, a blob the deliver goroutine took off the
  delivery channel, or a change of the shared router by the rest of the relay.
\<close>

datatype label = Tau | Got bytes | Take DeliveryBlob | Others

text \<open>
  One step of a session's goroutines. \<open>send\<close> offers its frame to the queue and, once the read
  loop has returned and closed \<open>stop\<close>, may give up instead, which ends the deliver goroutine;
  the writer, too, may still take a frame when it could also see \<open>stop\<close>. The connection is
  closed by the watcher (shutdown), by the returning read loop or by the leaving writer. A
  panic ends the process.
\<close>

inductive rstep ::
    "('hs, 'cs) noise \<Rightarrow> ('st, 'n, 'cs) recv_state \<Rightarrow> label \<Rightarrow> ('st, 'n, 'cs) recv_state \<Rightarrow> bool" for N where
  r_read: "outcome y = Running \<Longrightarrow> readNoiseMsg (rconn y) = (Inr raw, c) \<Longrightarrow> Decrypt N (rcs1 y) raw = (Inr plain, cs1) \<Longrightarrow>
    recv_frame f (rkey y) (rrouter y) (queue y) plain = Ret (r, q) \<Longrightarrow>
    rstep N y (Got plain) (y\<lparr>rconn := c, rcs1 := cs1, rrouter := r, queue := q\<rparr>)"
| r_panic: "outcome y = Running \<Longrightarrow> readNoiseMsg (rconn y) = (Inr raw, c) \<Longrightarrow> Decrypt N (rcs1 y) raw = (Inr plain, cs1) \<Longrightarrow>
    recv_frame f (rkey y) (rrouter y) (queue y) plain = Panic \<Longrightarrow>
    rstep N y (Got plain) (y\<lparr>rconn := c, rcs1 := cs1, outcome := Panicked\<rparr>)"
| r_undecryptable: "outcome y = Running \<Longrightarrow> readNoiseMsg (rconn y) = (Inr raw, c) \<Longrightarrow> Decrypt N (rcs1 y) raw = (Inl err, cs1) \<Longrightarrow>
    rstep N y Tau (y\<lparr>rconn := c, rcs1 := cs1, outcome := Returned (Some (formatErr ''receive: decrypt'' err))\<rparr>)"
| r_end: "outcome y = Running \<Longrightarrow> readNoiseMsg (rconn y) = (Inl err, c) \<Longrightarrow>
    rstep N y Tau (y\<lparr>rconn := c, outcome := Returned (read_outcome err)\<rparr>)"
| r_send: "outcome y \<noteq> Panicked \<Longrightarrow> \<not> deliver_done y \<Longrightarrow> send (queue y) (deliver_frame b) = Some q \<Longrightarrow>
    rstep N y (Take b) (y\<lparr>queue := q\<rparr>)"
| r_send_stopped: "outcome y = Returned e \<Longrightarrow> \<not> deliver_done y \<Longrightarrow>
    rstep N y (Take b) (y\<lparr>deliver_done := True\<rparr>)"
| r_write: "outcome y \<noteq> Panicked \<Longrightarrow> \<not> writer_done y \<Longrightarrow> queue y = fr # q \<Longrightarrow>
    run_frame N (rconn y) (rcs2 y) fr = (c, cs2, leaves) \<Longrightarrow>
    rstep N y Tau (y\<lparr>rconn := c, rcs2 := cs2, queue := q, writer_done := leaves\<rparr>)"
| r_writer_stops: "outcome y = Returned e \<Longrightarrow> \<not> writer_done y \<Longrightarrow>
    rstep N y Tau (y\<lparr>rconn := close_conn (rconn y), writer_done := True\<rparr>)"
| r_close: "outcome y \<noteq> Panicked \<Longrightarrow> rstep N y Tau (y\<lparr>rconn := close_conn (rconn y)\<rparr>)"
| r_others: "outcome y \<noteq> Panicked \<Longrightarrow> rstep N y Others (y\<lparr>rrouter := r\<rparr>)"

inductive rsteps ::
    "('hs, 'cs) noise \<Rightarrow> ('st, 'n, 'cs) recv_state \<Rightarrow> label list \<Rightarrow> ('st, 'n, 'cs) recv_state \<Rightarrow> bool" for N where
  rs_none [simp, intro]: "rsteps N y [] y"
| rs_snoc: "rsteps N y ls z \<Longrightarrow> rstep N z l w \<Longrightarrow> rsteps N y (ls @ [l]) w"

text \<open>The whole session as its caller sees it: a deadline that expires is not an error.\<close>

definition AcceptReceiveWithContext_result :: "go_err option \<Rightarrow> go_err option" where
  "AcceptReceiveWithContext_result err = (if isTimeoutErr err then None else err)"

section \<open>Isolation\<close>

text \<open>The blob a decrypted frame acknowledges, if it is a well-formed DeliverAck.\<close>

definition ack_id :: "bytes \<Rightarrow> int option" where
  "ack_id plain =
     (case Parse plain of
        Panic \<Rightarrow> None
      | Ret (typ, body, ok) \<Rightarrow>
          if ok \<and> typ = MsgTypeDeliverAck \<and> snd (DecodeDeliverAckBody body)
          then Some (sint (fst (DecodeDeliverAckBody body))) else None)"

lemma MsgType_distinct [simp]:
  "MsgTypeHeartbeat \<noteq> MsgTypeDeliverAck" "MsgTypeDeliverAck \<noteq> MsgTypeHeartbeat"
  "MsgTypeHeartbeat \<noteq> MsgTypeDeliver" "MsgTypeError \<noteq> MsgTypeDeliver"
  by (simp_all add: msg_types)

text \<open>A frame changes the router only through the acknowledgement it carries.\<close>

lemma recv_frame_router:
  assumes "recv_frame f k r q plain = Ret (r', q')"
  shows "r' = (case ack_id plain of None \<Rightarrow> r | Some i \<Rightarrow> snd (OnDeliverAck f r k i))"
  using assms by (auto simp: recv_frame_def ack_id_def split: go.splits if_splits prod.splits)

lemma OnDeliverAck_frame:
  "snd (OnDeliverAck f r k i) = r\<lparr>store_state := snd (DeleteForRecipient (store r) f (store_state r) k [i])\<rparr>"
  by (simp add: OnDeliverAck_def split: prod.split)

text \<open>A session's own steps: its key and everything of the router but the stored rows stay.\<close>

lemma rstep_router:
  assumes "rstep N y l z" "l \<noteq> Others"
  shows "rkey z = rkey y \<and>
    (rrouter z = rrouter y \<or>
     (\<exists>f plain i. l = Got plain \<and> ack_id plain = Some i \<and>
        rrouter z = rrouter y\<lparr>store_state := snd (DeleteForRecipient (store (rrouter y)) f (store_state (rrouter y)) (rkey y) [i])\<rparr>))"
  using assms
proof cases
  case (r_read raw c plain cs1 f r q)
  from recv_frame_router [OF r_read(6)] show ?thesis
    by (cases "ack_id plain") (auto simp: r_read(1,2) OnDeliverAck_frame)
qed auto

context inbox_contract
begin

lemma rstep_rows:
  assumes "rstep N y l z" "l \<noteq> Others" "store (rrouter y) = S" "invar (store_state (rrouter y))"
  shows "rkey z = rkey y \<and> store (rrouter z) = S \<and> invar (store_state (rrouter z)) \<and>
    (rows (store_state (rrouter z)) = rows (store_state (rrouter y)) \<or>
     (\<exists>plain i. l = Got plain \<and> ack_id plain = Some i \<and>
        rows (store_state (rrouter z)) = filter (\<lambda>r. \<not> (recipient r = rkey y \<and> row_id r = i)) (rows (store_state (rrouter y)))))"
  using rstep_router [OF assms(1,2)]
proof (elim conjE disjE exE)
  fix f plain i
  assume k: "rkey z = rkey y" and l: "l = Got plain" "ack_id plain = Some i"
    and r: "rrouter z = rrouter y\<lparr>store_state := snd (DeleteForRecipient (store (rrouter y)) f (store_state (rrouter y)) (rkey y) [i])\<rparr>"
  obtain e st where d: "DeleteForRecipient S f (store_state (rrouter y)) (rkey y) [i] = (e, st)" by fastforce
  show ?thesis
  proof (cases e)
    case None
    with delete_ok [OF assms(4), of f "rkey y" "[i]" st] d k l r assms(3) show ?thesis by auto
  next
    case (Some e')
    with delete_err d have "st = store_state (rrouter y)" by blast
    with d k r assms(3,4) show ?thesis by auto
  qed
qed (use assms in auto)

lemma rsteps_rows:
  assumes "rsteps N y ls z" "Others \<notin> set ls" "store (rrouter y) = S" "invar (store_state (rrouter y))"
  shows "rkey z = rkey y \<and> store (rrouter z) = S \<and> invar (store_state (rrouter z)) \<and>
    (\<exists>ids. (\<forall>i \<in> set ids. \<exists>plain. Got plain \<in> set ls \<and> ack_id plain = Some i) \<and>
       rows (store_state (rrouter z)) = filter (\<lambda>r. \<not> (recipient r = rkey y \<and> row_id r \<in> set ids)) (rows (store_state (rrouter y))))"
  using assms
proof induction
  case (rs_none y)
  then show ?case by (intro conjI exI [of _ "[]"]) auto
next
  case (rs_snoc y ls z l w)
  from rs_snoc.IH rs_snoc.prems obtain ids where z: "rkey z = rkey y" "store (rrouter z) = S" "invar (store_state (rrouter z))"
      "\<forall>i \<in> set ids. \<exists>plain. Got plain \<in> set ls \<and> ack_id plain = Some i"
      "rows (store_state (rrouter z)) = filter (\<lambda>r. \<not> (recipient r = rkey y \<and> row_id r \<in> set ids)) (rows (store_state (rrouter y)))"
    by auto
  from rs_snoc.prems(1) have "l \<noteq> Others" by auto
  from rstep_rows [OF rs_snoc.hyps(2) this z(2,3)] show ?case
  proof (elim conjE disjE exE)
    assume "rkey w = rkey z" "store (rrouter w) = S" "invar (store_state (rrouter w))"
      "rows (store_state (rrouter w)) = rows (store_state (rrouter z))"
    with z show ?thesis by (intro conjI exI [of _ ids]) auto
  next
    fix plain i
    assume "rkey w = rkey z" "store (rrouter w) = S" "invar (store_state (rrouter w))" "l = Got plain" "ack_id plain = Some i"
      "rows (store_state (rrouter w)) = filter (\<lambda>r. \<not> (recipient r = rkey z \<and> row_id r = i)) (rows (store_state (rrouter z)))"
    with z show ?thesis by (intro conjI exI [of _ "i # ids"]) (auto intro!: filter_cong)
  qed
qed

end

text \<open>
  C28 (a device reaches only its own Inbox). Whatever a device sends on its Receive Session,
  and however the session's goroutines interleave, the session removes from the store only rows
  of the Inbox of the key the Noise handshake authenticated, and of those only the ones whose
  ID a well-formed DeliverAck frame of this session named; it adds and alters nothing.
\<close>

theorem receive_session_isolated:
  assumes "rsteps N y ls z" and "Others \<notin> set ls"
    and "store (rrouter y) = sqlite_store" and "sqlite_invar (store_state (rrouter y))"
  shows "\<exists>ids. (\<forall>i \<in> set ids. \<exists>plain. Got plain \<in> set ls \<and> ack_id plain = Some i) \<and>
     db_rows (store_state (rrouter z)) =
       filter (\<lambda>r. \<not> (recipient r = rkey y \<and> row_id r \<in> set ids)) (db_rows (store_state (rrouter y)))"
  using sq.rsteps_rows [OF assms] by blast

text \<open>A session of \<open>sample_key\<close> beside a blob of another Inbox, and an ack that names that blob.\<close>

definition other_row :: inbox_row where
  "other_row = \<lparr>row_id = 2, recipient = replicate 32 9, envelope = [1], expires_at = 5\<rparr>"

definition two_inboxes :: db where
  "two_inboxes = sample_db\<lparr>inbox := Some (fresh_inbox\<lparr>trows :=
     [\<lparr>row_id = 1, recipient = sample_key, envelope = [4], expires_at = 5\<rparr>, other_row], seq := 2\<rparr>)\<rparr>"

definition foreign_ack :: bytes where
  "foreign_ack = Frame MsgTypeDeliverAck (EncodeDeliverAckBody 2)"

definition sample_recv :: "(db, Notifier.notifier, unit) recv_state" where
  "sample_recv = \<lparr>rconn = sample_conn (noise_msg foreign_ack), rcs1 = (), rcs2 = (),
     rrouter = sample_router\<lparr>store_state := two_inboxes\<rparr>, rkey = sample_key, queue = [],
     deliver_done = False, writer_done = False, outcome = Running\<rparr>"

lemma foreign_ack_id: "ack_id foreign_ack = Some 2"
  by code_simp

lemma length_foreign_ack: "length foreign_ack = 13"
  by (simp add: foreign_ack_def EncodeDeliverAckBody_eq)

lemma two_inboxes_invar: "sqlite_invar two_inboxes"
  by (simp add: two_inboxes_def other_row_def sample_db_def sqlite_invar_def fresh_inbox_def table_ok_def)

text \<open>A session that is given one frame reads it.\<close>

lemma recv_one_frame:
  assumes "outcome y = Running" "rconn y = sample_conn (noise_msg plain)" "length plain \<le> 65535"
    "recv_frame f (rkey y) (rrouter y) (queue y) plain = Ret (r, q)"
  shows "rsteps plain_noise y [Got plain] (y\<lparr>rconn := sample_conn [], rcs1 := (), rrouter := r, queue := q\<rparr>)"
proof -
  have rd: "readNoiseMsg (rconn y) = (Inr plain, sample_conn [])"
    using read_next [of "rconn y" plain "[]"] assms(2,3) by (simp add: sample_conn_def)
  have dec: "Decrypt plain_noise (rcs1 y) plain = (Inr plain, rcs1 y)"
    by (simp add: plain_noise_def)
  from rs_snoc [OF rs_none r_read [OF assms(1) rd dec assms(4)]] show ?thesis by simp
qed

lemma recv_frame_foreign_ack: "\<exists>r q. recv_frame no_faults k r0 [] foreign_ack = Ret (r, q)"
proof -
  have "Parse foreign_ack = Ret (MsgTypeDeliverAck, EncodeDeliverAckBody 2, True)" by code_simp
  then show ?thesis by (auto simp: recv_frame_def split: prod.split)
qed

theorem receive_session_isolated_witness:
  "\<exists>z. rsteps plain_noise sample_recv [Got foreign_ack] z \<and> other_row \<in> set (db_rows (store_state (rrouter z)))"
proof -
  obtain r q where f: "recv_frame no_faults (rkey sample_recv) (rrouter sample_recv) (queue sample_recv) foreign_ack = Ret (r, q)"
    using recv_frame_foreign_ack by (metis recv_state.select_convs(6) sample_recv_def)
  have y: "outcome sample_recv = Running" "rconn sample_recv = sample_conn (noise_msg foreign_ack)"
      "rrouter sample_recv = sample_router\<lparr>store_state := two_inboxes\<rparr>" "rkey sample_recv = sample_key"
    by (simp_all add: sample_recv_def)
  obtain z where z: "rsteps plain_noise sample_recv [Got foreign_ack] z"
    using recv_one_frame [OF y(1,2) _ f] by (auto simp: length_foreign_ack)
  have "other_row \<in> set (db_rows two_inboxes)"
    by (simp add: two_inboxes_def db_rows_def)
  moreover have "recipient other_row \<noteq> sample_key" by (simp add: other_row_def numeral_eq_Suc)
  ultimately have "other_row \<in> set (db_rows (store_state (rrouter z)))"
    using receive_session_isolated [OF z] by (auto simp: y two_inboxes_invar)
  with z show ?thesis by blast
qed

section \<open>Order of delivery\<close>

text \<open>The outbound cipher state run over a list of frames.\<close>

fun seal_run :: "('hs, 'cs) noise \<Rightarrow> 'cs \<Rightarrow> bytes list \<Rightarrow> (bytes list \<times> 'cs) option" where
  "seal_run N cs [] = Some ([], cs)"
| "seal_run N cs (p # ps) =
     (case Encrypt N cs p of
        (Inl e, cs') \<Rightarrow> None
      | (Inr ct, cs') \<Rightarrow> map_option (\<lambda>(cts, cs''). (ct # cts, cs'')) (seal_run N cs' ps))"

lemma seal_run_snoc:
  "seal_run N cs ps = Some (cts, cs') \<Longrightarrow> Encrypt N cs' p = (Inr ct, cs'') \<Longrightarrow>
     seal_run N cs (ps @ [p]) = Some (cts @ [ct], cs'')"
  by (induction ps arbitrary: cs cts) (auto split: prod.splits sum.splits)

fun taken :: "label list \<Rightarrow> DeliveryBlob list" where
  "taken [] = []"
| "taken (Take b # ls) = b # taken ls"
| "taken (_ # ls) = taken ls"

lemma taken_append [simp]: "taken (ls @ ls') = taken ls @ taken ls'"
  by (induction ls rule: taken.induct) auto

definition is_deliver :: "bytes \<Rightarrow> bool" where
  "is_deliver fr \<longleftrightarrow> fr \<noteq> [] \<and> hd fr = MsgTypeDeliver"

lemma is_deliver_Frame [simp]: "is_deliver (Frame t body) \<longleftrightarrow> t = MsgTypeDeliver"
  by (simp add: is_deliver_def Frame_eq header_def)

lemma is_deliver_deliver_frame [simp]: "is_deliver (deliver_frame b)"
  by (simp add: deliver_frame_def)

lemma recv_frame_queue:
  assumes "recv_frame f k r q plain = Ret (r', q')"
  shows "\<exists>fs. q' = q @ fs \<and> filter is_deliver fs = [] \<and> (length q \<le> writerQueueCapacity \<longrightarrow> length q' \<le> writerQueueCapacity)"
  using assms by (auto simp: recv_frame_def trySend_def split: go.splits if_splits prod.splits)

text \<open>
  What holds after every step, for the frames \<open>ws\<close> the writer has written: they are on the
  wire, encrypted one after the other from \<open>cs\<close>; the Deliver frames among them, then the frame
  a failed writer lost, then those queued are, in order, the blobs taken, of which the last may
  have been given up after the session ended.
\<close>

definition order_invar ::
    "('hs, 'cs) noise \<Rightarrow> bytes list \<Rightarrow> 'cs \<Rightarrow> label list \<Rightarrow> ('st, 'n, 'cs) recv_state \<Rightarrow> bytes list \<Rightarrow> bool" where
  "order_invar N out0 cs ls z ws \<longleftrightarrow>
     length (queue z) \<le> writerQueueCapacity \<and>
     (\<exists>cts cs'. seal_run N cs ws = Some (cts, cs') \<and> outs (rconn z) = out0 @ map noise_msg cts \<and>
        (\<not> writer_done z \<longrightarrow> rcs2 z = cs')) \<and>
     (\<exists>lost rest. map deliver_frame (taken ls) = filter is_deliver (ws @ lost @ queue z) @ rest \<and>
        length lost \<le> 1 \<and> length rest \<le> 1 \<and> (\<not> writer_done z \<longrightarrow> lost = []) \<and> (\<not> deliver_done z \<longrightarrow> rest = []) \<and> (deliver_done z \<longrightarrow> outcome z \<noteq> Running))"

lemma order_invarI:
  assumes "length (queue z) \<le> writerQueueCapacity" "seal_run N cs ws = Some (cts, cs')"
    "outs (rconn z) = out0 @ map noise_msg cts" "\<not> writer_done z \<longrightarrow> rcs2 z = cs' \<and> lost = []"
    "map deliver_frame (taken ls) = filter is_deliver (ws @ lost @ queue z) @ rest" "length lost \<le> 1" "length rest \<le> 1"
    "\<not> deliver_done z \<longrightarrow> rest = []" "deliver_done z \<longrightarrow> outcome z \<noteq> Running"
  shows "order_invar N out0 cs ls z ws"
  using assms unfolding order_invar_def by blast

lemma order_invarE:
  assumes "order_invar N out0 cs ls z ws"
  obtains cts cs' lost rest where "length (queue z) \<le> writerQueueCapacity" "seal_run N cs ws = Some (cts, cs')"
    "outs (rconn z) = out0 @ map noise_msg cts" "\<not> writer_done z \<longrightarrow> rcs2 z = cs' \<and> lost = []"
    "map deliver_frame (taken ls) = filter is_deliver (ws @ lost @ queue z) @ rest" "length lost \<le> 1" "length rest \<le> 1"
    "\<not> deliver_done z \<longrightarrow> rest = []" "deliver_done z \<longrightarrow> outcome z \<noteq> Running"
  using assms unfolding order_invar_def by blast

lemma outs_close_conn [simp]: "outs (close_conn c) = outs c"
  by (simp add: close_conn_def)

lemma readNoiseMsg_outs: "readNoiseMsg c = (e, c') \<Longrightarrow> outs c' = outs c"
  by (auto simp: readNoiseMsg_def ReadFull_def split: if_splits)

lemma writeNoiseMsg_outs:
  "writeNoiseMsg c m = (None, c') \<Longrightarrow> outs c' = outs c @ [noise_msg m]"
  "writeNoiseMsg c m = (Some e, c') \<Longrightarrow> outs c' = outs c"
  by (auto simp: writeNoiseMsg_def conn_Write_def split: option.splits)

lemma run_frameE:
  assumes "run_frame N c cs fr = (c', cs', leaves)"
  obtains (wrote) ct where "Encrypt N cs fr = (Inr ct, cs')" "outs c' = outs c @ [noise_msg ct]" "\<not> leaves"
  | (left) "outs c' = outs c" "leaves"
  using assms by (auto simp: run_frame_def writeNoiseMsg_outs split: prod.splits sum.splits option.splits)

lemma order_invar_step:
  assumes "rstep N y l z" and inv: "order_invar N out0 cs ls y ws"
  shows "\<exists>ws'. order_invar N out0 cs (ls @ [l]) z ws'"
  using inv
proof (rule order_invarE)
  fix cts cs' lost rest
  assume I: "length (queue y) \<le> writerQueueCapacity" "seal_run N cs ws = Some (cts, cs')"
    "outs (rconn y) = out0 @ map noise_msg cts" "\<not> writer_done y \<longrightarrow> rcs2 y = cs' \<and> lost = []"
    "map deliver_frame (taken ls) = filter is_deliver (ws @ lost @ queue y) @ rest" "length lost \<le> 1" "length rest \<le> 1"
    "\<not> deliver_done y \<longrightarrow> rest = []" "deliver_done y \<longrightarrow> outcome y \<noteq> Running"
  from assms(1) show ?thesis
  proof cases
    case (r_read raw c plain cs1 f r q)
    obtain fs where "q = queue y @ fs" "filter is_deliver fs = []" "length (queue y) \<le> writerQueueCapacity \<longrightarrow> length q \<le> writerQueueCapacity"
      using recv_frame_queue [OF r_read(6)] by blast
    with r_read I readNoiseMsg_outs [OF r_read(4)] show ?thesis
      by (intro exI [of _ ws] order_invarI [OF _ I(2), where lost = lost and rest = rest]) auto
  next
    case (r_send_stopped e b)
    with I show ?thesis by (intro exI [of _ ws] order_invarI [OF _ I(2), where lost = lost and rest = "[deliver_frame b]"]) auto
  next
    case (r_send b q)
    with I show ?thesis
      by (intro exI [of _ ws] order_invarI [OF _ I(2), where lost = lost and rest = rest]) (auto simp: send_def split: if_splits)
  next
    case (r_write fr q c cs2 leaves)
    note enq = r_write(1-5) I
    from r_write(6) show ?thesis
    proof (cases rule: run_frameE)
      case (wrote ct)
      with enq have s: "seal_run N cs (ws @ [fr]) = Some (cts @ [ct], cs2)" by (auto intro: seal_run_snoc)
      from enq wrote show ?thesis
        by (intro exI [of _ "ws @ [fr]"] order_invarI [OF _ s, where lost = lost and rest = rest]) auto
    next
      case left
      with enq show ?thesis
        by (intro exI [of _ ws] order_invarI [OF _ I(2), where lost = "[fr]" and rest = rest]) auto
    qed
  qed (use I in \<open>intro exI [of _ ws] order_invarI [OF _ I(2), where lost = lost and rest = rest]; auto simp: readNoiseMsg_outs\<close>)+
qed

lemma order_invar_reachable:
  assumes "rsteps N y ls z" "queue y = []" "\<not> deliver_done y"
  shows "\<exists>ws. order_invar N (outs (rconn y)) (rcs2 y) ls z ws"
  using assms
proof induction
  case (rs_none y)
  then show ?case
    by (intro exI [of _ "[]"] order_invarI [where lost = "[]" and rest = "[]" and cts = "[]" and cs' = "rcs2 y"]) auto
next
  case (rs_snoc y ls z l w)
  then show ?case by (meson order_invar_step)
qed

text \<open>
  C29 (Deliver frames reach the wire whole, once and in order). Start a Receive Session's
  goroutines with an empty queue and let them take any steps, interleaved with the rest of the
  relay in any way. What was written is the list of the frames \<open>ws\<close> encrypted one after the
  other with the session's one outbound cipher state, one length-prefixed message per frame.
  The Deliver frames among \<open>ws\<close> are the blobs taken from the delivery channel, a prefix of
  them in that order; and as long as the session and its writer run, every blob taken is
  written or still queued. At most 16 frames are queued.
\<close>

theorem deliver_frames_in_order:
  assumes "rsteps N y ls z" and "queue y = []" and "\<not> deliver_done y"
  shows "\<exists>ws cts cs'. seal_run N (rcs2 y) ws = Some (cts, cs') \<and>
     outs (rconn z) = outs (rconn y) @ map noise_msg cts \<and>
     prefix (filter is_deliver ws) (map deliver_frame (taken ls)) \<and>
     (outcome z = Running \<and> \<not> writer_done z \<longrightarrow> map deliver_frame (taken ls) = filter is_deliver (ws @ queue z)) \<and>
     length (queue z) \<le> 16"
proof -
  obtain ws where "order_invar N (outs (rconn y)) (rcs2 y) ls z ws"
    using order_invar_reachable [OF assms] by blast
  then show ?thesis
  proof (rule order_invarE)
    fix cts cs' lost rest
    assume "seal_run N (rcs2 y) ws = Some (cts, cs')" "outs (rconn z) = outs (rconn y) @ map noise_msg cts"
      "map deliver_frame (taken ls) = filter is_deliver (ws @ lost @ queue z) @ rest" "\<not> writer_done z \<longrightarrow> rcs2 z = cs' \<and> lost = []"
      "\<not> deliver_done z \<longrightarrow> rest = []" "deliver_done z \<longrightarrow> outcome z \<noteq> Running" "length (queue z) \<le> writerQueueCapacity"
    then show ?thesis
      by (intro exI [of _ ws] exI [of _ cts] exI [of _ cs']) (auto simp: writerQueueCapacity_def)
  qed
qed

text \<open>A session that takes two blobs and writes the first.\<close>

definition blob_a :: DeliveryBlob where "blob_a = \<lparr>BlobID = 1, Env = [4]\<rparr>"
definition blob_b :: DeliveryBlob where "blob_b = \<lparr>BlobID = 2, Env = [5]\<rparr>"

lemma sample_delivery:
  "\<exists>z. rsteps plain_noise sample_recv [Take blob_a, Take blob_b, Tau] z \<and> queue z = [deliver_frame blob_b] \<and>
     outcome z = Running \<and> \<not> writer_done z"
proof -
  let ?q = "\<lambda>fs. sample_recv\<lparr>queue := fs\<rparr>"
  have send: "rstep plain_noise (?q fs) (Take b) (?q (fs @ [deliver_frame b]))" if "length fs < 16" for fs b
    using r_send [of "?q fs" b "fs @ [deliver_frame b]" plain_noise] that by (simp add: sample_recv_def send_def writerQueueCapacity_def)
  have "run_frame plain_noise (rconn sample_recv) () fr = ((rconn sample_recv)\<lparr>outs := [noise_msg fr]\<rparr>, (), False)" for fr
    by (simp add: run_frame_def plain_noise_def writeNoiseMsg_def conn_Write_def sample_recv_def sample_conn_def)
  then have w: "rstep plain_noise (?q (fr # fs)) Tau ((?q fs)\<lparr>rconn := (rconn sample_recv)\<lparr>outs := [noise_msg fr]\<rparr>, rcs2 := (), writer_done := False\<rparr>)" for fr fs
    using r_write [of "?q (fr # fs)" fr fs plain_noise "(rconn sample_recv)\<lparr>outs := [noise_msg fr]\<rparr>" "()" False] by (simp add: sample_recv_def)
  have "rsteps plain_noise sample_recv ((([] @ [Take blob_a]) @ [Take blob_b]) @ [Tau])
      ((?q [deliver_frame blob_b])\<lparr>rconn := (rconn sample_recv)\<lparr>outs := [noise_msg (deliver_frame blob_a)]\<rparr>, rcs2 := (), writer_done := False\<rparr>)"
    using send [of "[]" blob_a] send [of "[deliver_frame blob_a]" blob_b] w [of "deliver_frame blob_a" "[deliver_frame blob_b]"]
    by (intro rs_snoc [OF rs_snoc [OF rs_snoc [OF rs_none]]]) (simp_all add: sample_recv_def)
  then show ?thesis by (intro exI conjI) (assumption | simp add: sample_recv_def)+
qed

theorem deliver_frames_in_order_witness:
  "\<exists>z ws. rsteps plain_noise sample_recv [Take blob_a, Take blob_b, Tau] z \<and>
     filter is_deliver (ws @ queue z) = [deliver_frame blob_a, deliver_frame blob_b] \<and>
     outs (rconn z) = map noise_msg ws"
proof -
  obtain z where z: "rsteps plain_noise sample_recv [Take blob_a, Take blob_b, Tau] z" "outcome z = Running" "\<not> writer_done z"
    using sample_delivery by blast
  have s: "seal_run plain_noise cs ws = Some (cts, cs') \<Longrightarrow> cts = ws" for cs cs' ws cts
    by (induction ws arbitrary: cts cs) (auto simp: plain_noise_def)
  have "queue sample_recv = []" "\<not> deliver_done sample_recv" "outs (rconn sample_recv) = []"
    by (simp_all add: sample_recv_def sample_conn_def)
  with deliver_frames_in_order [OF z(1)] z s show ?thesis by fastforce
qed

section \<open>A delivered blob and its acknowledgement\<close>

lemma ack_id_Frame: "ack_id (Frame MsgTypeDeliverAck (EncodeDeliverAckBody w)) = Some (sint w)"
proof -
  have "Parse (Frame MsgTypeDeliverAck (EncodeDeliverAckBody w) @ []) = Ret (MsgTypeDeliverAck, EncodeDeliverAckBody w, True)"
    by (rule Parse_Frame) (simp_all add: known_type_def msg_types EncodeDeliverAckBody_eq)
  moreover have "DecodeDeliverAckBody (EncodeDeliverAckBody w) = (w, True)"
    using deliver_ack_body_iff [of "EncodeDeliverAckBody w" w] by auto
  ultimately show ?thesis by (simp add: ack_id_def)
qed

lemma sint_uint64: "- (2 ^ 63) \<le> i \<Longrightarrow> i < 2 ^ 63 \<Longrightarrow> sint (word_of_int i :: u64) = i"
  by (simp add: signed_take_bit_int_eq_self sint_sbintrunc')

lemma deliver_frame_fits:
  "int (length (Env b)) \<le> ProtocolMaxEnvelopeBytes \<Longrightarrow> length (deliver_frame b) + 16 \<le> 65535"
  by (simp add: deliver_frame_def EncodeDeliverBody_eq ProtocolMaxEnvelopeBytes_def)

text \<open>
  A client that answers what it was sent acknowledges the right blob. For every blob with
  an ID the store can assign and an envelope within the protocol ceiling: its Deliver frame
  fits, with the 16-byte cipher tag, the 16-bit length prefix of a transport message; a peer
  that parses the frame reads back the envelope and a 64-bit value; and the DeliverAck frame
  built from that value names exactly this blob's ID to the relay, the conversions between the
  store's signed and the wire's unsigned integers included.
\<close>

lemma deliver_then_ack:
  assumes "0 < BlobID b" and "BlobID b < 2 ^ 63" and "int (length (Env b)) \<le> ProtocolMaxEnvelopeBytes"
  shows "\<exists>body w. Parse (deliver_frame b) = Ret (MsgTypeDeliver, body, True) \<and>
     DecodeDeliverBody body = (w, Env b, True) \<and>
     ack_id (Frame MsgTypeDeliverAck (EncodeDeliverAckBody w)) = Some (BlobID b) \<and>
     length (deliver_frame b) + 16 \<le> 65535"
proof -
  let ?w = "word_of_int (BlobID b) :: u64"
  let ?body = "EncodeDeliverBody ?w (Env b)"
  from assms(3) have n: "length (Env b) \<le> 65482" by (simp add: ProtocolMaxEnvelopeBytes_def)
  have "Parse (Frame MsgTypeDeliver ?body @ []) = Ret (MsgTypeDeliver, ?body, True)"
    using n by (intro Parse_Frame) (simp_all add: known_type_def msg_types EncodeDeliverBody_eq)
  moreover have "DecodeDeliverBody ?body = (?w, Env b, True)"
    by (simp add: DecodeDeliverBody_def EncodeDeliverBody_eq)
  moreover have "sint ?w = BlobID b" using assms by (intro sint_uint64) auto
  moreover have "length (deliver_frame b) + 16 \<le> 65535"
    by (rule deliver_frame_fits [OF assms(3)])
  ultimately show ?thesis by (intro exI [of _ ?body] exI [of _ ?w]) (simp add: deliver_frame_def ack_id_Frame)
qed

lemma deliver_then_ack_sample:
  "\<exists>body w. Parse (deliver_frame blob_b) = Ret (MsgTypeDeliver, body, True) \<and> DecodeDeliverBody body = (w, [5], True) \<and>
     ack_id (Frame MsgTypeDeliverAck (EncodeDeliverAckBody w)) = Some 2"
  using deliver_then_ack [of blob_b] by (auto simp: blob_b_def ProtocolMaxEnvelopeBytes_def)

end
