(* ===== verification/Go_Flag.thy ===== *)
theory Go_Flag
  imports Go_Strconv
begin

text \<open>
  The standard library's \<open>flag\<close> package, as \<open>cmd/trueseal-relay\<close> uses it: a flag set with boolean and
  string flags, and \<open>Parse\<close>, which takes flags off the front of the argument list until the first
  argument that is none.
\<close>

datatype flagval = is_BoolV: BoolV bool | StrV string

type_synonym flags = "string \<rightharpoonup> flagval"

datatype flag_error =
    HelpRequested
  | BadSyntax string
  | NotDefined string
  | InvalidBool string string
  | NeedsArgument string

text \<open>\<open>name=value\<close>: the first equals sign after the first character splits.\<close>

definition split_eq :: "string \<Rightarrow> string \<times> string option" where
  "split_eq s =
     (let name = takeWhile (\<lambda>c. c \<noteq> CHR ''='') (tl s) in
      if name = tl s then (s, None) else (hd s # name, Some (drop (length name + 2) s)))"

text \<open>The name and value of an argument of flag form; \<open>None\<close> for other arguments and for \<open>--\<close>.\<close>

definition flag_text :: "string \<Rightarrow> string option" where
  "flag_text s =
     (if length s < 2 \<or> hd s \<noteq> CHR ''-'' \<or> s = ''--'' then None
      else Some (if s ! 1 = CHR ''-'' then drop 2 s else drop 1 s))"

definition flag_name :: "string \<Rightarrow> string option" where
  "flag_name s = map_option (fst \<circ> split_eq) (flag_text s)"

text \<open>\<open>parseOne\<close>, in its loop. A string flag without a value takes the next argument, whatever it is.\<close>

fun parseFlags :: "flags \<Rightarrow> string list \<Rightarrow> flag_error + flags \<times> string list" where
  "parseFlags fs [] = Inr (fs, [])"
| "parseFlags fs (s # args) =
     (case flag_text s of
        None \<Rightarrow> Inr (fs, if s = ''--'' then args else s # args)
      | Some text \<Rightarrow>
          if text = [] \<or> hd text = CHR ''-'' \<or> hd text = CHR ''='' then Inl (BadSyntax s)
          else (case split_eq text of (name, val) \<Rightarrow>
            (case fs name of
               None \<Rightarrow> Inl (if name = ''help'' \<or> name = ''h'' then HelpRequested else NotDefined name)
             | Some (BoolV _) \<Rightarrow>
                 (case (case val of None \<Rightarrow> Some True | Some v \<Rightarrow> ParseBool v) of
                    None \<Rightarrow> Inl (InvalidBool name (the val))
                  | Some b \<Rightarrow> parseFlags (fs(name \<mapsto> BoolV b)) args)
             | Some (StrV _) \<Rightarrow>
                 (case val of
                    Some v \<Rightarrow> parseFlags (fs(name \<mapsto> StrV v)) args
                  | None \<Rightarrow> (case args of [] \<Rightarrow> Inl (NeedsArgument name) | v # rest \<Rightarrow> parseFlags (fs(name \<mapsto> StrV v)) rest)))))"

text \<open>The variables behind the flags.\<close>

definition bool_flag :: "flags \<Rightarrow> string \<Rightarrow> bool" where
  "bool_flag fs name \<longleftrightarrow> fs name = Some (BoolV True)"

definition string_flag :: "flags \<Rightarrow> string \<Rightarrow> string" where
  "string_flag fs name = (case fs name of Some (StrV v) \<Rightarrow> v | _ \<Rightarrow> [])"

text \<open>\<open>ExitOnError\<close>: help exits with status 0, an error with 2.\<close>

definition flag_exit :: "flag_error \<Rightarrow> nat" where
  "flag_exit err = (if err = HelpRequested then 0 else 2)"

section \<open>Facts\<close>

text \<open>A flag set keeps its flags and their kinds, and only flags that are named change.\<close>

lemma parseFlags_changed:
  assumes "parseFlags fs args = Inr (fs', rest)"
  shows "map_option is_BoolV (fs' n) = map_option is_BoolV (fs n) \<and> (fs' n \<noteq> fs n \<longrightarrow> (\<exists>a \<in> set args. flag_name a = Some n))"
  using assms
proof (induction fs args rule: parseFlags.induct)
  case (2 fs s args)
  show ?case
  proof (cases "flag_text s")
    case None
    with 2 show ?thesis by simp
  next
    case tx: (Some tx)
    obtain name val where nv: "split_eq tx = (name, val)" by (cases "split_eq tx")
    then have fn: "flag_name s = Some name" by (simp add: flag_name_def tx)
    have ok: "\<not> (tx = [] \<or> hd tx = CHR ''-'' \<or> hd tx = CHR ''='')"
      using 2(4) by (auto simp: tx split: if_splits)
    with 2(4) nv obtain v where v: "fs name = Some v" by (auto simp: tx split: option.splits)
    note p = 2(4) tx nv v ok
    show ?thesis
    proof (cases v)
      case (BoolV b0)
      with p obtain b where b: "(case val of None \<Rightarrow> Some True | Some v \<Rightarrow> ParseBool v) = Some b"
          "parseFlags (fs(name \<mapsto> BoolV b)) args = Inr (fs', rest)" by (auto split: option.splits)
      from 2(1) [OF tx ok nv [symmetric] v BoolV b] v BoolV fn show ?thesis
        by (cases "n = name") auto
    next
      case (StrV v0)
      show ?thesis
      proof (cases val)
        case None
        with p StrV obtain w rest' where r: "args = w # rest'" "parseFlags (fs(name \<mapsto> StrV w)) rest' = Inr (fs', rest)"
          by (auto split: list.splits)
        from 2(2) [OF tx ok nv [symmetric] v StrV None r] v StrV fn r(1) show ?thesis
          by (cases "n = name") auto
      next
        case (Some w)
        with p StrV have r: "parseFlags (fs(name \<mapsto> StrV w)) args = Inr (fs', rest)" by simp
        from 2(3) [OF tx ok nv [symmetric] v StrV Some r] v StrV fn show ?thesis
          by (cases "n = name") auto
      qed
    qed
  qed
qed simp

lemma parse_undefined:
  assumes "flag_text s = Some tx" "split_eq tx = (name, val)" "tx \<noteq> []" "hd tx \<notin> {CHR ''-'', CHR ''=''}"
    "fs name = None" "name \<noteq> ''help''" "name \<noteq> ''h''"
  shows "parseFlags fs (s # args) = Inl (NotDefined name)"
  using assms by simp

end
