(* ===== verification/Hostile_Engine.thy ===== *)
theory Hostile_Engine
  imports Router Go_Hex
begin

text \<open>
  The hostile test build, \<open>internal/hostile/engine.go\<close>: an engine that wraps each Receive Session's
  blob channel in a pipe which drops, corrupts, duplicates or reorders blobs by the rules for the
  device, and accepts injections and replays. A pipe's goroutine takes one event at a time; the
  race between a send and the session's context is an oracle \<open>w\<close>, which says of the pipe's \<open>i\<close>-th
  send whether it went through.
\<close>

section \<open>Rules\<close>

record Rules =
  Drop :: bool
  Corrupt :: bool
  Duplicate :: bool
  ReorderWindow :: int

definition honest :: Rules where
  "honest = \<lparr>Drop = False, Corrupt = False, Duplicate = False, ReorderWindow = 0\<rparr>"

definition wildcardSelector :: string where "wildcardSelector = ''*''"
definition syntheticBlobIDBase :: int where "syntheticBlobIDBase = 2 ^ 62"
definition historyCap :: nat where "historyCap = 256"

text \<open>The copies: \<open>corruptCopy\<close> flips the byte in the middle of the envelope.\<close>

definition corruptCopy :: "DeliveryBlob \<Rightarrow> DeliveryBlob" where
  "corruptCopy b =
     \<lparr>BlobID = BlobID b, Env = (if Env b = [] then [] else (Env b)[length (Env b) div 2 := (Env b ! (length (Env b) div 2)) XOR 0xFF])\<rparr>"

definition duplicateCopy :: "DeliveryBlob \<Rightarrow> DeliveryBlob" where
  "duplicateCopy b = \<lparr>BlobID = BlobID b, Env = Env b\<rparr>"

section \<open>A pipe\<close>

text \<open>\<open>sent\<close> is everything put on the session's channel, \<open>tries\<close> counts the sends attempted.\<close>

record pipe =
  rules :: Rules
  held :: "DeliveryBlob list"
  history :: "DeliveryBlob list"
  sent :: "DeliveryBlob list"
  tries :: nat

definition new_pipe :: pipe where
  "new_pipe = \<lparr>rules = honest, held = [], history = [], sent = [], tries = 0\<rparr>"

text \<open>The bare send of \<open>replay\<close>, and \<open>send\<close>, which records the blob in the bounded history.\<close>

definition put_out :: "(nat \<Rightarrow> bool) \<Rightarrow> DeliveryBlob \<Rightarrow> pipe \<Rightarrow> bool \<times> pipe" where
  "put_out w b p = (if w (tries p) then (True, p\<lparr>sent := sent p @ [b], tries := tries p + 1\<rparr>) else (False, p\<lparr>tries := tries p + 1\<rparr>))"

definition pipe_send :: "(nat \<Rightarrow> bool) \<Rightarrow> DeliveryBlob \<Rightarrow> pipe \<Rightarrow> bool \<times> pipe" where
  "pipe_send w b p =
     (case put_out w b p of
        (False, p) \<Rightarrow> (False, p)
      | (True, p) \<Rightarrow>
          let h = history p @ [b]
          in (True, p\<lparr>history := (if length h > historyCap then drop (length h - historyCap) h else h)\<rparr>))"

text \<open>A loop of sends that stops when one loses against the context.\<close>

fun send_loop :: "(DeliveryBlob \<Rightarrow> pipe \<Rightarrow> bool \<times> pipe) \<Rightarrow> DeliveryBlob list \<Rightarrow> pipe \<Rightarrow> bool \<times> pipe" where
  "send_loop snd' [] p = (True, p)"
| "send_loop snd' (b # bs) p = (case snd' b p of (False, p) \<Rightarrow> (False, p) | (True, p) \<Rightarrow> send_loop snd' bs p)"

fun emit_loop :: "(nat \<Rightarrow> bool) \<Rightarrow> DeliveryBlob list \<Rightarrow> pipe \<Rightarrow> bool \<times> pipe" where
  "emit_loop w [] p = (True, p)"
| "emit_loop w (ob # obs) p =
     (if ReorderWindow (rules p) > 1 then
        let p = p\<lparr>held := held p @ [ob]\<rparr> in
        if int (length (held p)) < ReorderWindow (rules p) then emit_loop w obs p
        else case send_loop (pipe_send w) (rev (held p)) p of
            (False, p) \<Rightarrow> (False, p)
          | (True, p) \<Rightarrow> emit_loop w obs (p\<lparr>held := []\<rparr>)
      else case pipe_send w ob p of (False, p) \<Rightarrow> (False, p) | (True, p) \<Rightarrow> emit_loop w obs p)"

definition emit :: "(nat \<Rightarrow> bool) \<Rightarrow> DeliveryBlob \<Rightarrow> pipe \<Rightarrow> bool \<times> pipe" where
  "emit w b p =
     (if Drop (rules p) then (True, p)
      else let b = (if Corrupt (rules p) then corruptCopy b else b);
               out = [b] @ (if Duplicate (rules p) then [duplicateCopy b] else [])
           in emit_loop w out p)"

definition replay :: "(nat \<Rightarrow> bool) \<Rightarrow> int \<Rightarrow> pipe \<Rightarrow> bool \<times> pipe" where
  "replay w count p =
     (let start = (if count > 0 \<and> int (length (history p)) > count then length (history p) - nat count else 0)
      in send_loop (put_out w) (drop start (history p)) p)"

text \<open>The flush at the end of the routing loop goes on after a send that lost.\<close>

fun flush_held :: "(nat \<Rightarrow> bool) \<Rightarrow> DeliveryBlob list \<Rightarrow> pipe \<Rightarrow> pipe" where
  "flush_held w [] p = p"
| "flush_held w (b # bs) p = flush_held w bs (snd (pipe_send w b p))"

text \<open>
  What the \<open>select\<close> of \<open>run\<close> takes next: a blob from the routing loop, with the rules in force for
  the device at that moment; the end of the routing loop; a command; or the context.
\<close>

datatype pipe_event = FromLoop Rules DeliveryBlob | LoopEnded | Injected DeliveryBlob | ReplayCount int | ReplayAll | CtxDone

fun run :: "(nat \<Rightarrow> bool) \<Rightarrow> pipe_event list \<Rightarrow> pipe \<Rightarrow> pipe" where
  "run w [] p = p"
| "run w (CtxDone # es) p = p"
| "run w (LoopEnded # es) p = flush_held w (rev (held p)) p"
| "run w (FromLoop r b # es) p = (case emit w b (p\<lparr>rules := r\<rparr>) of (False, p) \<Rightarrow> p | (True, p) \<Rightarrow> run w es p)"
| "run w (Injected b # es) p = (case pipe_send w b p of (False, p) \<Rightarrow> p | (True, p) \<Rightarrow> run w es p)"
| "run w (ReplayCount n # es) p = (case replay w n p of (False, p) \<Rightarrow> p | (True, p) \<Rightarrow> run w es p)"
| "run w (ReplayAll # es) p = (case replay w 0 p of (False, p) \<Rightarrow> p | (True, p) \<Rightarrow> run w es p)"

section \<open>The engine\<close>

text \<open>The command queues of a wrapped session, with the capacities of its channels.\<close>

record wrapped =
  w_key :: RecipientKey
  injectCh :: "DeliveryBlob list"
  replayCh :: "int list"
  replayAll :: bool

text \<open>The live pipes are numbered; \<open>made\<close> counts the sessions wrapped so far.\<close>

record Engine =
  e_rules :: "string \<rightharpoonup> Rules"
  e_pipes :: "(nat \<times> wrapped) list"
  e_made :: nat
  synthID :: int

definition NewEngine :: Engine where
  "NewEngine = \<lparr>e_rules = Map.empty, e_pipes = [], e_made = 0, synthID = 0\<rparr>"

definition SetRules :: "string \<Rightarrow> Rules \<Rightarrow> Engine \<Rightarrow> string option \<times> Engine" where
  "SetRules selector r e =
     (if selector \<noteq> wildcardSelector \<and> (DecodeString selector = None \<or> length selector \<noteq> 64)
      then (Some (''device selector must be '' @ [CHR 0x22] @ wildcardSelector @ [CHR 0x22] @ '' or a 64-char hex device key''), e)
      else (None, e\<lparr>e_rules := (e_rules e)(selector \<mapsto> r)\<rparr>))"

definition ClearRules :: "string \<Rightarrow> Engine \<Rightarrow> Engine" where
  "ClearRules selector e = e\<lparr>e_rules := (e_rules e)(selector := None)\<rparr>"

definition rulesFor :: "RecipientKey \<Rightarrow> Engine \<Rightarrow> Rules" where
  "rulesFor key e =
     (case e_rules e (EncodeToString key) of
        Some r \<Rightarrow> r
      | None \<Rightarrow> (case e_rules e wildcardSelector of Some r \<Rightarrow> r | None \<Rightarrow> honest))"

definition selectorLabel :: "string \<Rightarrow> string" where
  "selectorLabel selector = (if length selector > 8 then take 8 selector else selector)"

definition WrapSession :: "RecipientKey \<Rightarrow> Engine \<Rightarrow> nat \<times> Engine" where
  "WrapSession key e =
     (e_made e, e\<lparr>e_pipes := e_pipes e @ [(e_made e, \<lparr>w_key = key, injectCh = [], replayCh = [], replayAll = False\<rparr>)],
                  e_made := e_made e + 1\<rparr>)"

definition unwrap :: "nat \<Rightarrow> Engine \<Rightarrow> Engine" where
  "unwrap i e = e\<lparr>e_pipes := filter (\<lambda>q. fst q \<noteq> i) (e_pipes e)\<rparr>"

definition targets :: "RecipientKey \<Rightarrow> Engine \<Rightarrow> nat list" where
  "targets key e = map fst (filter (\<lambda>q. w_key (snd q) = key) (e_pipes e))"

definition upd_pipe :: "nat \<Rightarrow> (wrapped \<Rightarrow> wrapped) \<Rightarrow> Engine \<Rightarrow> Engine" where
  "upd_pipe i g e = e\<lparr>e_pipes := map (\<lambda>q. if fst q = i then (i, g (snd q)) else q) (e_pipes e)\<rparr>"

definition pipe_at :: "nat \<Rightarrow> Engine \<Rightarrow> wrapped option" where
  "pipe_at i e = map_of (e_pipes e) i"

text \<open>Error texts carry the first four bytes of the key.\<close>

definition no_session :: "RecipientKey \<Rightarrow> string" where
  "no_session key = ''no live Receive Session for device '' @ EncodeToString (take 4 key)"

text \<open>
  The loops over the targets, in any order \<open>ord\<close> (Go's map order): a full queue ends the loop
  with an error, after the pipes before it were served.
\<close>

fun inject_loop :: "DeliveryBlob \<Rightarrow> RecipientKey \<Rightarrow> nat list \<Rightarrow> Engine \<Rightarrow> string option \<times> Engine" where
  "inject_loop b key [] e = (None, e)"
| "inject_loop b key (i # is) e =
     (case pipe_at i e of
        None \<Rightarrow> inject_loop b key is e
      | Some q \<Rightarrow>
          if length (injectCh q) < 16 then inject_loop b key is (upd_pipe i (\<lambda>q. q\<lparr>injectCh := injectCh q @ [b]\<rparr>) e)
          else (Some (''inject queue full for device '' @ EncodeToString (take 4 key)), e))"

definition Inject :: "(nat list \<Rightarrow> nat list) \<Rightarrow> RecipientKey \<Rightarrow> bytes \<Rightarrow> Engine \<Rightarrow> string option \<times> Engine" where
  "Inject ord key env e =
     (let e = e\<lparr>synthID := synthID e + 1\<rparr>;
          blob = \<lparr>BlobID = syntheticBlobIDBase + synthID e, Env = env\<rparr>;
          ts = ord (targets key e)
      in if ts = [] then (Some (no_session key), e) else inject_loop blob key ts e)"

fun replay_loop :: "int \<Rightarrow> RecipientKey \<Rightarrow> nat list \<Rightarrow> Engine \<Rightarrow> string option \<times> Engine" where
  "replay_loop n key [] e = (None, e)"
| "replay_loop n key (i # is) e =
     (if n \<le> 0 then replay_loop n key is (upd_pipe i (\<lambda>q. q\<lparr>replayAll := True\<rparr>) e)
      else case pipe_at i e of
          None \<Rightarrow> replay_loop n key is e
        | Some q \<Rightarrow>
            if length (replayCh q) < 4 then replay_loop n key is (upd_pipe i (\<lambda>q. q\<lparr>replayCh := replayCh q @ [n]\<rparr>) e)
            else (Some (''replay queue full for device '' @ EncodeToString (take 4 key)), e))"

definition Replay :: "(nat list \<Rightarrow> nat list) \<Rightarrow> RecipientKey \<Rightarrow> int \<Rightarrow> Engine \<Rightarrow> string option \<times> Engine" where
  "Replay ord key count e =
     (let ts = ord (targets key e) in if ts = [] then (Some (no_session key), e) else replay_loop count key ts e)"

section \<open>What a session is sent\<close>

text \<open>The rules as a function on streams: drop, corrupt, duplicate, then reverse each window.\<close>

definition transform :: "Rules \<Rightarrow> DeliveryBlob \<Rightarrow> DeliveryBlob list" where
  "transform r b =
     (if Drop r then []
      else let b = (if Corrupt r then corruptCopy b else b) in b # (if Duplicate r then [b] else []))"

function chunks :: "nat \<Rightarrow> 'a list \<Rightarrow> 'a list list" where
  "chunks n xs = (if n = 0 \<or> xs = [] then [] else take n xs # chunks n (drop n xs))"
  by pat_completeness auto
termination by (relation "measure (length \<circ> snd)") auto

declare chunks.simps [simp del]

definition hostile_stream :: "Rules \<Rightarrow> DeliveryBlob list \<Rightarrow> DeliveryBlob list" where
  "hostile_stream r bs =
     (let out = concat (map (transform r) bs)
      in if ReorderWindow r > 1 then concat (map rev (chunks (nat (ReorderWindow r)) out)) else out)"

text \<open>The window, separated from the sending: what goes out, and what is held at the end.\<close>

fun reorder :: "nat \<Rightarrow> 'a list \<Rightarrow> 'a list \<Rightarrow> 'a list \<times> 'a list" where
  "reorder n h [] = ([], h)"
| "reorder n h (y # ys) =
     (if length h + 1 < n then reorder n (h @ [y]) ys
      else case reorder n [] ys of (out, h') \<Rightarrow> (rev (h @ [y]) @ out, h'))"

lemma reorder_append:
  "reorder n h (xs @ ys) = (case reorder n h xs of (o1, h1) \<Rightarrow> (case reorder n h1 ys of (o2, h2) \<Rightarrow> (o1 @ o2, h2)))"
  by (induction n h xs rule: reorder.induct) (auto split: prod.split)

lemma reorder_chunks:
  assumes "length h < n"
  shows "case reorder n h ys of (out, h') \<Rightarrow> out @ rev h' = concat (map rev (chunks n (h @ ys)))"
  using assms
proof (induction n h ys rule: reorder.induct)
  case (1 n h)
  then show ?case by (cases "h = []") (simp_all add: chunks.simps [of n h] chunks.simps [of n "[]"])
next
  case (2 n h y ys)
  show ?case
  proof (cases "length h + 1 < n")
    case True
    with 2 show ?thesis by simp
  next
    case False
    then have n: "n = length h + 1" using 2 by simp
    have "chunks n (h @ y # ys) = (h @ [y]) # chunks n ys" by (subst chunks.simps) (simp add: n)
    with 2(2) [OF False] show ?thesis by (auto simp: n split: prod.splits)
  qed
qed

lemma duplicateCopy_id [simp]: "duplicateCopy b = b"
  by (simp add: duplicateCopy_def)

text \<open>When no send loses against the context.\<close>

abbreviation always :: "nat \<Rightarrow> bool" where "always \<equiv> \<lambda>_. True"

lemma pipe_send_always:
  "\<exists>p'. pipe_send always b p = (True, p') \<and> sent p' = sent p @ [b] \<and> held p' = held p \<and> rules p' = rules p"
  by (simp add: pipe_send_def put_out_def Let_def)

lemma send_loop_always:
  "\<exists>p'. send_loop (pipe_send always) bs p = (True, p') \<and> sent p' = sent p @ bs \<and> held p' = held p \<and> rules p' = rules p"
proof (induction bs arbitrary: p)
  case (Cons b bs)
  obtain p1 where "pipe_send always b p = (True, p1)" "sent p1 = sent p @ [b]" "held p1 = held p" "rules p1 = rules p"
    using pipe_send_always by blast
  with Cons [of p1] show ?case by auto
qed simp

lemma emit_loop_always:
  "\<exists>p'. emit_loop always obs p = (True, p') \<and> rules p' = rules p \<and>
     (if ReorderWindow (rules p) > 1
      then (sent p', held p') = (case reorder (nat (ReorderWindow (rules p))) (held p) obs of (out, h) \<Rightarrow> (sent p @ out, h))
      else sent p' = sent p @ obs \<and> held p' = held p)"
proof (induction obs arbitrary: p)
  case (Cons ob obs)
  let ?q = "p\<lparr>held := held p @ [ob]\<rparr>"
  obtain p1 where p1: "pipe_send always ob p = (True, p1)" "sent p1 = sent p @ [ob]" "held p1 = held p" "rules p1 = rules p"
    using pipe_send_always by blast
  obtain p2 where p2: "send_loop (pipe_send always) (rev (held ?q)) ?q = (True, p2)" "sent p2 = sent p @ rev (held p @ [ob])"
      "rules p2 = rules p"
    using send_loop_always [of "rev (held ?q)" ?q] by auto
  show ?case
  proof (cases "ReorderWindow (rules p) > 1")
    case False
    with p1 Cons [of p1] show ?thesis by auto
  next
    case True
    show ?thesis
    proof (cases "int (length (held p @ [ob])) < ReorderWindow (rules p)")
      case short: True
      then have "length (held p) + 1 < nat (ReorderWindow (rules p))" by simp
      with True short Cons [of ?q] show ?thesis by simp
    next
      case full: False
      then have "\<not> length (held p) + 1 < nat (ReorderWindow (rules p))" by simp
      with True full p2 Cons [of "p2\<lparr>held := []\<rparr>"] show ?thesis by (auto split: prod.splits)
    qed
  qed
qed simp

lemma emit_eq: "emit w b p = emit_loop w (transform (rules p) b) p"
  by (simp add: emit_def transform_def Let_def del: emit_loop.simps(2))

lemma emit_always:
  assumes "r = rules p"
  shows "\<exists>p'. emit always b p = (True, p') \<and> rules p' = r \<and>
     (if ReorderWindow r > 1
      then (sent p', held p') = (case reorder (nat (ReorderWindow r)) (held p) (transform r b) of (out, h) \<Rightarrow> (sent p @ out, h))
      else sent p' = sent p @ transform r b \<and> held p' = held p)"
  unfolding assms emit_eq by (rule emit_loop_always)

lemma flush_held_always: "sent (flush_held always bs p) = sent p @ bs"
proof (induction bs arbitrary: p)
  case (Cons b bs)
  obtain p1 where "pipe_send always b p = (True, p1)" "sent p1 = sent p @ [b]" using pipe_send_always by blast
  with Cons [of p1] show ?case by simp
qed simp

lemma run_stream:
  "sent (run always (map (FromLoop r) bs @ [LoopEnded]) p) =
     (if ReorderWindow r > 1
      then sent p @ (case reorder (nat (ReorderWindow r)) (held p) (concat (map (transform r) bs)) of (out, h) \<Rightarrow> out @ rev h)
      else sent p @ concat (map (transform r) bs) @ rev (held p))"
proof (induction bs arbitrary: p)
  case Nil
  show ?case by (simp add: flush_held_always)
next
  case (Cons b bs)
  obtain p1 where "emit always b (p\<lparr>rules := r\<rparr>) = (True, p1)" "rules p1 = r"
    "if ReorderWindow r > 1
      then (sent p1, held p1) = (case reorder (nat (ReorderWindow r)) (held p) (transform r b) of (out, h) \<Rightarrow> (sent p @ out, h))
      else sent p1 = sent p @ transform r b \<and> held p1 = held p"
    using emit_always [of r "p\<lparr>rules := r\<rparr>" b] by auto
  with Cons [of p1] show ?case by (auto simp: reorder_append split: prod.splits if_splits)
qed

lemma run_always:
  "sent (run always (map (FromLoop r) bs @ [LoopEnded]) new_pipe) = hostile_stream r bs"
  using reorder_chunks [of "[]" "nat (ReorderWindow r)" "concat (map (transform r) bs)"]
  by (auto simp: run_stream hostile_stream_def Let_def new_pipe_def split: prod.splits)

section \<open>Whatever the context and the commands do\<close>

definition sources :: "pipe_event list \<Rightarrow> DeliveryBlob set" where
  "sources es = {c. \<exists>r b. FromLoop r b \<in> set es \<and> c \<in> set (transform r b)} \<union> {b. Injected b \<in> set es}"

definition drawn_from :: "DeliveryBlob set \<Rightarrow> pipe \<Rightarrow> bool" where
  "drawn_from A p \<longleftrightarrow> set (sent p) \<subseteq> A \<and> set (held p) \<subseteq> A \<and> set (history p) \<subseteq> A \<and> length (history p) \<le> historyCap"

lemma drawn_put_out: "drawn_from A p \<Longrightarrow> b \<in> A \<Longrightarrow> put_out w b p = (ok, p') \<Longrightarrow> drawn_from A p'"
  by (auto simp: drawn_from_def put_out_def split: if_splits)

lemma drawn_send:
  assumes "drawn_from A p" "b \<in> A" "pipe_send w b p = (ok, p')"
  shows "drawn_from A p'"
proof -
  have d: "x \<in> A" if "x \<in> set (drop i (history p @ [b]))" for i x
    using that assms(1,2) in_set_dropD [OF that] by (auto simp: drawn_from_def)
  from assms show ?thesis
    by (auto simp: drawn_from_def pipe_send_def put_out_def Let_def simp del: drop_append split: if_splits dest: d)
qed

lemma drawn_send_loop:
  assumes "\<And>b p ok p'. drawn_from A p \<Longrightarrow> b \<in> A \<Longrightarrow> sd b p = (ok, p') \<Longrightarrow> drawn_from A p'"
    "drawn_from A p" "set bs \<subseteq> A" "send_loop sd bs p = (ok, p')"
  shows "drawn_from A p'"
  using assms(2-4)
proof (induction bs arbitrary: p)
  case (Cons b bs)
  obtain ok1 p1 where p1: "sd b p = (ok1, p1)" by fastforce
  have "drawn_from A p1" using assms(1) [OF Cons.prems(1) _ p1] Cons.prems(2) by simp
  with Cons p1 show ?case by (cases ok1) auto
qed simp

lemma drawn_emit_loop: "drawn_from A p \<Longrightarrow> set obs \<subseteq> A \<Longrightarrow> emit_loop w obs p = (ok, p') \<Longrightarrow> drawn_from A p'"
proof (induction obs arbitrary: p)
  case (Cons ob obs)
  let ?q = "p\<lparr>held := held p @ [ob]\<rparr>"
  have q: "drawn_from A ?q" "set (rev (held ?q)) \<subseteq> A" using Cons.prems by (auto simp: drawn_from_def)
  obtain ok1 p1 where p1: "pipe_send w ob p = (ok1, p1)" by fastforce
  obtain ok2 p2 where p2: "send_loop (pipe_send w) (rev (held ?q)) ?q = (ok2, p2)" by fastforce
  have w1: "drawn_from A p1" using drawn_send [OF Cons.prems(1) _ p1] Cons.prems(2) by simp
  have w2: "drawn_from A p2" by (rule drawn_send_loop [OF _ q p2]) (blast intro: drawn_send)
  then have "drawn_from A (p2\<lparr>held := []\<rparr>)" by (simp add: drawn_from_def)
  with Cons q w1 w2 p1 p2 show ?case
    by (auto simp: Let_def split: if_splits prod.splits bool.splits)
qed simp

lemma drawn_emit: "drawn_from A p \<Longrightarrow> set (transform (rules p) b) \<subseteq> A \<Longrightarrow> emit w b p = (ok, p') \<Longrightarrow> drawn_from A p'"
  unfolding emit_eq by (rule drawn_emit_loop)

lemma drawn_replay:
  assumes "drawn_from A p" "replay w n p = (ok, p')"
  shows "drawn_from A p'"
proof -
  obtain i where i: "send_loop (put_out w) (drop i (history p)) p = (ok, p')" using assms(2) by (auto simp: replay_def Let_def)
  have d: "set (drop i (history p)) \<subseteq> A" using assms(1) by (auto simp: drawn_from_def dest: in_set_dropD)
  show ?thesis by (rule drawn_send_loop [OF _ assms(1) d i]) (blast intro: drawn_put_out)
qed

lemma drawn_flush: "drawn_from A p \<Longrightarrow> set bs \<subseteq> A \<Longrightarrow> drawn_from A (flush_held w bs p)"
proof (induction bs arbitrary: p)
  case (Cons b bs)
  obtain ok p1 where p1: "pipe_send w b p = (ok, p1)" by fastforce
  with Cons drawn_send [OF Cons.prems(1) _ p1] show ?case by simp
qed simp

lemma drawn_run: "drawn_from A p \<Longrightarrow> sources es \<subseteq> A \<Longrightarrow> drawn_from A (run w es p)"
proof (induction w es p rule: run.induct)
  case (3 w es p)
  then have "set (rev (held p)) \<subseteq> A" by (simp add: drawn_from_def)
  with 3 show ?case by (simp add: drawn_flush)
next
  case (4 w r b es p)
  obtain ok p1 where e: "emit w b (p\<lparr>rules := r\<rparr>) = (ok, p1)" by fastforce
  have "drawn_from A (p\<lparr>rules := r\<rparr>)" using 4(2) by (simp add: drawn_from_def)
  moreover have "set (transform r b) \<subseteq> A" using 4(3) by (auto simp: sources_def)
  ultimately have "drawn_from A p1" using drawn_emit [OF _ _ e] by simp
  moreover have "sources es \<subseteq> A" using 4(3) by (auto simp: sources_def)
  ultimately show ?case using 4(1) e by (auto split: bool.splits)
next
  case (5 w b es p)
  obtain ok p1 where e: "pipe_send w b p = (ok, p1)" by fastforce
  have "drawn_from A p1" using drawn_send [OF 5(2) _ e] 5(3) by (auto simp: sources_def)
  moreover have "sources es \<subseteq> A" using 5(3) by (auto simp: sources_def)
  ultimately show ?case using 5(1) e by (auto split: bool.splits)
next
  case (6 w n es p)
  obtain ok p1 where e: "replay w n p = (ok, p1)" by fastforce
  have "sources es \<subseteq> A" using 6(3) by (auto simp: sources_def)
  with drawn_replay [OF 6(2) e] 6(1) e show ?case by (auto split: bool.splits)
next
  case (7 w es p)
  obtain ok p1 where e: "replay w 0 p = (ok, p1)" by fastforce
  have "sources es \<subseteq> A" using 7(3) by (auto simp: sources_def)
  with drawn_replay [OF 7(2) e] 7(1) e show ?case by (auto split: bool.splits)
qed simp_all

lemma hostile_stream_honest: "hostile_stream honest bs = bs"
proof -
  have "transform honest = (\<lambda>b. [b])" by (simp add: transform_def honest_def fun_eq_iff)
  then show ?thesis by (simp add: hostile_stream_def honest_def)
qed


end
