(* ===== verification/Go_Net.thy ===== *)
theory Go_Net
  imports Relay_Prelude
begin

text \<open>The parts of package \<open>net\<close> that look at addresses: host and port of an address, loopback IPs.\<close>

text \<open>\<open>net.SplitHostPort\<close>; its errors are \<open>None\<close>.\<close>

definition last_colon :: "string \<Rightarrow> (string \<times> string) option" where
  "last_colon s =
     (if CHR '':'' \<in> set s
      then Some (rev (tl (dropWhile (\<lambda>c. c \<noteq> CHR '':'') (rev s))), rev (takeWhile (\<lambda>c. c \<noteq> CHR '':'') (rev s)))
      else None)"

definition SplitHostPort :: "string \<Rightarrow> (string \<times> string) option" where
  "SplitHostPort hostport =
     (case last_colon hostport of
        None \<Rightarrow> None
      | Some (before, port) \<Rightarrow>
          if hd hostport = CHR ''['' then
            (let inside = takeWhile (\<lambda>c. c \<noteq> CHR '']'') hostport in
             if CHR '']'' \<notin> set hostport then None
             else if length inside + 1 = length hostport then None
             else if length inside + 1 \<noteq> length before then None
             else if CHR ''['' \<in> set (drop 1 hostport) \<or> CHR '']'' \<in> set (drop (length inside + 1) hostport) then None
             else Some (drop 1 inside, port))
          else if CHR '':'' \<in> set before then None
          else if CHR ''['' \<in> set hostport \<or> CHR '']'' \<in> set hostport then None
          else Some (before, port))"

text \<open>An IP address has four or sixteen bytes; \<open>To4\<close> also reads the IPv4-mapped form.\<close>

definition To4 :: "bytes \<Rightarrow> bytes option" where
  "To4 ip =
     (if length ip = 4 then Some ip
      else if length ip = 16 \<and> take 12 ip = replicate 10 0 @ [0xFF, 0xFF] then Some (drop 12 ip)
      else None)"

definition IsLoopback :: "bytes \<Rightarrow> bool" where
  "IsLoopback ip = (case To4 ip of Some v \<Rightarrow> hd v = 127 | None \<Rightarrow> ip = replicate 15 0 @ [1])"

end
