(* ===== verification/Hostile_Control.thy ===== *)
theory Hostile_Control
  imports Hostile_Engine Go_Net Go_Strconv
begin

text \<open>
  The control port of the hostile build, \<open>internal/hostile/control.go\<close>: the commands, what they do
  to the engine, and the check that the port is bound to loopback addresses only; and the wrapper
  of \<open>internal/relay/wrap_hostile.go\<close>. The JSON decoder and the resolver are arguments.
\<close>

section \<open>Commands\<close>

record command =
  Cmd :: string
  Device :: string
  cDrop :: bool
  cCorrupt :: bool
  cDuplicate :: bool
  Reorder :: int
  cEnvelope :: string
  Count :: int

datatype control_error =
    Text string
  | EnvelopeNotHex     \<comment> \<open>the decoder's own text follows\<close>
  | EnvelopeEmpty
  | DeviceKeyWanted
  | UnknownCmd string
  | BadJSON string

text \<open>A response: \<open>ok\<close>, or the error.\<close>

type_synonym response = "control_error option"

definition parseDeviceKey :: "string \<Rightarrow> control_error + RecipientKey" where
  "parseDeviceKey s =
     (case DecodeString s of
        None \<Rightarrow> Inl DeviceKeyWanted
      | Some raw \<Rightarrow> if length raw \<noteq> 32 then Inl DeviceKeyWanted else Inr raw)"

definition apply_cmd :: "(nat list \<Rightarrow> nat list) \<Rightarrow> command \<Rightarrow> Engine \<Rightarrow> response \<times> Engine" where
  "apply_cmd ord c e =
     (if Cmd c = ''set'' then
        (case SetRules (Device c) \<lparr>Drop = cDrop c, Corrupt = cCorrupt c, Duplicate = cDuplicate c, ReorderWindow = Reorder c\<rparr> e of
           (Some err, e) \<Rightarrow> (Some (Text err), e)
         | (None, e) \<Rightarrow> (None, e))
      else if Cmd c = ''clear'' then (None, ClearRules (Device c) e)
      else if Cmd c = ''inject'' then
        (case parseDeviceKey (Device c) of
           Inl err \<Rightarrow> (Some err, e)
         | Inr key \<Rightarrow>
             (case DecodeString (cEnvelope c) of
                None \<Rightarrow> (Some EnvelopeNotHex, e)
              | Some env \<Rightarrow>
                  if env = [] then (Some EnvelopeEmpty, e)
                  else (case Inject ord key env e of (Some err, e) \<Rightarrow> (Some (Text err), e) | (None, e) \<Rightarrow> (None, e))))
      else if Cmd c = ''replay'' then
        (case parseDeviceKey (Device c) of
           Inl err \<Rightarrow> (Some err, e)
         | Inr key \<Rightarrow> (case Replay ord key (Count c) e of (Some err, e) \<Rightarrow> (Some (Text err), e) | (None, e) \<Rightarrow> (None, e)))
      else (Some (UnknownCmd (Cmd c)), e))"

text \<open>
  One connection: its lines in, its responses out. Blank lines get none; a line that does not
  fit the scanner's buffer ends the connection.
\<close>

definition max_line :: nat where "max_line = 2 * 1024 * 1024"

fun handleControlConn ::
    "(string \<Rightarrow> string + command) \<Rightarrow> (nat list \<Rightarrow> nat list) \<Rightarrow> string list \<Rightarrow> Engine \<Rightarrow> response list \<times> Engine" where
  "handleControlConn decode ord [] e = ([], e)"
| "handleControlConn decode ord (l # ls) e =
     (if length l \<ge> max_line then ([], e)
      else let line = TrimSpace l in
        if line = [] then handleControlConn decode ord ls e
        else case (case decode line of Inl err \<Rightarrow> (Some (BadJSON err), e) | Inr c \<Rightarrow> apply_cmd ord c e) of
            (r, e) \<Rightarrow> (case handleControlConn decode ord ls e of (rs, e) \<Rightarrow> (r # rs, e)))"

section \<open>The listener\<close>

datatype listen_error = BadAddress string | WildcardHost | Unresolved string go_err | NotLoopback string | ListenFailed go_err

definition requireLoopback :: "(string \<Rightarrow> go_err + bytes list) \<Rightarrow> string \<Rightarrow> listen_error option" where
  "requireLoopback LookupIP host =
     (if host = [] then Some WildcardHost
      else (case LookupIP host of
        Inl err \<Rightarrow> Some (Unresolved host err)
      | Inr ips \<Rightarrow> if \<exists>ip \<in> set ips. \<not> IsLoopback ip then Some (NotLoopback host) else None))"

definition ListenControl :: "(string \<Rightarrow> go_err + bytes list) \<Rightarrow> go_err option \<Rightarrow> string \<Rightarrow> listen_error option" where
  "ListenControl LookupIP listen addr =
     (case SplitHostPort addr of
        None \<Rightarrow> Some (BadAddress addr)
      | Some (host, _) \<Rightarrow>
          (case requireLoopback LookupIP host of
             Some err \<Rightarrow> Some err
           | None \<Rightarrow> map_option ListenFailed listen))"

text \<open>
  \<open>serveControl\<close> and \<open>Close\<close>: the listener serves connections until it is closed, which the watcher
  does once \<open>done\<close> is closed; \<open>Close\<close> closes that channel once. \<open>served\<close> counts the connections.
\<close>

record control =
  done_closed :: bool
  ctl_open :: bool
  accepting :: bool
  served :: nat

definition Engine_Close :: "control \<Rightarrow> control" where
  "Engine_Close c = (if done_closed c then c else c\<lparr>done_closed := True\<rparr>)"

inductive serveControl :: "control \<Rightarrow> control \<Rightarrow> bool" where
  watch: "done_closed c \<Longrightarrow> serveControl c (c\<lparr>ctl_open := False\<rparr>)"
| accept: "accepting c \<Longrightarrow> ctl_open c \<Longrightarrow> serveControl c (c\<lparr>served := served c + 1\<rparr>)"
| accept_error: "accepting c \<Longrightarrow> serveControl c (c\<lparr>accepting := False\<rparr>)"

section \<open>The wrapper\<close>

text \<open>
  The router's \<open>wrapper\<close> field is the engine, if one is installed. The channel a session reads is
  the router's own (\<open>None\<close>) or the output of a pipe.
\<close>

definition wrapDelivery :: "RecipientKey \<Rightarrow> Engine option \<Rightarrow> nat option \<times> Engine option" where
  "wrapDelivery key wrapper =
     (case wrapper of
        None \<Rightarrow> (None, None)
      | Some e \<Rightarrow> (case WrapSession key e of (i, e) \<Rightarrow> (Some i, Some e)))"

text \<open>The release build's half (\<open>wrap_release.go\<close>) has no wrapper to ask.\<close>

definition wrapDelivery_release :: "RecipientKey \<Rightarrow> Engine option \<Rightarrow> nat option \<times> Engine option" where
  "wrapDelivery_release key wrapper = (None, wrapper)"

definition SetDeliveryWrapper :: "Engine option \<Rightarrow> Engine option \<Rightarrow> Engine option" where
  "SetDeliveryWrapper w wrapper = w"

section \<open>Facts\<close>

text \<open>A rule set for a key's own lower-case selector is in force for it, and for no other key.\<close>

lemma SetRules_in_force:
  assumes "length key = 32"
  shows "fst (SetRules (EncodeToString key) r e) = None" "rulesFor key (snd (SetRules (EncodeToString key) r e)) = r"
    "length k = 32 \<Longrightarrow> k \<noteq> key \<Longrightarrow> rulesFor k (snd (SetRules (EncodeToString key) r e)) = rulesFor k e"
proof -
  have "EncodeToString key \<noteq> wildcardSelector"
  proof
    assume "EncodeToString key = wildcardSelector"
    from arg_cong [OF this, of length] assms show False by (simp add: wildcardSelector_def)
  qed
  then show "fst (SetRules (EncodeToString key) r e) = None" "rulesFor key (snd (SetRules (EncodeToString key) r e)) = r"
    "length k = 32 \<Longrightarrow> k \<noteq> key \<Longrightarrow> rulesFor k (snd (SetRules (EncodeToString key) r e)) = rulesFor k e"
    using assms by (auto simp: SetRules_def rulesFor_def split: option.split)
qed

text \<open>
  A selector that is not all lower case is accepted as well, and never takes effect: lookups use
  the lower-case form. Here the key of bytes \<open>0xAB\<close>, written in capitals.
\<close>

lemma SetRules_upper_case:
  "let key = replicate 32 0xAB; sel = concat (replicate 32 ''AB'')
   in fst (SetRules sel r e) = None \<and> DecodeString sel = Some key \<and> rulesFor key (snd (SetRules sel r e)) = rulesFor key e"
proof -
  let ?key = "replicate 32 0xAB :: bytes" and ?sel = "concat (replicate 32 ''AB'')"
  have d: "DecodeString ?sel = Some ?key" by code_simp
  have n: "EncodeToString ?key \<noteq> ?sel" "?sel \<noteq> wildcardSelector" "length ?sel = 64" by code_simp+
  have w: "EncodeToString ?key \<noteq> wildcardSelector" by code_simp
  from d n n(2) [symmetric] w show ?thesis
    by (simp add: SetRules_def rulesFor_def Let_def split: option.split)
qed

text \<open>Every non-blank line that fits the buffer is answered once.\<close>

lemma one_response_per_line:
  assumes "\<forall>l \<in> set ls. length l < max_line"
  shows "length (fst (handleControlConn decode ord ls e)) = length (filter (\<lambda>l. TrimSpace l \<noteq> []) ls)"
  using assms
  by (induction ls arbitrary: e) (auto simp: Let_def case_prod_beta)

text \<open>Injected blobs get IDs of their own, above every ID a store assigns in practice.\<close>

lemma inject_loop_synthID: "inject_loop b key is e = (r, e') \<Longrightarrow> synthID e' = synthID e"
  by (induction b key "is" e rule: inject_loop.induct) (auto simp: upd_pipe_def split: option.splits if_splits)

definition blobs_queued :: "Engine \<Rightarrow> DeliveryBlob set" where
  "blobs_queued e = (\<Union>q \<in> set (e_pipes e). set (injectCh (snd q)))"

definition synth_ok :: "Engine \<Rightarrow> bool" where
  "synth_ok e \<longleftrightarrow> 0 \<le> synthID e \<and> (\<forall>b \<in> blobs_queued e. syntheticBlobIDBase < BlobID b \<and> BlobID b \<le> syntheticBlobIDBase + synthID e)"

lemma upd_inject_queued:
  "blobs_queued (upd_pipe i (\<lambda>q. q\<lparr>injectCh := injectCh q @ [b]\<rparr>) e) \<subseteq> insert b (blobs_queued e)"
  by (auto simp: blobs_queued_def upd_pipe_def split: if_splits)

lemma inject_loop_queued: "inject_loop b key is e = (r, e') \<Longrightarrow> blobs_queued e' \<subseteq> insert b (blobs_queued e)"
proof (induction b key "is" e rule: inject_loop.induct)
  case (2 b key i is' e)
  then show ?case using upd_inject_queued [of i b e] by (auto split: option.splits if_splits)
qed auto

lemma Inject_synth_ok:
  assumes "synth_ok e" "Inject ord key env e = (r, e')"
  shows "synth_ok e'"
proof -
  let ?e = "e\<lparr>synthID := synthID e + 1\<rparr>" and ?b = "\<lparr>BlobID = syntheticBlobIDBase + (synthID e + 1), Env = env\<rparr>"
  have q: "blobs_queued ?e = blobs_queued e" by (simp add: blobs_queued_def)
  have "synthID e' = synthID e + 1 \<and> blobs_queued e' \<subseteq> insert ?b (blobs_queued e)"
    using assms(2) inject_loop_synthID [of ?b key _ ?e r e'] inject_loop_queued [of ?b key _ ?e r e']
    by (auto simp: Inject_def Let_def q split: if_splits)
  with assms(1) show ?thesis by (fastforce simp: synth_ok_def)
qed

text \<open>So acknowledging an injected blob changes nothing in a store that has not assigned such IDs.\<close>

context inbox_contract
begin

lemma injected_ack_harmless:
  assumes "invar st" "last_id st \<le> syntheticBlobIDBase" "syntheticBlobIDBase < i"
    "DeleteForRecipient S f st k [i] = (None, st')"
  shows "rows st' = rows st"
proof -
  have "row_id r \<noteq> i" if "r \<in> set (rows st)" for r using rows_bound [OF assms(1) that] assms(2,3) by simp
  with delete_ok [OF assms(1,4)] show ?thesis by (auto simp: filter_id_conv)
qed

end

text \<open>Once the watcher has run, no control connection is served again; a second \<open>Close\<close> does nothing.\<close>

lemma closed_control_serves_nobody:
  assumes "serveControl\<^sup>*\<^sup>* c c'" "\<not> ctl_open c"
  shows "\<not> ctl_open c' \<and> served c' = served c"
  using assms by (induction rule: rtranclp_induct) (auto elim: serveControl.cases)

lemma Close_idempotent: "Engine_Close (Engine_Close c) = Engine_Close c"
  by (simp add: Engine_Close_def)

text \<open>The control port is bound only where every address of the host is a loopback address.\<close>

lemma ListenControl_loopback:
  assumes "ListenControl LookupIP listen addr = None"
  shows "\<exists>host port ips. SplitHostPort addr = Some (host, port) \<and> host \<noteq> [] \<and> LookupIP host = Inr ips \<and> (\<forall>ip \<in> set ips. IsLoopback ip)"
  using assms by (auto simp: ListenControl_def requireLoopback_def split: option.splits sum.splits if_splits)

lemma IsLoopback_examples:
  "IsLoopback [127, 0, 0, 1]" "IsLoopback (replicate 15 0 @ [1])" "\<not> IsLoopback [10, 0, 0, 1]" "\<not> IsLoopback (replicate 16 0)"
  by code_simp+

end
