(* ===== verification/Sqlite_Version.thy ===== *)
theory Sqlite_Version
  imports Sqlite_Store
begin

text \<open>
  The versioned open of \<open>internal/store/sqlite/version.go\<close>: the read-only probe, the decision
  table of \<open>openStore\<close> and the five ways to open a store, each with its transaction. The store
  file is \<open>None\<close> when it does not exist. Migrations are the argument \<open>chain\<close>, as in the source.
\<close>

section \<open>Constants, options and errors\<close>

definition CurrentStoreVersion :: int where "CurrentStoreVersion = 1"

text \<open>The link-time variable is an argument.\<close>

definition StoreResetDeclared :: "string \<Rightarrow> bool" where
  "StoreResetDeclared storeResetDeclared \<longleftrightarrow> storeResetDeclared = ''true''"

record Options =
  ResetRequested :: bool
  ResetDeclared :: bool

datatype open_error =
    ResetNotDeclaredError
  | TooNewError int int               \<comment> \<open>\<open>Found\<close>, \<open>Supported\<close>\<close>
  | UnmigratableError int int bool    \<comment> \<open>\<open>Found\<close>, \<open>Supported\<close>, \<open>ResetAvailable\<close>\<close>
  | OpenFailed go_err

text \<open>The \<open>Error\<close> methods; an em dash is its three UTF-8 bytes.\<close>

definition em_dash :: string where "em_dash = [CHR 0xE2, CHR 0x80, CHR 0x94]"

fun open_error_msg :: "open_error \<Rightarrow> string" where
  "open_error_msg (TooNewError found supported) =
     ''inbox store version '' @ fmt_d found @ '' is newer than this relay supports (store version '' @ fmt_d supported
     @ '') '' @ em_dash @ '' refusing to start, store left unchanged; upgrade the relay''"
| "open_error_msg (UnmigratableError found supported resetAvailable) =
     ''inbox store version '' @ fmt_d found @ '' cannot be migrated to this relay's store version '' @ fmt_d supported @
     (if resetAvailable
      then '' '' @ em_dash @ '' pass -reset-store to drop ALL inboxes and start fresh (operator opt-in per ADR-0013)''
      else '' '' @ em_dash @ '' refusing to start, store left unchanged; this release is not a declared Store Reset release, see the upgrade docs'')"
| "open_error_msg ResetNotDeclaredError =
     ''-reset-store refused: this release is not a declared relay Store Reset release (ADR-0013) '' @ em_dash @
     '' the flag is honoured only by releases that declare one in their release notes''"
| "open_error_msg (OpenFailed e) = Error_msg e"

text \<open>A migration takes the store from version \<open>from\<close> to \<open>from + 1\<close> inside a transaction.\<close>

record migration =
  mfrom :: int
  mapply :: "db \<Rightarrow> go_err + db"

definition migrations :: "migration list" where "migrations = []"

text \<open>The calls into the driver and the operating system that may fail.\<close>

datatype open_step =
    Stat | ProbeOpen | ProbeVersion | ProbeTables | ProbeSchema | ProbeScan nat | ProbeRows
  | OpenRW | SetWAL | SetSync | TxBegin | TxCommit | ApplySchema | DropInbox | StampVersion

type_synonym open_faults = "open_step \<Rightarrow> go_err option"

definition no_open_faults :: open_faults where "no_open_faults = (\<lambda>_. None)"

section \<open>The probe\<close>

record probeResult =
  pr_exists :: bool
  pr_version :: int
  hasInbox :: bool
  schemaMatches :: bool

definition no_store :: probeResult where
  "no_store = \<lparr>pr_exists = False, pr_version = 0, hasInbox = False, schemaMatches = False\<rparr>"

text \<open>The loop of \<open>inboxSchemaMatches\<close> over the rows of \<open>PRAGMA table_info(inbox)\<close>.\<close>

fun schema_loop :: "open_faults \<Rightarrow> nat \<Rightarrow> string list \<Rightarrow> nat \<Rightarrow> go_err + bool" where
  "schema_loop f i [] seen =
     (case f ProbeRows of Some e \<Rightarrow> Inl (Wrapped ''sqlite: probe schema rows: '' e '''') | None \<Rightarrow> Inr (seen = 4))"
| "schema_loop f i (name # names) seen =
     (case f (ProbeScan i) of
        Some e \<Rightarrow> Inl (Wrapped ''sqlite: probe schema scan: '' e '''')
      | None \<Rightarrow> if name \<notin> set inbox_columns then Inr False
                else schema_loop f (i + 1) names (seen + 1))"

definition inboxSchemaMatches :: "open_faults \<Rightarrow> inbox_table \<Rightarrow> go_err + bool" where
  "inboxSchemaMatches f t =
     (case f ProbeSchema of
        Some e \<Rightarrow> Inl (Wrapped ''sqlite: probe schema: '' e '''')
      | None \<Rightarrow> schema_loop f 0 (columns t) 0)"

text \<open>The queries of \<open>probe\<close> on an existing store, in order.\<close>

definition probe_db :: "open_faults \<Rightarrow> db \<Rightarrow> go_err + probeResult" where
  "probe_db f d =
     (case f ProbeOpen of Some e \<Rightarrow> Inl (Wrapped ''sqlite: probe open: '' e '''') | None \<Rightarrow>
     (case f ProbeVersion of Some e \<Rightarrow> Inl (Wrapped ''sqlite: probe version: '' e '''') | None \<Rightarrow>
     (case f ProbeTables of Some e \<Rightarrow> Inl (Wrapped ''sqlite: probe tables: '' e '''') | None \<Rightarrow>
        (case inbox d of
           None \<Rightarrow> Inr \<lparr>pr_exists = True, pr_version = user_version d, hasInbox = False, schemaMatches = False\<rparr>
         | Some t \<Rightarrow>
             (case inboxSchemaMatches f t of
                Inl e \<Rightarrow> Inl e
              | Inr m \<Rightarrow> Inr \<lparr>pr_exists = True, pr_version = user_version d, hasInbox = True, schemaMatches = m\<rparr>)))))"

definition probe :: "open_faults \<Rightarrow> db option \<Rightarrow> go_err + probeResult" where
  "probe f fl =
     (case f Stat of
        Some e \<Rightarrow> if errors_Is e ErrNotExist then Inr no_store else Inl (Wrapped ''sqlite: stat store: '' e '''')
      | None \<Rightarrow> (case fl of None \<Rightarrow> Inr no_store | Some d \<Rightarrow> probe_db f d))"

section \<open>Opening read-write\<close>

definition empty_db :: db where "empty_db = \<lparr>user_version = 0, wal = False, inbox = None\<rparr>"

text \<open>\<open>sql.Open\<close> is lazy; the first pragma creates a missing file and switches it to WAL.\<close>

definition openRW :: "open_faults \<Rightarrow> string \<Rightarrow> db option \<Rightarrow> (go_err + db) \<times> db option" where
  "openRW f path fl =
     (case f OpenRW of Some e \<Rightarrow> (Inl (Wrapped (''sqlite: open '' @ path @ '': '') e ''''), fl) | None \<Rightarrow>
     (case f SetWAL of Some e \<Rightarrow> (Inl (Wrapped ''sqlite: set WAL mode: '' e ''''), fl) | None \<Rightarrow>
        (let d = (case fl of None \<Rightarrow> empty_db | Some d \<Rightarrow> d)\<lparr>wal := True\<rparr> in
         case f SetSync of
           Some e \<Rightarrow> (Inl (Wrapped ''sqlite: set synchronous=FULL: '' e ''''), Some d)
         | None \<Rightarrow> (Inr d, Some d))))"

text \<open>\<open>withTx\<close>: the function's effect is kept only when it succeeds and the commit does.\<close>

definition withTx :: "open_faults \<Rightarrow> db \<Rightarrow> (db \<Rightarrow> go_err + db) \<Rightarrow> go_err option \<times> db" where
  "withTx f d fn =
     (case f TxBegin of
        Some e \<Rightarrow> (Some e, d)
      | None \<Rightarrow>
          (case fn d of
             Inl e \<Rightarrow> (Some e, d)
           | Inr d' \<Rightarrow> (case f TxCommit of Some e \<Rightarrow> (Some e, d) | None \<Rightarrow> (None, d'))))"

definition stamp :: "open_faults \<Rightarrow> int \<Rightarrow> db \<Rightarrow> go_err + db" where
  "stamp f v d =
     (case f StampVersion of
        Some e \<Rightarrow> Inl (Wrapped (''sqlite: stamp version '' @ fmt_d v @ '': '') e '''')
      | None \<Rightarrow> Inr (d\<lparr>user_version := v\<rparr>))"

definition apply_schema :: "open_faults \<Rightarrow> string \<Rightarrow> db \<Rightarrow> go_err + db" where
  "apply_schema f pre d = (case f ApplySchema of Some e \<Rightarrow> Inl (Wrapped pre e '''') | None \<Rightarrow> Inr (schema d))"

text \<open>The frame the openers share: open read-write, run one transaction, build the \<open>Store\<close>.\<close>

definition open_with_tx ::
    "open_faults \<Rightarrow> string \<Rightarrow> db option \<Rightarrow> int \<Rightarrow> bool \<Rightarrow> (db \<Rightarrow> go_err + db) \<Rightarrow> (open_error + Store) \<times> db option" where
  "open_with_tx f path fl target reset fn =
     (case openRW f path fl of
        (Inl e, fl') \<Rightarrow> (Inl (OpenFailed e), fl')
      | (Inr d, fl') \<Rightarrow>
          (case withTx f d fn of
             (Some e, d') \<Rightarrow> (Inl (OpenFailed e), Some d')
           | (None, d') \<Rightarrow> (Inr \<lparr>store_db = d', version = target, wasReset = reset\<rparr>, Some d')))"

definition createFresh :: "open_faults \<Rightarrow> string \<Rightarrow> db option \<Rightarrow> int \<Rightarrow> (open_error + Store) \<times> db option" where
  "createFresh f path fl target = open_with_tx f path fl target False
     (\<lambda>d. case apply_schema f ''sqlite: apply schema: '' d of Inl e \<Rightarrow> Inl e | Inr d' \<Rightarrow> stamp f target d')"

definition adoptUnversioned :: "open_faults \<Rightarrow> string \<Rightarrow> db option \<Rightarrow> int \<Rightarrow> (open_error + Store) \<times> db option" where
  "adoptUnversioned f path fl target = open_with_tx f path fl target False (stamp f target)"

definition openCurrent :: "open_faults \<Rightarrow> string \<Rightarrow> db option \<Rightarrow> int \<Rightarrow> (open_error + Store) \<times> db option" where
  "openCurrent f path fl target =
     (case openRW f path fl of
        (Inl e, fl') \<Rightarrow> (Inl (OpenFailed e), fl')
      | (Inr d, fl') \<Rightarrow>
          (case apply_schema f ''sqlite: apply schema: '' d of
             Inl e \<Rightarrow> (Inl (OpenFailed e), fl')
           | Inr d' \<Rightarrow> (Inr \<lparr>store_db = d', version = target, wasReset = False\<rparr>, Some d')))"

text \<open>
  The loop that finds the steps: \<open>n\<close> of them remain, starting at version \<open>v\<close>; a version without
  a step is named. The inner loop takes the first entry of the chain with that \<open>from\<close>.
\<close>

fun find_steps :: "migration list \<Rightarrow> int \<Rightarrow> nat \<Rightarrow> int + migration list" where
  "find_steps chain v 0 = Inr []"
| "find_steps chain v (Suc n) =
     (case find (\<lambda>m. mfrom m = v) chain of
        None \<Rightarrow> Inl v
      | Some step \<Rightarrow> map_sum id (Cons step) (find_steps chain (v + 1) n))"

fun run_steps :: "migration list \<Rightarrow> int \<Rightarrow> db \<Rightarrow> go_err + db" where
  "run_steps [] v d = Inr d"
| "run_steps (step # steps) v d =
     (case mapply step d of
        Inl e \<Rightarrow> Inl (Wrapped (''sqlite: migrate store '' @ fmt_d v @ '' '' @ [CHR 0xE2, CHR 0x86, CHR 0x92] @ '' '' @
                         fmt_d (v + 1) @ '': '') e '''')
      | Inr d' \<Rightarrow> run_steps steps (v + 1) d')"

definition migrateForward ::
    "open_faults \<Rightarrow> string \<Rightarrow> db option \<Rightarrow> int \<Rightarrow> int \<Rightarrow> migration list \<Rightarrow> Options \<Rightarrow> (open_error + Store) \<times> db option" where
  "migrateForward f path fl from target chain opts =
     (case find_steps chain from (nat (target - from)) of
        Inl v \<Rightarrow> (Inl (UnmigratableError v target (ResetDeclared opts)), fl)
      | Inr steps \<Rightarrow> open_with_tx f path fl target False
          (\<lambda>d. case run_steps steps from d of Inl e \<Rightarrow> Inl e | Inr d' \<Rightarrow> stamp f target d'))"

text \<open>\<open>DROP TABLE\<close> also removes the table's \<open>sqlite_sequence\<close> entry.\<close>

definition drop_inbox :: "open_faults \<Rightarrow> db \<Rightarrow> go_err + db" where
  "drop_inbox f d =
     (case f DropInbox of Some e \<Rightarrow> Inl (Wrapped ''sqlite: reset drop inbox: '' e '''') | None \<Rightarrow> Inr (d\<lparr>inbox := None\<rparr>))"

definition resetStore :: "open_faults \<Rightarrow> string \<Rightarrow> db option \<Rightarrow> int \<Rightarrow> (open_error + Store) \<times> db option" where
  "resetStore f path fl target = open_with_tx f path fl target True
     (\<lambda>d. case drop_inbox f d of Inl e \<Rightarrow> Inl e | Inr d1 \<Rightarrow>
       (case apply_schema f ''sqlite: reset apply schema: '' d1 of Inl e \<Rightarrow> Inl e | Inr d2 \<Rightarrow> stamp f target d2))"

section \<open>The decision\<close>

definition openStore ::
    "open_faults \<Rightarrow> string \<Rightarrow> db option \<Rightarrow> Options \<Rightarrow> migration list \<Rightarrow> int \<Rightarrow> (open_error + Store) \<times> db option" where
  "openStore f path fl opts chain target =
     (if ResetRequested opts \<and> \<not> ResetDeclared opts then (Inl ResetNotDeclaredError, fl)
      else case probe f fl of
        Inl e \<Rightarrow> (Inl (OpenFailed e), fl)
      | Inr p \<Rightarrow>
          if pr_exists p \<and> pr_version p > target then (Inl (TooNewError (pr_version p) target), fl)
          else if pr_exists p \<and> ResetDeclared opts \<and> ResetRequested opts then resetStore f path fl target
          else if \<not> pr_exists p \<or> (pr_version p = 0 \<and> \<not> hasInbox p) then createFresh f path fl target
          else if pr_version p = 0 \<and> schemaMatches p then adoptUnversioned f path fl target
          else if pr_version p = 0 then (Inl (UnmigratableError 0 target (ResetDeclared opts)), fl)
          else if pr_version p = target then openCurrent f path fl target
          else migrateForward f path fl (pr_version p) target chain opts)"

definition NewWithOptions :: "open_faults \<Rightarrow> string \<Rightarrow> db option \<Rightarrow> Options \<Rightarrow> (open_error + Store) \<times> db option" where
  "NewWithOptions f path fl opts = openStore f path fl opts migrations CurrentStoreVersion"

definition sqlite_New :: "open_faults \<Rightarrow> string \<Rightarrow> db option \<Rightarrow> (open_error + Store) \<times> db option" where
  "sqlite_New f path fl = NewWithOptions f path fl \<lparr>ResetRequested = False, ResetDeclared = False\<rparr>"

section \<open>What an open leaves behind\<close>

text \<open>The version and the table, whatever the journal mode; a missing file counts as empty.\<close>

definition contents :: "db option \<Rightarrow> int \<times> inbox_table option" where
  "contents fl = (case fl of None \<Rightarrow> (0, None) | Some d \<Rightarrow> (user_version d, inbox d))"

lemma contents_Some [simp]: "contents (Some d) = (user_version d, inbox d)"
  by (simp add: contents_def)

lemma openRW_contents:
  "openRW f path fl = (r, fl') \<Longrightarrow> contents fl' = contents fl \<and>
     (\<forall>d. r = Inr d \<longrightarrow> fl' = Some d \<and> d = (case fl of None \<Rightarrow> empty_db | Some d \<Rightarrow> d)\<lparr>wal := True\<rparr>)"
  by (auto simp: openRW_def Let_def contents_def empty_db_def split: option.splits)

lemma withTx_err: "withTx f d fn = (Some e, d') \<Longrightarrow> d' = d"
  by (auto simp: withTx_def split: option.splits sum.splits)

lemma withTx_ok: "withTx f d fn = (None, d') \<Longrightarrow> fn d = Inr d'"
  by (auto simp: withTx_def split: option.splits sum.splits)

text \<open>How \<open>openRW\<close> ends, as the callers see it.\<close>

lemma openRW_cases:
  obtains (fail) e fl' where "openRW f path fl = (Inl e, fl')" "contents fl' = contents fl"
  | (ok) d where "openRW f path fl = (Inr d, Some d)" "contents (Some d) = contents fl"
      "d = (case fl of None \<Rightarrow> empty_db | Some d \<Rightarrow> d)\<lparr>wal := True\<rparr>"
proof (cases "openRW f path fl")
  case (Pair r fl')
  with openRW_contents [OF Pair] fail ok show thesis by (cases r) auto
qed

lemma open_with_tx_err:
  assumes "open_with_tx f path fl target reset fn = (Inl e, fl')"
  shows "contents fl' = contents fl \<and> (\<exists>g. e = OpenFailed g)"
proof (cases rule: openRW_cases [of f path fl])
  case (ok d)
  obtain r d' where "withTx f d fn = (r, d')" by (cases "withTx f d fn")
  with ok assms withTx_err [of f d fn _ d'] show ?thesis
    by (cases r) (auto simp: open_with_tx_def)
qed (use assms in \<open>auto simp: open_with_tx_def\<close>)

lemma open_with_tx_ok:
  assumes "open_with_tx f path fl target reset fn = (Inr s, fl')"
  shows "fl' = Some (store_db s) \<and> version s = target \<and> wasReset s = reset \<and>
     fn ((case fl of None \<Rightarrow> empty_db | Some d \<Rightarrow> d)\<lparr>wal := True\<rparr>) = Inr (store_db s)"
proof (cases rule: openRW_cases [of f path fl])
  case (ok d)
  obtain r d' where "withTx f d fn = (r, d')" by (cases "withTx f d fn")
  with ok(1) assms withTx_ok [of f d fn d'] have "fl' = Some (store_db s) \<and> version s = target \<and>
      wasReset s = reset \<and> fn d = Inr (store_db s)"
    by (cases r) (auto simp: open_with_tx_def)
  with ok(3) show ?thesis by simp
qed (use assms in \<open>auto simp: open_with_tx_def\<close>)

lemma openCurrent_err:
  assumes "openCurrent f path fl target = (Inl e, fl')"
  shows "contents fl' = contents fl \<and> (\<exists>g. e = OpenFailed g)"
  using assms by (cases rule: openRW_cases [of f path fl]) (auto simp: openCurrent_def split: sum.splits)

lemma openCurrent_ok:
  assumes "openCurrent f path fl target = (Inr s, fl')"
  shows "fl' = Some (store_db s) \<and> version s = target \<and> \<not> wasReset s \<and>
     store_db s = schema ((case fl of None \<Rightarrow> empty_db | Some d \<Rightarrow> d)\<lparr>wal := True\<rparr>)"
proof (cases rule: openRW_cases [of f path fl])
  case (ok d)
  with assms have "fl' = Some (store_db s) \<and> version s = target \<and> \<not> wasReset s \<and> store_db s = schema d"
    by (auto simp: openCurrent_def apply_schema_def split: option.splits)
  with ok(3) show ?thesis by simp
qed (use assms in \<open>auto simp: openCurrent_def\<close>)

lemmas opener_defs = createFresh_def adoptUnversioned_def resetStore_def

lemma opener_err:
  "createFresh f path fl target = (Inl e, fl') \<Longrightarrow> contents fl' = contents fl \<and> (\<exists>g. e = OpenFailed g)"
  "adoptUnversioned f path fl target = (Inl e, fl') \<Longrightarrow> contents fl' = contents fl \<and> (\<exists>g. e = OpenFailed g)"
  "resetStore f path fl target = (Inl e, fl') \<Longrightarrow> contents fl' = contents fl \<and> (\<exists>g. e = OpenFailed g)"
  by (auto simp: opener_defs dest: open_with_tx_err)

lemma migrateForward_err:
  "migrateForward f path fl v target chain opts = (Inl e, fl') \<Longrightarrow>
     contents fl' = contents fl \<and> ((\<exists>g. e = OpenFailed g) \<or> fl' = fl)"
  by (auto simp: migrateForward_def split: sum.splits dest: open_with_tx_err)

text \<open>
  C12 (a failed open loses nothing). Whatever the options, the chain, the target and the
  failures met: when opening returns an error, the store's version and its inbox table with
  all rows are what they were; and when the error is one of the three refusals (newer store,
  unmigratable store, reset flag on a release that does not declare one), the file is not
  changed at all, its journal mode included.
\<close>

theorem failed_open_loses_nothing:
  assumes "openStore f path fl opts chain target = (Inl e, fl')"
  shows "contents fl' = contents fl \<and> ((\<forall>g. e \<noteq> OpenFailed g) \<longrightarrow> fl' = fl)"
proof (cases "ResetRequested opts \<and> \<not> ResetDeclared opts")
  case False
  show ?thesis
  proof (cases "probe f fl")
    case (Inr p)
    with False assms show ?thesis
      by (auto simp: openStore_def simp del: contents_Some split: if_splits
          dest: opener_err openCurrent_err migrateForward_err)
  qed (use False assms in \<open>auto simp: openStore_def\<close>)
qed (use assms in \<open>simp add: openStore_def\<close>)

theorem failed_open_loses_nothing_witness:
  "contents (snd (openStore no_open_faults ''r.db'' (Some (sample_db\<lparr>user_version := 2\<rparr>))
       \<lparr>ResetRequested = True, ResetDeclared = True\<rparr> [] 1)) = contents (Some (sample_db\<lparr>user_version := 2\<rparr>))"
proof -
  have "openStore no_open_faults ''r.db'' (Some (sample_db\<lparr>user_version := 2\<rparr>))
      \<lparr>ResetRequested = True, ResetDeclared = True\<rparr> [] 1 = (Inl (TooNewError 2 1), Some (sample_db\<lparr>user_version := 2\<rparr>))"
    by (simp add: openStore_def probe_def probe_db_def no_open_faults_def sample_db_def inboxSchemaMatches_def
        fresh_inbox_def inbox_columns_def)
  from failed_open_loses_nothing [OF this] this show ?thesis by simp
qed

text \<open>The one thing assumed of the operating system: \<open>stat\<close> does not deny a file that exists.\<close>

definition stat_honest :: "open_faults \<Rightarrow> db option \<Rightarrow> bool" where
  "stat_honest f fl \<longleftrightarrow> fl = None \<or> (\<forall>e. f Stat = Some e \<longrightarrow> \<not> errors_Is e ErrNotExist)"

lemma schema_loop_ok: "(\<And>s. f s = None) \<Longrightarrow>
    schema_loop f i names seen = Inr (set names \<subseteq> set inbox_columns \<and> seen + length names = 4)"
  by (induction names arbitrary: i seen) auto

text \<open>Column names are distinct in SQL, so counting four known names is set equality.\<close>

lemma schema_matches_iff:
  assumes "distinct (columns t)"
  shows "inboxSchemaMatches no_open_faults t = Inr (set (columns t) = set inbox_columns)"
proof -
  have d: "distinct inbox_columns" and l: "length inbox_columns = 4" by (simp_all add: inbox_columns_def)
  have "set (columns t) \<subseteq> set inbox_columns \<and> length (columns t) = 4 \<longleftrightarrow> set (columns t) = set inbox_columns"
    using distinct_card [OF assms] distinct_card [OF d] l card_subset_eq [of "set inbox_columns" "set (columns t)"]
    by auto
  then show ?thesis by (simp add: inboxSchemaMatches_def schema_loop_ok no_open_faults_def)
qed

lemma schema_keeps: "user_version (schema d) = user_version d \<and> inbox (schema d) = Some (case inbox d of None \<Rightarrow> fresh_inbox | Some t \<Rightarrow> t)"
  by (auto simp: schema_def split: option.splits)

lemma probe_facts:
  assumes "probe f fl = Inr p" "stat_honest f fl"
  shows "case fl of None \<Rightarrow> \<not> pr_exists p
    | Some d \<Rightarrow> pr_exists p \<and> pr_version p = user_version d \<and> (hasInbox p \<longleftrightarrow> inbox d \<noteq> None)"
  using assms
  by (auto simp: probe_def probe_db_def stat_honest_def no_store_def split: option.splits if_splits sum.splits)

lemma opener_ok:
  "createFresh f path fl target = (Inr s, fl') \<Longrightarrow> fl' = Some (store_db s) \<and> version s = target \<and> \<not> wasReset s \<and>
     store_db s = (schema ((case fl of None \<Rightarrow> empty_db | Some d \<Rightarrow> d)\<lparr>wal := True\<rparr>))\<lparr>user_version := target\<rparr>"
  "adoptUnversioned f path fl target = (Inr s, fl') \<Longrightarrow> fl' = Some (store_db s) \<and> version s = target \<and> \<not> wasReset s \<and>
     store_db s = (case fl of None \<Rightarrow> empty_db | Some d \<Rightarrow> d)\<lparr>wal := True, user_version := target\<rparr>"
  "resetStore f path fl target = (Inr s, fl') \<Longrightarrow> fl' = Some (store_db s) \<and> version s = target \<and> wasReset s \<and>
     store_db s = \<lparr>user_version = target, wal = True, inbox = Some fresh_inbox\<rparr>"
  by (cases s; auto simp: opener_defs stamp_def apply_schema_def drop_inbox_def schema_def empty_db_def
      dest!: open_with_tx_ok split: option.splits)+

lemma migrateForward_ok:
  assumes "migrateForward f path fl v target chain opts = (Inr s, fl')"
  shows "fl' = Some (store_db s) \<and> version s = target \<and> \<not> wasReset s \<and> user_version (store_db s) = target \<and>
    (\<exists>steps d. find_steps chain v (nat (target - v)) = Inr steps \<and>
       run_steps steps v ((case fl of None \<Rightarrow> empty_db | Some d \<Rightarrow> d)\<lparr>wal := True\<rparr>) = Inr d \<and>
       inbox (store_db s) = inbox d)"
  using assms
  by (cases s) (auto simp: migrateForward_def stamp_def dest!: open_with_tx_ok split: sum.splits option.splits)

text \<open>
  C13 (a successful open). Whatever failures are met, a successful open leaves the file at the
  target version and returns a store on it. The inbox table was dropped if and only if the store
  existed, the operator asked for a reset and the release declares one; a store newer than the
  target is never opened. Otherwise an unversioned store and one at the target version keep
  their inbox table and every row (a missing table is created), and an older store's table is
  exactly what the complete chain of migration steps made of it.
\<close>

theorem opened_store:
  assumes "openStore f path fl opts chain target = (Inr s, fl')" and "stat_honest f fl"
  shows "fl' = Some (store_db s) \<and> version s = target \<and> user_version (store_db s) = target \<and>
    (wasReset s \<longleftrightarrow> fl \<noteq> None \<and> ResetRequested opts \<and> ResetDeclared opts) \<and>
    (case fl of None \<Rightarrow> inbox (store_db s) = Some fresh_inbox
     | Some d \<Rightarrow> user_version d \<le> target \<and>
        (if wasReset s then inbox (store_db s) = Some fresh_inbox
         else if user_version d = 0 \<or> user_version d = target
         then inbox (store_db s) = Some (case inbox d of None \<Rightarrow> fresh_inbox | Some t \<Rightarrow> t)
         else \<exists>steps d'. find_steps chain (user_version d) (nat (target - user_version d)) = Inr steps \<and>
                run_steps steps (user_version d) (d\<lparr>wal := True\<rparr>) = Inr d' \<and> inbox (store_db s) = inbox d'))"
proof -
  from assms(1) obtain p where p: "probe f fl = Inr p" and g: "ResetRequested opts \<longrightarrow> ResetDeclared opts"
    by (auto simp: openStore_def split: if_splits sum.splits)
  note facts = probe_facts [OF p assms(2)]
  note o = assms(1) [unfolded openStore_def p, simplified]
  show ?thesis
  proof (cases fl)
    case None
    with facts o g have "createFresh f path None target = (Inr s, fl')" by (auto split: if_splits)
    from opener_ok(1) [OF this] None show ?thesis by (simp add: schema_def empty_db_def)
  next
    case (Some d)
    have sm: "inbox d = None \<Longrightarrow> \<not> schemaMatches p" 
      using p Some by (auto simp: probe_def probe_db_def no_store_def split: option.splits if_splits)
    with Some facts o g show ?thesis
      by (auto simp: schema_keeps split: if_splits option.splits dest!: opener_ok openCurrent_ok migrateForward_ok)
  qed
qed

theorem opened_store_witness:
  "\<exists>s fl'. openStore no_open_faults ''r.db'' None \<lparr>ResetRequested = False, ResetDeclared = False\<rparr> [] 1 = (Inr s, fl') \<and>
     user_version (store_db s) = 1 \<and> inbox (store_db s) = Some fresh_inbox \<and> \<not> wasReset s"
proof -
  let ?o = "openStore no_open_faults ''r.db'' None \<lparr>ResetRequested = False, ResetDeclared = False\<rparr> [] 1"
  obtain s fl' where "?o = (Inr s, fl')"
    by (simp add: openStore_def probe_def no_store_def createFresh_def open_with_tx_def openRW_def withTx_def
        apply_schema_def stamp_def no_open_faults_def Let_def)
  moreover from opened_store [OF this] this show ?thesis by (simp add: stat_honest_def)
qed

text \<open>How the production open answers when nothing fails.\<close>

definition opened :: "db \<Rightarrow> bool \<Rightarrow> (open_error + Store) \<times> db option" where
  "opened d reset = (Inr \<lparr>store_db = d, version = 1, wasReset = reset\<rparr>, Some d)"

definition open_outcome :: "db option \<Rightarrow> Options \<Rightarrow> (open_error + Store) \<times> db option" where
  "open_outcome fl opts =
     (if ResetRequested opts \<and> \<not> ResetDeclared opts then (Inl ResetNotDeclaredError, fl)
      else case fl of
        None \<Rightarrow> opened \<lparr>user_version = 1, wal = True, inbox = Some fresh_inbox\<rparr> False
      | Some d \<Rightarrow>
          if user_version d > 1 then (Inl (TooNewError (user_version d) 1), fl)
          else if ResetRequested opts then opened \<lparr>user_version = 1, wal = True, inbox = Some fresh_inbox\<rparr> True
          else (case inbox d of
              None \<Rightarrow> if user_version d \<in> {0, 1} then opened \<lparr>user_version = 1, wal = True, inbox = Some fresh_inbox\<rparr> False
                       else (Inl (UnmigratableError (user_version d) 1 (ResetDeclared opts)), fl)
            | Some t \<Rightarrow>
                if user_version d = 1 \<or> user_version d = 0 \<and> set (columns t) = set inbox_columns
                then opened \<lparr>user_version = 1, wal = True, inbox = Some t\<rparr> False
                else (Inl (UnmigratableError (user_version d) 1 (ResetDeclared opts)), fl)))"

lemma probe_no_faults:
  assumes "\<forall>t. inbox d = Some t \<longrightarrow> distinct (columns t)"
  shows "probe no_open_faults (Some d) = Inr \<lparr>pr_exists = True, pr_version = user_version d,
    hasInbox = (inbox d \<noteq> None),
    schemaMatches = (case inbox d of None \<Rightarrow> False | Some t \<Rightarrow> set (columns t) = set inbox_columns)\<rparr>"
  using assms
  by (auto simp: probe_def probe_db_def schema_matches_iff no_open_faults_def [THEN fun_cong] split: option.splits)

lemma open_with_tx_no_faults:
  "open_with_tx no_open_faults path fl target reset fn =
     (let d = (case fl of None \<Rightarrow> empty_db | Some d \<Rightarrow> d)\<lparr>wal := True\<rparr> in
      case fn d of Inl e \<Rightarrow> (Inl (OpenFailed e), Some d)
      | Inr d' \<Rightarrow> (Inr \<lparr>store_db = d', version = target, wasReset = reset\<rparr>, Some d'))"
  by (simp add: open_with_tx_def openRW_def withTx_def no_open_faults_def Let_def split: sum.splits)

lemmas openers_no_faults = opener_defs open_with_tx_no_faults Let_def stamp_def apply_schema_def drop_inbox_def
  schema_def no_open_faults_def [THEN fun_cong] empty_db_def

text \<open>
  The production decision table. With no failures, opening through
  \<open>NewWithOptions\<close> answers exactly as \<open>open_outcome\<close> tabulates: undeclared reset refused first,
  then a newer store, then the declared reset; a store that is missing, empty, at version 1, or
  unversioned with exactly the four columns is opened at version 1 with its rows, and every
  other store is refused as unmigratable, unchanged.
\<close>

lemma NewWithOptions_decides:
  assumes "\<forall>d t. fl = Some d \<and> inbox d = Some t \<longrightarrow> distinct (columns t)"
  shows "NewWithOptions no_open_faults path fl opts = open_outcome fl opts"
proof (cases fl)
  case None
  then show ?thesis
    by (simp add: NewWithOptions_def openStore_def open_outcome_def probe_def no_store_def openers_no_faults
        opened_def CurrentStoreVersion_def)
next
  case (Some d)
  have mig: "v < 1 \<Longrightarrow> migrateForward no_open_faults path g v 1 [] opts =
      (Inl (UnmigratableError v 1 (ResetDeclared opts)), g)" for v g
    by (cases "nat (1 - v)") (simp_all add: migrateForward_def)
  have cur: "openCurrent no_open_faults path (Some d) 1 = opened (schema (d\<lparr>wal := True\<rparr>)) False" for d
    by (simp add: openCurrent_def openRW_def apply_schema_def no_open_faults_def opened_def Let_def)
  show ?thesis
    using Some assms
    by (cases d) (auto simp: NewWithOptions_def openStore_def open_outcome_def probe_no_faults
        CurrentStoreVersion_def migrations_def mig cur openers_no_faults opened_def split: option.splits)
qed

lemma NewWithOptions_decides_witness:
  "NewWithOptions no_open_faults ''r.db'' (Some (sample_db\<lparr>user_version := 0\<rparr>)) \<lparr>ResetRequested = False, ResetDeclared = True\<rparr>
     = (Inr \<lparr>store_db = sample_db, version = 1, wasReset = False\<rparr>, Some sample_db)"
  by (subst NewWithOptions_decides)
     (simp_all add: open_outcome_def opened_def sample_db_def fresh_inbox_def inbox_columns_def)

text \<open>A store the production open returns on a fresh path satisfies the storage contract.\<close>

lemma fresh_open_invar:
  "sqlite_New no_open_faults path None = (Inr s, fl') \<Longrightarrow> sqlite_invar (store_db s)"
  by (auto simp: sqlite_New_def NewWithOptions_def openStore_def probe_def no_store_def openers_no_faults
      sqlite_invar_def fresh_inbox_def table_ok_def)

end
