(* ===== verification/Postgres_Store.thy ===== *)
theory Postgres_Store
  imports Inbox_Store
begin

text \<open>
  The Postgres InboxStore of \<open>internal/store/postgres/store.go\<close>. First the methods of \<open>Store\<close>, each
  as one call that no other overlaps, with the interpretation of the storage contract. Then
  \<open>PutWithLimits\<close> as the statements of a transaction that interleaves with those of other pushes,
  on this node and on others: the occupancy probe sees the rows committed so far, the ID comes
  from a sequence that no rollback winds back, and the row appears at the commit.

  The driver is a parameter through \<open>faults\<close>. What is relied on is Postgres's documented behaviour
  at its default isolation level, read committed, on the table that \<open>schema\<close> creates. An error
  of the insert means that it did not reach the server.
\<close>

section \<open>The database\<close>

text \<open>The committed rows, in the order of their commits, and the last value of the \<open>BIGSERIAL\<close>.\<close>

record pg_table =
  pt_rows :: "inbox_row list"
  pt_seq :: int

record pg_db =
  pg_inbox :: "pg_table option"

text \<open>\<open>CREATE TABLE IF NOT EXISTS inbox\<close>\<close>

definition pg_schema :: "pg_db \<Rightarrow> pg_db" where
  "pg_schema d = (case pg_inbox d of None \<Rightarrow> d\<lparr>pg_inbox := Some \<lparr>pt_rows = [], pt_seq = 0\<rparr>\<rparr> | Some t \<Rightarrow> d)"

definition pg_prepare :: "pg_db \<Rightarrow> go_err + pg_table" where
  "pg_prepare d = (case pg_inbox d of None \<Rightarrow> Inl (Opaque ''relation inbox does not exist'') | Some t \<Rightarrow> Inr t)"

text \<open>
  \<open>INSERT INTO inbox (recipient, envelope, expires_at) VALUES ($1, $2, $3)\<close> inside a transaction:
  the row, which only this transaction sees, and the database with the sequence moved on.
\<close>

definition pg_insert :: "bytes \<Rightarrow> bytes \<Rightarrow> int \<Rightarrow> pg_db \<Rightarrow> go_err + inbox_row \<times> pg_db" where
  "pg_insert k env expiresAt d =
     (case pg_prepare d of
        Inl e \<Rightarrow> Inl e
      | Inr t \<Rightarrow>
          if pt_seq t \<ge> 2 ^ 63 - 1 then Inl (Opaque ''nextval: reached maximum value of sequence'')
          else Inr (\<lparr>row_id = pt_seq t + 1, recipient = k, envelope = env, expires_at = expiresAt\<rparr>,
                    d\<lparr>pg_inbox := Some (t\<lparr>pt_seq := pt_seq t + 1\<rparr>)\<rparr>))"

definition pg_commit :: "inbox_row \<Rightarrow> pg_db \<Rightarrow> pg_db" where
  "pg_commit r d = d\<lparr>pg_inbox := map_option (\<lambda>t. t\<lparr>pt_rows := pt_rows t @ [r]\<rparr>) (pg_inbox d)\<rparr>"

definition pg_delete_where :: "(inbox_row \<Rightarrow> bool) \<Rightarrow> pg_db \<Rightarrow> go_err + pg_db" where
  "pg_delete_where P d =
     (case pg_prepare d of
        Inl e \<Rightarrow> Inl e
      | Inr t \<Rightarrow> Inr (d\<lparr>pg_inbox := Some (t\<lparr>pt_rows := filter (\<lambda>r. \<not> P r) (pt_rows t)\<rparr>)\<rparr>))"

section \<open>The methods of Store\<close>

text \<open>
  \<open>New\<close>: the database after it, and the error. The pool, the listener connection and the listen
  loop are in \<open>Postgres_Notifier\<close>.
\<close>

datatype pg_open_step = OpenPool | OpenPing | ApplySchema | OpenListener

definition pg_New :: "(pg_open_step \<Rightarrow> go_err option) \<Rightarrow> pg_db \<Rightarrow> go_err option \<times> pg_db" where
  "pg_New f d =
     (case f OpenPool of
        Some e \<Rightarrow> (Some (Wrapped ''postgres: open pool: '' e ''''), d)
      | None \<Rightarrow>
     (case f OpenPing of
        Some e \<Rightarrow> (Some (Wrapped ''postgres: ping: '' e ''''), d)
      | None \<Rightarrow>
     (case f ApplySchema of
        Some e \<Rightarrow> (Some (Wrapped ''postgres: apply schema: '' e ''''), d)
      | None \<Rightarrow>
     (case f OpenListener of
        Some e \<Rightarrow> (Some (Wrapped ''postgres: open listener connection: '' e ''''), pg_schema d)
      | None \<Rightarrow> (None, pg_schema d)))))"

text \<open>The occupancy check of \<open>PutWithLimits\<close>.\<close>

definition pg_put_check :: "faults \<Rightarrow> pg_db \<Rightarrow> bytes \<Rightarrow> bytes \<Rightarrow> InboxLimits \<Rightarrow> go_err option" where
  "pg_put_check f d k env limits =
     (if MaxBlobs limits > 0 \<or> MaxBytes limits > 0 then
        (case run_stmt f Probe (pg_prepare d) of
           Inl e \<Rightarrow> Some (Wrapped ''postgres: put probe: '' e '''')
         | Inr t \<Rightarrow>
             (let blobs = inbox_count (pt_rows t) k; bytes = inbox_bytes (pt_rows t) k in
              if MaxBlobs limits > 0 \<and> blobs \<ge> MaxBlobs limits
              then Some (Wrapped '''' StoreErrInboxFull
                     ('': '' @ fmt_d blobs @ '' blobs (limit '' @ fmt_d (MaxBlobs limits) @ '')''))
              else if MaxBytes limits > 0 \<and> bytes + int (length env) > MaxBytes limits
              then Some (Wrapped '''' StoreErrInboxFull
                     ('': '' @ fmt_d bytes @ ''+'' @ fmt_d (int (length env)) @ '' bytes (limit '' @ fmt_d (MaxBytes limits) @ '')''))
              else None))
      else None)"

definition pg_PutWithLimits ::
    "faults \<Rightarrow> int \<Rightarrow> pg_db \<Rightarrow> bytes \<Rightarrow> bytes \<Rightarrow> int \<Rightarrow> InboxLimits \<Rightarrow> go_err option \<times> pg_db" where
  "pg_PutWithLimits f now d k env ttl limits =
     (if length k \<noteq> 32
      then (Some (Opaque (''postgres: recipient key must be 32 bytes, got '' @ fmt_d (int (length k)))), d)
      else
     (let expiresAt = Unix (now + ttl) in
      case f BeginTx of
        Some e \<Rightarrow> (Some (Wrapped ''postgres: put begin: '' e ''''), d)
      | None \<Rightarrow>
     (case pg_put_check f d k env limits of
        Some e \<Rightarrow> (Some e, d)
      | None \<Rightarrow>
     (case run_stmt f Insert (pg_insert k env expiresAt d) of
        Inl e \<Rightarrow> (Some (Wrapped ''postgres: put: '' e ''''), d)
      | Inr (r, d') \<Rightarrow>
     (case f Commit of
        Some e \<Rightarrow> (Some (Wrapped ''postgres: put commit: '' e ''''), d')
      | None \<Rightarrow> (None, pg_commit r d'))))))"

definition pg_Put :: "faults \<Rightarrow> int \<Rightarrow> pg_db \<Rightarrow> bytes \<Rightarrow> bytes \<Rightarrow> int \<Rightarrow> go_err option \<times> pg_db" where
  "pg_Put f now d k env ttl = pg_PutWithLimits f now d k env ttl no_limits"

fun pg_scan_rows :: "faults \<Rightarrow> nat \<Rightarrow> inbox_row list \<Rightarrow> go_err + InboxBlob list" where
  "pg_scan_rows f i [] =
     (case f Rows of Some e \<Rightarrow> Inl (Wrapped ''postgres: peek after rows: '' e '''') | None \<Rightarrow> Inr [])"
| "pg_scan_rows f i (r # rs) =
     (case f (Scan i) of
        Some e \<Rightarrow> Inl (Wrapped ''postgres: peek after scan: '' e '''')
      | None \<Rightarrow> map_sum id (Cons (row_blob r)) (pg_scan_rows f (i + 1) rs))"

definition pg_PeekAfter :: "faults \<Rightarrow> pg_db \<Rightarrow> bytes \<Rightarrow> int \<Rightarrow> go_err + InboxBlob list" where
  "pg_PeekAfter f d k afterID =
     (case run_stmt f Query (pg_prepare d) of
        Inl e \<Rightarrow> Inl (Wrapped ''postgres: peek after: '' e '''')
      | Inr t \<Rightarrow> pg_scan_rows f 0 (sort_key row_id (filter (\<lambda>r. recipient r = k \<and> row_id r > afterID) (pt_rows t))))"

definition pg_Peek :: "faults \<Rightarrow> pg_db \<Rightarrow> bytes \<Rightarrow> go_err + InboxBlob list" where
  "pg_Peek f d k = pg_PeekAfter f d k 0"

definition pg_DeleteForRecipient :: "faults \<Rightarrow> pg_db \<Rightarrow> bytes \<Rightarrow> int list \<Rightarrow> go_err option \<times> pg_db" where
  "pg_DeleteForRecipient f d k ids =
     (if ids = [] then (None, d)
      else case run_stmt f Delete (pg_delete_where (\<lambda>r. recipient r = k \<and> row_id r \<in> set ids) d) of
        Inl e \<Rightarrow> (Some (Wrapped ''postgres: delete for recipient: '' e ''''), d)
      | Inr d' \<Rightarrow> (None, d'))"

definition pg_Reap :: "faults \<Rightarrow> int \<Rightarrow> pg_db \<Rightarrow> go_err option \<times> pg_db" where
  "pg_Reap f now d =
     (case run_stmt f ReapExec (pg_delete_where (\<lambda>r. expires_at r \<le> Unix now) d) of
        Inl e \<Rightarrow> (Some (Wrapped ''postgres: reap: '' e ''''), d)
      | Inr d' \<Rightarrow> (None, d'))"

definition pg_Ping :: "faults \<Rightarrow> pg_db \<Rightarrow> go_err option" where
  "pg_Ping f d = map_option (\<lambda>e. Wrapped ''postgres: ping: '' e '''') (f PingRow)"

text \<open>\<open>TRUNCATE inbox\<close> keeps the sequence.\<close>

definition pg_Truncate :: "go_err option \<Rightarrow> pg_db \<Rightarrow> go_err option \<times> pg_db" where
  "pg_Truncate f d =
     (case f of
        Some e \<Rightarrow> (Some e, d)
      | None \<Rightarrow> (case pg_delete_where (\<lambda>_. True) d of Inl e \<Rightarrow> (Some e, d) | Inr d' \<Rightarrow> (None, d')))"

definition postgres_store :: "pg_db InboxStore" where
  "postgres_store = \<lparr>PutWithLimits = pg_PutWithLimits, PeekAfter = pg_PeekAfter,
     DeleteForRecipient = pg_DeleteForRecipient, Reap = pg_Reap, Ping = pg_Ping\<rparr>"

section \<open>The contract, when calls do not overlap\<close>

definition pg_rows :: "pg_db \<Rightarrow> inbox_row list" where
  "pg_rows d = (case pg_inbox d of None \<Rightarrow> [] | Some t \<Rightarrow> pt_rows t)"

definition pg_seq :: "pg_db \<Rightarrow> int" where
  "pg_seq d = (case pg_inbox d of None \<Rightarrow> 0 | Some t \<Rightarrow> pt_seq t)"

definition pg_invar :: "pg_db \<Rightarrow> bool" where
  "pg_invar d \<longleftrightarrow> pg_inbox d \<noteq> None \<and> 0 \<le> pg_seq d \<and> sorted_wrt (<) (map row_id (pg_rows d)) \<and>
     (\<forall>r \<in> set (pg_rows d). 0 < row_id r \<and> row_id r \<le> pg_seq d)"

lemma pg_invarE:
  assumes "pg_invar d"
  obtains t where "pg_inbox d = Some t" "pg_prepare d = Inr t" "pg_rows d = pt_rows t" "pg_seq d = pt_seq t"
  using assms by (auto simp: pg_invar_def pg_rows_def pg_seq_def pg_prepare_def)

lemma pg_put_check_ok:
  assumes "pg_prepare d = Inr t"
  shows "pg_put_check f d k env lim = None \<Longrightarrow> quota_ok lim (pt_rows t) k env"
    and "quota_ok lim (pt_rows t) k env \<Longrightarrow> pg_put_check no_faults d k env lim = None"
    and "\<not> quota_ok lim (pt_rows t) k env \<Longrightarrow>
           \<exists>s. pg_put_check no_faults d k env lim = Some (Wrapped '''' StoreErrInboxFull s)"
  by (auto simp: assms pg_put_check_def quota_ok_def run_stmt_def no_faults_def Let_def
      not_less not_le split: if_splits option.splits)

lemma pg_insert_Inr:
  assumes "pg_insert k env x d = Inr (r, d')"
  shows "r = \<lparr>row_id = pg_seq d + 1, recipient = k, envelope = env, expires_at = x\<rparr> \<and> pg_seq d' = pg_seq d + 1 \<and>
    pg_rows d' = pg_rows d \<and> pg_inbox d' \<noteq> None"
  using assms by (auto simp: pg_insert_def pg_prepare_def pg_rows_def pg_seq_def split: option.splits if_splits)

lemma pg_commit_view:
  "pg_inbox d \<noteq> None \<Longrightarrow> pg_rows (pg_commit r d) = pg_rows d @ [r]" "pg_seq (pg_commit r d) = pg_seq d"
  "pg_inbox (pg_commit r d) = None \<longleftrightarrow> pg_inbox d = None"
  by (auto simp: pg_commit_def pg_rows_def pg_seq_def split: option.splits)

lemma pg_put_ok:
  assumes "pg_invar d" "pg_PutWithLimits f now d k env ttl lim = (None, d')"
  shows "pg_invar d' \<and> length k = 32 \<and> quota_ok lim (pg_rows d) k env \<and> pg_seq d < pg_seq d' \<and>
    pg_rows d' = pg_rows d @ [\<lparr>row_id = pg_seq d', recipient = k, envelope = env, expires_at = Unix (now + ttl)\<rparr>]"
proof -
  obtain t where t: "pg_prepare d = Inr t" "pg_rows d = pt_rows t" using assms(1) by (rule pg_invarE)
  obtain r d1 where "length k = 32" "pg_put_check f d k env lim = None"
    "pg_insert k env (Unix (now + ttl)) d = Inr (r, d1)" "d' = pg_commit r d1"
    using assms(2)
    by (auto simp: pg_PutWithLimits_def Let_def run_stmt_def split: if_splits option.splits sum.splits)
  with pg_insert_Inr [OF this(3)] pg_put_check_ok(1) [OF t(1)] assms(1) t(2) show ?thesis
    by (auto simp: pg_invar_def pg_commit_view sorted_wrt_append)
qed

lemma pg_put_err:
  assumes "pg_invar d" "pg_PutWithLimits f now d k env ttl lim = (Some e, d')"
  shows "pg_invar d' \<and> pg_rows d' = pg_rows d \<and> pg_seq d \<le> pg_seq d'"
proof -
  have "d' = d \<or> (\<exists>x r. pg_insert k env x d = Inr (r, d'))"
    using assms(2) by (auto simp: pg_PutWithLimits_def Let_def run_stmt_def split: if_splits option.splits sum.splits)
  then show ?thesis
  proof (elim disjE exE)
    fix x r assume "pg_insert k env x d = Inr (r, d')"
    from pg_insert_Inr [OF this] assms(1) show ?thesis by (auto simp: pg_invar_def intro: order_trans)
  qed (simp add: assms(1))
qed

lemma pg_put_full:
  assumes "pg_invar d" "length k = 32" "\<not> quota_ok lim (pg_rows d) k env"
  shows "\<exists>e. pg_PutWithLimits no_faults now d k env ttl lim = (Some e, d) \<and> errors_Is e StoreErrInboxFull"
  using assms(1)
proof (rule pg_invarE)
  fix t assume t: "pg_prepare d = Inr t" "pg_rows d = pt_rows t"
  with assms(2,3) pg_put_check_ok(3) [OF t(1), of lim k env] show ?thesis
    by (auto simp: pg_PutWithLimits_def Let_def no_faults_def)
qed

lemma pg_put_progress:
  assumes "pg_invar d" "quota_ok lim (pg_rows d) k env" "length k = 32" "pg_seq d < 2 ^ 63 - 1"
  shows "fst (pg_PutWithLimits no_faults now d k env ttl lim) = None"
  using assms(1)
proof (rule pg_invarE)
  fix t assume t: "pg_inbox d = Some t" "pg_prepare d = Inr t" "pg_rows d = pt_rows t" "pg_seq d = pt_seq t"
  with assms pg_put_check_ok(2) [OF t(2), of lim k env] show ?thesis
    by (simp add: pg_PutWithLimits_def Let_def run_stmt_def pg_insert_def no_faults_def)
qed

lemma pg_scan_rows_Inr: "pg_scan_rows f i rs = Inr bs \<Longrightarrow> bs = map row_blob rs"
  by (induction f i rs arbitrary: bs rule: pg_scan_rows.induct)
     (auto split: option.splits simp: map_sum_def split: sum.splits)

lemma pg_scan_rows_no_faults: "pg_scan_rows no_faults i rs = Inr (map row_blob rs)"
  by (induction rs arbitrary: i) (simp_all add: no_faults_def)

lemma pg_peek_ok:
  assumes "pg_invar d"
  shows "pg_PeekAfter f d k a = Inr bs \<Longrightarrow>
           bs = map row_blob (filter (\<lambda>r. recipient r = k \<and> a < row_id r) (pg_rows d))"
    and "pg_PeekAfter no_faults d k a =
           Inr (map row_blob (filter (\<lambda>r. recipient r = k \<and> a < row_id r) (pg_rows d)))"
proof -
  obtain t where t: "pg_prepare d = Inr t" "pg_rows d = pt_rows t" using assms by (rule pg_invarE)
  have s: "sort_key row_id (filter P (pg_rows d)) = filter P (pg_rows d)" for P
    using assms by (intro sort_key_id) (simp add: pg_invar_def)
  show "pg_PeekAfter f d k a = Inr bs \<Longrightarrow>
      bs = map row_blob (filter (\<lambda>r. recipient r = k \<and> a < row_id r) (pg_rows d))"
    by (auto simp: pg_PeekAfter_def run_stmt_def t(1) s [unfolded t(2)] t(2) dest: pg_scan_rows_Inr split: option.splits)
  show "pg_PeekAfter no_faults d k a = Inr (map row_blob (filter (\<lambda>r. recipient r = k \<and> a < row_id r) (pg_rows d)))"
    by (simp add: pg_PeekAfter_def run_stmt_def t(1) s [unfolded t(2)] t(2) pg_scan_rows_no_faults no_faults_def [THEN fun_cong])
qed

lemma pg_delete_where_ok:
  assumes "pg_invar d"
  shows "\<exists>d'. pg_delete_where P d = Inr d' \<and> pg_invar d' \<and> pg_seq d' = pg_seq d \<and>
    pg_rows d' = filter (\<lambda>r. \<not> P r) (pg_rows d)"
  using assms
proof (rule pg_invarE)
  fix t assume "pg_inbox d = Some t" "pg_prepare d = Inr t" "pg_rows d = pt_rows t" "pg_seq d = pt_seq t"
  with assms show ?thesis
    by (simp add: pg_delete_where_def pg_invar_def pg_rows_def pg_seq_def sorted_wrt_map_filter)
qed

lemma pg_delete_ok:
  assumes "pg_invar d"
  shows "pg_DeleteForRecipient f d k ids = (None, d') \<Longrightarrow>
           pg_invar d' \<and> pg_seq d' = pg_seq d \<and>
           pg_rows d' = filter (\<lambda>r. \<not> (recipient r = k \<and> row_id r \<in> set ids)) (pg_rows d)"
    and "fst (pg_DeleteForRecipient no_faults d k ids) = None"
  using pg_delete_where_ok [OF assms, of "\<lambda>r. recipient r = k \<and> row_id r \<in> set ids"] assms
  by (auto simp: pg_DeleteForRecipient_def run_stmt_def no_faults_def split: if_splits option.splits)

lemma pg_delete_err: "pg_DeleteForRecipient f d k ids = (Some e, d') \<Longrightarrow> d' = d"
  by (auto simp: pg_DeleteForRecipient_def split: if_splits sum.splits)

lemma pg_reap_ok:
  assumes "pg_invar d"
  shows "pg_Reap f now d = (None, d') \<Longrightarrow>
           pg_invar d' \<and> pg_seq d' = pg_seq d \<and> pg_rows d' = filter (\<lambda>r. Unix now < expires_at r) (pg_rows d)"
    and "fst (pg_Reap no_faults now d) = None"
  using pg_delete_where_ok [OF assms, of "\<lambda>r. expires_at r \<le> Unix now"]
  by (auto simp: pg_Reap_def run_stmt_def no_faults_def not_le split: option.splits)

lemma pg_reap_err: "pg_Reap f now d = (Some e, d') \<Longrightarrow> d' = d"
  by (auto simp: pg_Reap_def split: sum.splits)

interpretation pg: inbox_contract postgres_store pg_invar pg_rows pg_seq
proof unfold_locales
  show "sorted_wrt (<) (map row_id (pg_rows st))" if "pg_invar st" for st
    using that by (simp add: pg_invar_def)
  show "0 < row_id r \<and> row_id r \<le> pg_seq st" if "pg_invar st" "r \<in> set (pg_rows st)" for st r
    using that by (simp add: pg_invar_def)
qed (auto simp: postgres_store_def dest: pg_put_ok pg_put_err pg_peek_ok(1) pg_delete_ok(1)
     pg_delete_err pg_reap_ok(1) pg_reap_err
     simp: pg_put_full pg_put_progress pg_peek_ok(2) pg_delete_ok(2) pg_reap_ok(2))

end
