(* ===== verification/Postgres_Cluster.thy ===== *)
theory Postgres_Cluster
  imports Postgres_Store
begin

text \<open>
  \<open>PutWithLimits\<close> of \<open>internal/store/postgres/store.go\<close> under concurrency: several nodes and several
  pushes on each share the table. The statements of a put's transaction are separate steps, which
  interleave with those of others and with deletes and sweeps. What is shown is how far an Inbox
  can exceed its quota and that IDs stay unique; the documented skip of a blob by a cursor is
  exhibited as a run.
\<close>

section \<open>Transactions\<close>

datatype tx_phase = Begun | Probed | Inserted inbox_row

record pg_tx =
  tx_key :: bytes
  tx_env :: bytes
  tx_expires :: int
  tx_phase :: tx_phase

record cluster =
  cl_db :: pg_db
  cl_txs :: "pg_tx list"

text \<open>
  The steps, for nodes that together hold at most \<open>n\<close> connections in puts, take envelopes of at
  most \<open>m\<close> bytes and are configured with the same \<open>lim\<close>. A put may be rolled back at any point: by
  an error, a refused probe, a cancelled context, or the end of its node.
\<close>

inductive cstep :: "nat \<Rightarrow> nat \<Rightarrow> InboxLimits \<Rightarrow> cluster \<Rightarrow> cluster \<Rightarrow> bool" for n m lim where
  c_begin: "length k = 32 \<Longrightarrow> length env \<le> m \<Longrightarrow> length (cl_txs c) < n \<Longrightarrow>
    cstep n m lim c (c\<lparr>cl_txs := cl_txs c @ [\<lparr>tx_key = k, tx_env = env, tx_expires = Unix (now + ttl), tx_phase = Begun\<rparr>]\<rparr>)"
| c_probe: "cl_txs c = xs @ t # ys \<Longrightarrow> tx_phase t = Begun \<Longrightarrow> pg_put_check f (cl_db c) (tx_key t) (tx_env t) lim = None \<Longrightarrow>
    cstep n m lim c (c\<lparr>cl_txs := xs @ t\<lparr>tx_phase := Probed\<rparr> # ys\<rparr>)"
| c_insert: "cl_txs c = xs @ t # ys \<Longrightarrow> tx_phase t = Probed \<Longrightarrow>
    run_stmt f Insert (pg_insert (tx_key t) (tx_env t) (tx_expires t) (cl_db c)) = Inr (r, d) \<Longrightarrow>
    cstep n m lim c \<lparr>cl_db = d, cl_txs = xs @ t\<lparr>tx_phase := Inserted r\<rparr> # ys\<rparr>"
| c_commit: "cl_txs c = xs @ t # ys \<Longrightarrow> tx_phase t = Inserted r \<Longrightarrow>
    cstep n m lim c \<lparr>cl_db = pg_commit r (cl_db c), cl_txs = xs @ ys\<rparr>"
| c_rollback: "cl_txs c = xs @ t # ys \<Longrightarrow> cstep n m lim c (c\<lparr>cl_txs := xs @ ys\<rparr>)"
| c_delete: "pg_DeleteForRecipient f (cl_db c) k ids = (e, d) \<Longrightarrow> cstep n m lim c (c\<lparr>cl_db := d\<rparr>)"
| c_reap: "pg_Reap f now (cl_db c) = (e, d) \<Longrightarrow> cstep n m lim c (c\<lparr>cl_db := d\<rparr>)"

text \<open>The transactions on an Inbox that are past their probe, and the load they may bring it to.\<close>

definition past :: "bytes \<Rightarrow> pg_tx list \<Rightarrow> pg_tx list" where
  "past k ts = filter (\<lambda>t. tx_key t = k \<and> tx_phase t \<noteq> Begun) ts"

definition load_count :: "cluster \<Rightarrow> bytes \<Rightarrow> int" where
  "load_count c k = inbox_count (pg_rows (cl_db c)) k + int (length (past k (cl_txs c)))"

definition load_bytes :: "cluster \<Rightarrow> bytes \<Rightarrow> int" where
  "load_bytes c k = inbox_bytes (pg_rows (cl_db c)) k + int (sum_list (map (length \<circ> tx_env) (past k (cl_txs c))))"

fun inserted :: "tx_phase \<Rightarrow> inbox_row list" where
  "inserted (Inserted r) = [r]"
| "inserted _ = []"

definition pending_rows :: "pg_tx list \<Rightarrow> inbox_row list" where
  "pending_rows ts = concat (map (\<lambda>t. inserted (tx_phase t)) ts)"

lemma past_simps [simp]:
  "past k [] = []" "past k (xs @ ys) = past k xs @ past k ys"
  "past k (t # ts) = (if tx_key t = k \<and> tx_phase t \<noteq> Begun then t # past k ts else past k ts)"
  by (simp_all add: past_def)

lemma pending_rows_simps [simp]:
  "pending_rows [] = []" "pending_rows (xs @ ys) = pending_rows xs @ pending_rows ys"
  "pending_rows (t # ts) = inserted (tx_phase t) @ pending_rows ts"
  by (simp_all add: pending_rows_def)

section \<open>The invariant\<close>

text \<open>IDs of committed and pending rows are distinct values of the sequence.\<close>

definition ids_ok :: "cluster \<Rightarrow> bool" where
  "ids_ok c \<longleftrightarrow> pg_inbox (cl_db c) \<noteq> None \<and> distinct (map row_id (pg_rows (cl_db c) @ pending_rows (cl_txs c))) \<and>
     (\<forall>r \<in> set (pg_rows (cl_db c)) \<union> set (pending_rows (cl_txs c)). 0 < row_id r \<and> row_id r \<le> pg_seq (cl_db c)) \<and>
     0 \<le> pg_seq (cl_db c)"

definition txs_ok :: "nat \<Rightarrow> nat \<Rightarrow> cluster \<Rightarrow> bool" where
  "txs_ok n m c \<longleftrightarrow> length (cl_txs c) \<le> n \<and>
     (\<forall>t \<in> set (cl_txs c). length (tx_env t) \<le> m \<and>
        (\<forall>r \<in> set (inserted (tx_phase t)). recipient r = tx_key t \<and> envelope r = tx_env t))"

definition load_ok :: "nat \<Rightarrow> nat \<Rightarrow> InboxLimits \<Rightarrow> bytes \<Rightarrow> cluster \<Rightarrow> bool" where
  "load_ok n m lim k c \<longleftrightarrow>
     (MaxBlobs lim > 0 \<longrightarrow> load_count c k \<le> MaxBlobs lim + int (n - 1)) \<and>
     (MaxBytes lim > 0 \<longrightarrow> load_bytes c k \<le> MaxBytes lim + int ((n - 1) * m))"

text \<open>A delete or a sweep only removes committed rows.\<close>

definition shrinks :: "pg_db \<Rightarrow> pg_db \<Rightarrow> bool" where
  "shrinks d d' \<longleftrightarrow> (\<exists>P. pg_rows d' = filter P (pg_rows d)) \<and> pg_seq d' = pg_seq d \<and> (pg_inbox d' = None \<longleftrightarrow> pg_inbox d = None)"

lemma shrinks_refl: "shrinks d d"
  by (auto simp: shrinks_def intro!: exI [of _ "\<lambda>_. True"])

lemma shrinks_delete_where: "pg_delete_where P d = Inr d' \<Longrightarrow> shrinks d d'"
  by (auto simp: shrinks_def pg_delete_where_def pg_prepare_def pg_rows_def pg_seq_def split: option.splits
      intro!: exI [of _ "\<lambda>r. \<not> P r"])

lemma shrinks_delete: "pg_DeleteForRecipient f d k ids = (e, d') \<Longrightarrow> shrinks d d'"
  by (auto simp: pg_DeleteForRecipient_def run_stmt_def shrinks_refl split: if_splits option.splits sum.splits
      intro: shrinks_delete_where)

lemma shrinks_reap: "pg_Reap f now d = (e, d') \<Longrightarrow> shrinks d d'"
  by (auto simp: pg_Reap_def run_stmt_def shrinks_refl split: option.splits sum.splits intro: shrinks_delete_where)

lemma distinct_map_filter_append: "distinct (map g (xs @ ys)) \<Longrightarrow> distinct (map g (filter P xs @ ys))"
  by (auto simp: distinct_map_filter)

lemma ids_ok_shrinks:
  assumes "ids_ok c" "shrinks (cl_db c) d"
  shows "ids_ok (c\<lparr>cl_db := d\<rparr>)"
proof -
  obtain P where d: "pg_rows d = filter P (pg_rows (cl_db c))" "pg_seq d = pg_seq (cl_db c)" "pg_inbox d = None \<longleftrightarrow> pg_inbox (cl_db c) = None"
    using assms(2) by (auto simp: shrinks_def)
  have "distinct (map row_id (pg_rows d @ pending_rows (cl_txs c)))"
    using assms(1) unfolding d(1) ids_ok_def by (blast intro: distinct_map_filter_append)
  moreover have "\<forall>r \<in> set (pg_rows d) \<union> set (pending_rows (cl_txs c)). 0 < row_id r \<and> row_id r \<le> pg_seq (cl_db c)"
    using assms(1) by (auto simp: ids_ok_def d(1))
  ultimately show ?thesis using assms(1) d by (simp add: ids_ok_def)
qed

lemma load_ok_shrinks:
  assumes "load_ok n m lim k c" "shrinks (cl_db c) d"
  shows "load_ok n m lim k (c\<lparr>cl_db := d\<rparr>)"
proof -
  obtain P where "pg_rows d = filter P (pg_rows (cl_db c))" using assms(2) by (auto simp: shrinks_def)
  with assms(1) inbox_count_filter [of P "pg_rows (cl_db c)" k] inbox_bytes_filter [of P "pg_rows (cl_db c)" k]
  show ?thesis by (auto simp: load_ok_def load_count_def load_bytes_def)
qed

lemma ids_ok_step:
  assumes "cstep n m lim c c'" "ids_ok c"
  shows "ids_ok c'"
  using assms
proof (cases rule: cstep.cases)
  case (c_insert xs t ys f r d)
  then have "pg_insert (tx_key t) (tx_env t) (tx_expires t) (cl_db c) = Inr (r, d)"
    by (auto simp: run_stmt_def split: option.splits)
  note i = pg_insert_Inr [OF this]
  from assms(2) have b: "\<forall>q \<in> set (pg_rows (cl_db c)) \<union> set (pending_rows (xs @ ys)). 0 < row_id q \<and> row_id q \<le> pg_seq (cl_db c)"
    using c_insert by (simp add: ids_ok_def)
  have "row_id r \<notin> row_id ` (set (pg_rows (cl_db c)) \<union> set (pending_rows (xs @ ys)))"
  proof
    assume "row_id r \<in> row_id ` (set (pg_rows (cl_db c)) \<union> set (pending_rows (xs @ ys)))"
    with b have "row_id r \<le> pg_seq (cl_db c)" by force
    with i show False by simp
  qed
  moreover have "0 < row_id q \<and> row_id q \<le> pg_seq d" if "q \<in> set (pg_rows d) \<union> set (pending_rows (cl_txs c'))" for q
  proof -
    have "q = r \<or> q \<in> set (pg_rows (cl_db c)) \<union> set (pending_rows (xs @ ys))" using that i c_insert by auto
    then show ?thesis
    proof
      assume "q \<in> set (pg_rows (cl_db c)) \<union> set (pending_rows (xs @ ys))"
      with b have "0 < row_id q" "row_id q \<le> pg_seq (cl_db c)" by blast+
      with i show ?thesis by simp
    qed (use i assms(2) in \<open>simp add: ids_ok_def\<close>)
  qed
  ultimately show ?thesis using i assms(2) c_insert by (auto simp: ids_ok_def)
next
  case (c_commit xs t ys r)
  with assms(2) show ?thesis by (auto simp: ids_ok_def pg_commit_view)
next
  case (c_delete f k ids e d)
  with assms(2) show ?thesis by (auto intro: ids_ok_shrinks shrinks_delete)
next
  case (c_reap f now e d)
  with assms(2) show ?thesis by (auto intro: ids_ok_shrinks shrinks_reap)
qed (auto simp: ids_ok_def)

lemma txs_ok_step:
  assumes "cstep n m lim c c'" "txs_ok n m c"
  shows "txs_ok n m c'"
  using assms
proof (cases rule: cstep.cases)
  case (c_insert xs t ys f r d)
  then have "pg_insert (tx_key t) (tx_env t) (tx_expires t) (cl_db c) = Inr (r, d)"
    by (auto simp: run_stmt_def split: option.splits)
  with pg_insert_Inr [OF this] assms(2) c_insert show ?thesis by (auto simp: txs_ok_def)
qed (auto simp: txs_ok_def)

text \<open>A probe that passes bounds the load: the others past theirs are at most \<open>n - 1\<close>.\<close>

lemma past_others:
  assumes "txs_ok n m c" "cl_txs c = xs @ t # ys"
  shows "length (past k (xs @ ys)) \<le> n - 1" "sum_list (map (length \<circ> tx_env) (past k (xs @ ys))) \<le> (n - 1) * m"
proof -
  have l: "length (past k (xs @ ys)) \<le> length (xs @ ys)" unfolding past_def by (rule length_filter_le)
  moreover have "length (xs @ ys) \<le> n - 1" using assms by (auto simp: txs_ok_def)
  ultimately show 1: "length (past k (xs @ ys)) \<le> n - 1" by (rule order_trans)
  have "sum_list (map (length \<circ> tx_env) zs) \<le> length zs * m" if "set zs \<subseteq> set (cl_txs c)" for zs
    using that assms(1) by (induction zs) (auto simp: txs_ok_def add_mono)
  from this [of "past k (xs @ ys)"] assms(2)
  have "sum_list (map (length \<circ> tx_env) (past k (xs @ ys))) \<le> length (past k (xs @ ys)) * m"
    by (auto simp: past_def)
  also have "\<dots> \<le> (n - 1) * m" using 1 by (rule mult_le_mono1)
  finally show "sum_list (map (length \<circ> tx_env) (past k (xs @ ys))) \<le> (n - 1) * m" .
qed

lemma probe_quota: "pg_put_check f d k env lim = None \<Longrightarrow> quota_ok lim (pg_rows d) k env"
  using pg_put_check_ok(1) [of d _ f k env lim]
  by (cases "pg_inbox d") (auto simp: pg_put_check_def pg_prepare_def pg_rows_def quota_ok_def run_stmt_def split: if_splits option.splits)

lemma load_probe:
  assumes "txs_ok n m c" "cl_txs c = xs @ t # ys" "quota_ok lim (pg_rows (cl_db c)) k (tx_env t)" "tx_key t = k"
  shows "load_ok n m lim k (c\<lparr>cl_txs := xs @ t\<lparr>tx_phase := Probed\<rparr> # ys\<rparr>)"
proof -
  note o = past_others [OF assms(1,2), of k]
  let ?c = "c\<lparr>cl_txs := xs @ t\<lparr>tx_phase := Probed\<rparr> # ys\<rparr>"
  have "load_count ?c k = inbox_count (pg_rows (cl_db c)) k + 1 + int (length (past k (xs @ ys)))"
    by (simp add: load_count_def assms(4))
  moreover have "load_bytes ?c k = inbox_bytes (pg_rows (cl_db c)) k + int (length (tx_env t)) +
      int (sum_list (map (length \<circ> tx_env) (past k (xs @ ys))))"
    by (simp add: load_bytes_def assms(4))
  ultimately show ?thesis using o [folded of_nat_le_iff [where 'a = int]] assms(3) unfolding load_ok_def quota_ok_def by linarith
qed

text \<open>Every other step adds nothing to the load.\<close>

lemma load_step:
  assumes "cstep n m lim c c'" "txs_ok n m c" "load_ok n m lim k c" "ids_ok c"
  shows "load_ok n m lim k c'"
  using assms(1)
proof (cases rule: cstep.cases)
  case (c_probe xs t ys f)
  show ?thesis
  proof (cases "tx_key t = k")
    case True
    with load_probe [OF assms(2) c_probe(2)] probe_quota [OF c_probe(4)] c_probe(1) show ?thesis by simp
  next
    case False
    with c_probe assms(3) show ?thesis by (simp add: load_ok_def load_count_def load_bytes_def)
  qed
next
  case (c_insert xs t ys f r d)
  then have "pg_insert (tx_key t) (tx_env t) (tx_expires t) (cl_db c) = Inr (r, d)"
    by (auto simp: run_stmt_def split: option.splits)
  from pg_insert_Inr [OF this] c_insert assms(3) show ?thesis by (auto simp: load_ok_def load_count_def load_bytes_def)
next
  case (c_commit xs t ys r)
  then have "recipient r = tx_key t" "envelope r = tx_env t" using assms(2) by (auto simp: txs_ok_def)
  with c_commit assms(3,4) show ?thesis
    by (auto simp: load_ok_def load_count_def load_bytes_def pg_commit_view ids_ok_def inbox_count_snoc inbox_bytes_snoc)
next
  case (c_rollback xs t ys)
  with assms(3) show ?thesis by (auto simp: load_ok_def load_count_def load_bytes_def split: if_splits)
next
  case (c_delete f k' ids e d)
  with assms(3) show ?thesis by (auto intro: load_ok_shrinks shrinks_delete)
next
  case (c_reap f now e d)
  with assms(3) show ?thesis by (auto intro: load_ok_shrinks shrinks_reap)
qed (use assms(3) in \<open>auto simp: load_ok_def load_count_def load_bytes_def\<close>)

lemma cluster_invariant:
  assumes "(cstep n m lim)\<^sup>*\<^sup>* c c'" "ids_ok c" "txs_ok n m c" "load_ok n m lim k c"
  shows "ids_ok c' \<and> txs_ok n m c' \<and> load_ok n m lim k c'"
  using assms by (induction rule: rtranclp_induct) (auto intro: ids_ok_step txs_ok_step load_step)

definition idle_cluster :: "pg_db \<Rightarrow> cluster" where
  "idle_cluster d = \<lparr>cl_db = d, cl_txs = []\<rparr>"

lemma idle_cluster_ok:
  assumes "pg_invar d" "within_limits lim (pg_rows d) k"
  shows "ids_ok (idle_cluster d)" "txs_ok n m (idle_cluster d)" "load_ok n m lim k (idle_cluster d)"
  using assms
  by (auto simp: idle_cluster_def ids_ok_def txs_ok_def load_ok_def load_count_def load_bytes_def pg_invar_def within_limits_def
      strict_sorted_iff intro: order_trans)

text \<open>A put that nothing overlaps is a run of these steps.\<close>

lemma put_is_run:
  assumes "pg_PutWithLimits f now d k env ttl lim = (res, d')" "length (cl_txs c) < n" "length env \<le> m" "cl_db c = d"
  shows "(cstep n m lim)\<^sup>*\<^sup>* c (c\<lparr>cl_db := d'\<rparr>)"
proof (cases "d' = d")
  case True
  with assms(4) have "c\<lparr>cl_db := d'\<rparr> = c" by (cases c) simp
  then show ?thesis by simp
next
  case False
  let ?t = "\<lparr>tx_key = k, tx_env = env, tx_expires = Unix (now + ttl), tx_phase = Begun\<rparr>"
  from False assms(1) obtain r d1 where a: "length k = 32" "pg_put_check f d k env lim = None"
    "run_stmt f Insert (pg_insert k env (Unix (now + ttl)) d) = Inr (r, d1)" "d' = d1 \<or> d' = pg_commit r d1"
    by (auto simp: pg_PutWithLimits_def Let_def split: if_splits option.splits sum.splits)
  have "(cstep n m lim)\<^sup>*\<^sup>* c (c\<lparr>cl_txs := cl_txs c @ [?t]\<rparr>)"
    using c_begin [OF a(1) assms(3,2)] by (rule r_into_rtranclp)
  also have "cstep n m lim (c\<lparr>cl_txs := cl_txs c @ [?t]\<rparr>) (c\<lparr>cl_txs := cl_txs c @ [?t\<lparr>tx_phase := Probed\<rparr>]\<rparr>)"
    using c_probe [of "c\<lparr>cl_txs := cl_txs c @ [?t]\<rparr>" "cl_txs c" ?t "[]" f lim n m] a(2) assms(4) by simp
  also have "cstep n m lim (c\<lparr>cl_txs := cl_txs c @ [?t\<lparr>tx_phase := Probed\<rparr>]\<rparr>)
      \<lparr>cl_db = d1, cl_txs = cl_txs c @ [?t\<lparr>tx_phase := Inserted r\<rparr>]\<rparr>"
    using c_insert [of "c\<lparr>cl_txs := cl_txs c @ [?t\<lparr>tx_phase := Probed\<rparr>]\<rparr>" "cl_txs c" "?t\<lparr>tx_phase := Probed\<rparr>" "[]" f r d1 n m lim]
      a(3) assms(4) by simp
  also have "cstep n m lim \<lparr>cl_db = d1, cl_txs = cl_txs c @ [?t\<lparr>tx_phase := Inserted r\<rparr>]\<rparr> (c\<lparr>cl_db := d'\<rparr>)"
    using a(4) c_commit [of "\<lparr>cl_db = d1, cl_txs = cl_txs c @ [?t\<lparr>tx_phase := Inserted r\<rparr>]\<rparr>" "cl_txs c" "?t\<lparr>tx_phase := Inserted r\<rparr>" "[]" r n m lim]
      c_rollback [of "\<lparr>cl_db = d1, cl_txs = cl_txs c @ [?t\<lparr>tx_phase := Inserted r\<rparr>]\<rparr>" "cl_txs c" "?t\<lparr>tx_phase := Inserted r\<rparr>" "[]" n m lim]
    by (cases c) auto
  finally show ?thesis .
qed

section \<open>Properties\<close>

text \<open>
  C37 (the quota on Postgres). However the transactions of puts interleave, with each other and
  with deletes and sweeps, an Inbox that was within its quota never exceeds it by more than the
  other transactions in flight can bring: with \<open>n\<close> at a time, \<open>n - 1\<close> blobs and \<open>n - 1\<close> envelopes'
  worth of bytes. With one at a time the quota is exact. IDs are never given to two rows.
\<close>

theorem pg_quota_overshoot:
  assumes "(cstep n m lim)\<^sup>*\<^sup>* (idle_cluster d) c" and "pg_invar d" and "within_limits lim (pg_rows d) k"
  shows "(MaxBlobs lim > 0 \<longrightarrow> inbox_count (pg_rows (cl_db c)) k \<le> MaxBlobs lim + int (n - 1)) \<and>
    (MaxBytes lim > 0 \<longrightarrow> inbox_bytes (pg_rows (cl_db c)) k \<le> MaxBytes lim + int ((n - 1) * m)) \<and>
    distinct (map row_id (pg_rows (cl_db c)))"
  using cluster_invariant [OF assms(1) idle_cluster_ok [OF assms(2,3)]]
  by (auto simp: load_ok_def load_count_def load_bytes_def ids_ok_def)

text \<open>
  Two puts on an empty Inbox with room for one blob: both probe before either commits, and the
  second to insert commits first.
\<close>

definition empty_pg :: pg_db where
  "empty_pg = \<lparr>pg_inbox = Some \<lparr>pt_rows = [], pt_seq = 0\<rparr>\<rparr>"

definition one_blob :: InboxLimits where "one_blob = \<lparr>MaxBlobs = 1, MaxBytes = 0\<rparr>"

definition race_row :: "int \<Rightarrow> inbox_row" where
  "race_row i = \<lparr>row_id = i, recipient = replicate 32 7, envelope = [], expires_at = 0\<rparr>"

definition race_tx :: "tx_phase \<Rightarrow> pg_tx" where
  "race_tx p = \<lparr>tx_key = replicate 32 7, tx_env = [], tx_expires = 0, tx_phase = p\<rparr>"

definition race_state :: "inbox_row list \<Rightarrow> int \<Rightarrow> tx_phase list \<Rightarrow> cluster" where
  "race_state rs s ps = \<lparr>cl_db = \<lparr>pg_inbox = Some \<lparr>pt_rows = rs, pt_seq = s\<rparr>\<rparr>, cl_txs = map race_tx ps\<rparr>"

lemma race_begin: "length ps < n \<Longrightarrow> cstep n m lim (race_state rs s ps) (race_state rs s (ps @ [Begun]))"
  using c_begin [of "replicate 32 7" "[]" m "race_state rs s ps" n lim 0 0] by (simp add: race_state_def race_tx_def Unix_def)

lemma race_probe:
  "pg_put_check no_faults (cl_db (race_state rs s [])) (replicate 32 7) [] lim = None \<Longrightarrow>
   cstep n m lim (race_state rs s (ps @ Begun # qs)) (race_state rs s (ps @ Probed # qs))"
  using c_probe [of "race_state rs s (ps @ Begun # qs)" "map race_tx ps" "race_tx Begun" "map race_tx qs" no_faults lim n m]
  by (simp add: race_state_def race_tx_def)

lemma race_insert:
  "s < 2 ^ 63 - 1 \<Longrightarrow>
   cstep n m lim (race_state rs s (ps @ Probed # qs)) (race_state rs (s + 1) (ps @ Inserted (race_row (s + 1)) # qs))"
  using c_insert [of "race_state rs s (ps @ Probed # qs)" "map race_tx ps" "race_tx Probed" "map race_tx qs" no_faults]
  by (simp add: race_state_def race_tx_def race_row_def run_stmt_def no_faults_def pg_insert_def pg_prepare_def)

lemma race_commit:
  "cstep n m lim (race_state rs s (ps @ Inserted r # qs)) (race_state (rs @ [r]) s (ps @ qs))"
  using c_commit [of "race_state rs s (ps @ Inserted r # qs)" "map race_tx ps" "race_tx (Inserted r)" "map race_tx qs" r]
  by (simp add: race_state_def race_tx_def pg_commit_def)

text \<open>The run in two parts: up to the first commit, and the second commit.\<close>

lemma race_run:
  "(cstep 2 0 one_blob)\<^sup>*\<^sup>* (race_state [] 0 []) (race_state [race_row 2] 2 [Inserted (race_row 1)])"
  "cstep 2 0 one_blob (race_state [race_row 2] 2 [Inserted (race_row 1)]) (race_state [race_row 2, race_row 1] 2 [])"
proof -
  have q: "pg_put_check no_faults (cl_db (race_state [] 0 [])) (replicate 32 7) [] one_blob = None"
    by (simp add: race_state_def pg_put_check_def one_blob_def run_stmt_def no_faults_def pg_prepare_def inbox_count_def)
  have "(cstep 2 0 one_blob)\<^sup>*\<^sup>* (race_state [] 0 []) (race_state [] 0 [Begun])"
    using race_begin [of "[]" 2] by (auto intro: r_into_rtranclp)
  also have "cstep 2 0 one_blob (race_state [] 0 [Begun]) (race_state [] 0 [Begun, Begun])" using race_begin [of "[Begun]" 2] by simp
  also have "cstep 2 0 one_blob (race_state [] 0 [Begun, Begun]) (race_state [] 0 [Probed, Begun])"
    using race_probe [OF q, of 2 0 "[]"] by simp
  also have "cstep 2 0 one_blob (race_state [] 0 [Probed, Begun]) (race_state [] 0 [Probed, Probed])"
    using race_probe [OF q, of 2 0 "[Probed]" "[]"] by simp
  also have "cstep 2 0 one_blob (race_state [] 0 [Probed, Probed]) (race_state [] 1 [Inserted (race_row 1), Probed])"
    using race_insert [of 0 2 0 one_blob "[]" "[]"] by simp
  also have "cstep 2 0 one_blob (race_state [] 1 [Inserted (race_row 1), Probed]) (race_state [] 2 [Inserted (race_row 1), Inserted (race_row 2)])"
    using race_insert [of 1 2 0 one_blob "[]" "[Inserted (race_row 1)]" "[]"] by simp
  also have "cstep 2 0 one_blob (race_state [] 2 [Inserted (race_row 1), Inserted (race_row 2)]) (race_state [race_row 2] 2 [Inserted (race_row 1)])"
    using race_commit [of 2 0 one_blob "[]" 2 "[Inserted (race_row 1)]" "race_row 2" "[]"] by simp
  finally show "(cstep 2 0 one_blob)\<^sup>*\<^sup>* (race_state [] 0 []) (race_state [race_row 2] 2 [Inserted (race_row 1)])" .
  show "cstep 2 0 one_blob (race_state [race_row 2] 2 [Inserted (race_row 1)]) (race_state [race_row 2, race_row 1] 2 [])"
    using race_commit [of 2 0 one_blob "[race_row 2]" 2 "[]" "race_row 1" "[]"] by simp
qed

lemma idle_race: "idle_cluster empty_pg = race_state [] 0 []"
  by (simp add: idle_cluster_def empty_pg_def race_state_def)

text \<open>The bound is reached: two blobs where one is allowed.\<close>

theorem pg_quota_overshoot_witness:
  "\<exists>c. (cstep 2 0 one_blob)\<^sup>*\<^sup>* (idle_cluster empty_pg) c \<and> inbox_count (pg_rows (cl_db c)) (replicate 32 7) = 2 \<and>
     inbox_count (pg_rows (cl_db c)) (replicate 32 7) \<le> MaxBlobs one_blob + 1"
proof -
  let ?c = "race_state [race_row 2, race_row 1] 2 []"
  have r: "(cstep 2 0 one_blob)\<^sup>*\<^sup>* (idle_cluster empty_pg) ?c" using race_run by (auto simp: idle_race)
  have "inbox_count (pg_rows (cl_db ?c)) (replicate 32 7) = 2"
    by (simp add: race_state_def pg_rows_def race_row_def inbox_count_def)
  with pg_quota_overshoot [OF r, of "replicate 32 7"] r show ?thesis
    by (auto simp: one_blob_def empty_pg_def pg_invar_def pg_rows_def pg_seq_def within_limits_def inbox_count_def)
qed

text \<open>
  In the same run a session that peeks between the two commits is sent blob 2; its next peek,
  after that cursor, misses blob 1, which a new session's peek returns.
\<close>

lemma pg_cursor_skips:
  "pg_PeekAfter no_faults (cl_db (race_state [race_row 2] 2 [Inserted (race_row 1)])) (replicate 32 7) 0 = Inr [row_blob (race_row 2)]"
  "pg_PeekAfter no_faults (cl_db (race_state [race_row 2, race_row 1] 2 [])) (replicate 32 7) 2 = Inr []"
  "pg_PeekAfter no_faults (cl_db (race_state [race_row 2, race_row 1] 2 [])) (replicate 32 7) 0 = Inr [row_blob (race_row 1), row_blob (race_row 2)]"
  by (simp_all add: race_state_def pg_PeekAfter_def run_stmt_def no_faults_def pg_prepare_def race_row_def)

end
