(* ===== verification/Postgres_Notifier.thy ===== *)
theory Postgres_Notifier
  imports Notifier Go_Hex
begin

text \<open>
  The Notifier half of \<open>internal/store/postgres/store.go\<close> on one node: \<open>Subscribe\<close> with its teardown
  goroutine, \<open>Notify\<close>, and \<open>listenLoop\<close>, the sole user of the listener connection. The sections
  under \<open>s.mu\<close>, the sends on \<open>cmdCh\<close>, the commands the loop executes and the signals it sends are
  separate steps, which interleave. The server's part is its documented one: a notification on
  a channel goes to a connection that listens on it at that moment.

  The subscriber lists are plain lists: they are read and changed under the lock only, and the
  loop copies a list before it leaves the lock, so no backing array is shared.
\<close>

section \<open>Channel names\<close>

definition channelName :: "bytes \<Rightarrow> string go" where
  "channelName key = (case go_slice key 0 31 of Panic \<Rightarrow> Panic | Ret b \<Rightarrow> Ret (''r'' @ EncodeToString b))"

text \<open>The name for a key of 32 bytes, as all callers have it.\<close>

definition key_name :: "bytes \<Rightarrow> string" where
  "key_name key = ''r'' @ EncodeToString (take 31 key)"

section \<open>State\<close>

datatype sub_phase =
    Sending   \<comment> \<open>registered; about to send \<open>LISTEN\<close> to the loop\<close>
  | Replying  \<comment> \<open>waiting for the loop's reply\<close>
  | Failed    \<comment> \<open>the reply was an error; about to undo the registration\<close>
  | Open      \<comment> \<open>\<open>Subscribe\<close> returned the channel; its context is not cancelled\<close>

record subscription =
  sname :: string
  schan :: nat
  sphase :: sub_phase

datatype listenCmd = LISTEN string nat | UNLISTEN string

text \<open>
  Channels are numbered in the order they are made; \<open>pn_key\<close> records the key each was made for.
  \<open>pn_offers\<close> are the teardown goroutines that have left the lock and will offer an \<open>UNLISTEN\<close>;
  \<open>pn_listening\<close> is the server's view of the listener connection, \<open>pn_wire\<close> the notifications on
  their way to it, \<open>pn_loop\<close> the rest of the snapshot the loop is signalling.
\<close>

record pgn =
  pn_subs :: "string \<Rightarrow> nat list"
  pn_refcount :: "string \<Rightarrow> int"
  pn_made :: nat
  pn_key :: "nat \<Rightarrow> bytes"
  pn_buffered :: "nat set"
  pn_closed :: "nat set"
  pn_live :: "subscription list"
  pn_offers :: "string list"
  pn_cmds :: "listenCmd list"
  pn_listening :: "string set"
  pn_wire :: "string list"
  pn_loop :: "nat list"

definition pgn_New :: pgn where
  "pgn_New = \<lparr>pn_subs = (\<lambda>_. []), pn_refcount = (\<lambda>_. 0), pn_made = 0, pn_key = (\<lambda>_. []), pn_buffered = {}, pn_closed = {},
     pn_live = [], pn_offers = [], pn_cmds = [], pn_listening = {}, pn_wire = [], pn_loop = []\<rparr>"

section \<open>Atomic sections\<close>

definition cmdCh_capacity :: nat where "cmdCh_capacity = 64"

definition set_phase :: "nat \<Rightarrow> sub_phase \<Rightarrow> pgn \<Rightarrow> pgn" where
  "set_phase ch p n = n\<lparr>pn_live := map (\<lambda>s. if schan s = ch then s\<lparr>sphase := p\<rparr> else s) (pn_live n)\<rparr>"

text \<open>The first section of \<open>Subscribe\<close>; only the first subscriber of a name sends \<open>LISTEN\<close>.\<close>

definition register :: "bytes \<Rightarrow> string \<Rightarrow> pgn \<Rightarrow> pgn" where
  "register key name n =
     (let ch = pn_made n;
          n = n\<lparr>pn_made := ch + 1, pn_key := (pn_key n)(ch := key),
                pn_refcount := (pn_refcount n)(name := pn_refcount n name + 1),
                pn_subs := (pn_subs n)(name := pn_subs n name @ [ch])\<rparr>;
          needListen = (pn_refcount n name = 1)
      in n\<lparr>pn_live := pn_live n @ [\<lparr>sname = name, schan = ch, sphase = (if needListen then Sending else Open)\<rparr>]\<rparr>)"

definition send_listen :: "string \<Rightarrow> nat \<Rightarrow> pgn \<Rightarrow> pgn" where
  "send_listen name ch n = (set_phase ch Replying n)\<lparr>pn_cmds := pn_cmds n @ [LISTEN name ch]\<rparr>"

definition removeSub :: "string \<Rightarrow> nat \<Rightarrow> pgn \<Rightarrow> pgn" where
  "removeSub name ch n = n\<lparr>pn_subs := (pn_subs n)(name := remove1 ch (pn_subs n name))\<rparr>"

text \<open>\<open>s.refcount[name]--\<close>, and at zero the deletion of both entries.\<close>

definition drop_ref :: "string \<Rightarrow> pgn \<Rightarrow> pgn" where
  "drop_ref name n =
     (let n = n\<lparr>pn_refcount := (pn_refcount n)(name := pn_refcount n name - 1)\<rparr>
      in if pn_refcount n name = 0 then n\<lparr>pn_subs := (pn_subs n)(name := []), pn_refcount := (pn_refcount n)(name := 0)\<rparr> else n)"

text \<open>The end of a subscription: \<open>removeSub\<close>, \<open>close(ch)\<close> and the reference count.\<close>

definition sub_end :: "string \<Rightarrow> nat \<Rightarrow> pgn \<Rightarrow> pgn" where
  "sub_end name ch n =
     (let n = drop_ref name (removeSub name ch n)
      in n\<lparr>pn_closed := insert ch (pn_closed n), pn_live := filter (\<lambda>s. schan s \<noteq> ch) (pn_live n)\<rparr>)"

text \<open>The teardown goroutine: its section under the lock, then its offer, dropped when \<open>cmdCh\<close> is full.\<close>

definition cancel :: "string \<Rightarrow> nat \<Rightarrow> pgn \<Rightarrow> pgn" where
  "cancel name ch n =
     (let shouldUnlisten = (pn_refcount n name - 1 = 0); n = sub_end name ch n
      in if shouldUnlisten then n\<lparr>pn_offers := pn_offers n @ [name]\<rparr> else n)"

definition offer :: "string \<Rightarrow> pgn \<Rightarrow> pgn" where
  "offer name n =
     n\<lparr>pn_offers := remove1 name (pn_offers n),
       pn_cmds := (if length (pn_cmds n) < cmdCh_capacity then pn_cmds n @ [UNLISTEN name] else pn_cmds n)\<rparr>"

text \<open>One command of the loop's drain; \<open>err\<close> is what the server answered.\<close>

definition exec_cmd :: "go_err option \<Rightarrow> pgn \<Rightarrow> pgn" where
  "exec_cmd err n =
     (case pn_cmds n of
        [] \<Rightarrow> n
      | LISTEN name ch # cs \<Rightarrow>
          (case err of
             None \<Rightarrow> (set_phase ch Open n)\<lparr>pn_cmds := cs, pn_listening := insert name (pn_listening n)\<rparr>
           | Some e \<Rightarrow> (set_phase ch Failed n)\<lparr>pn_cmds := cs\<rparr>)
      | UNLISTEN name # cs \<Rightarrow>
          n\<lparr>pn_cmds := cs, pn_listening := (if err = None then pn_listening n - {name} else pn_listening n)\<rparr>)"

text \<open>\<open>SELECT pg_notify(name, '')\<close>, from this node or another.\<close>

definition pg_notify :: "string \<Rightarrow> pgn \<Rightarrow> pgn" where
  "pg_notify name n = (if name \<in> pn_listening n then n\<lparr>pn_wire := pn_wire n @ [name]\<rparr> else n)"

text \<open>\<open>WaitForNotification\<close> returns, and the loop copies the subscribers of the name.\<close>

definition receive_notification :: "pgn \<Rightarrow> pgn" where
  "receive_notification n = (case pn_wire n of [] \<Rightarrow> n | name # w \<Rightarrow> n\<lparr>pn_wire := w, pn_loop := pn_subs n name\<rparr>)"

text \<open>The non-blocking send to the next channel of the snapshot; a closed channel panics.\<close>

definition signal :: "pgn \<Rightarrow> pgn go" where
  "signal n =
     (case pn_loop n of
        [] \<Rightarrow> Ret n
      | ch # chs \<Rightarrow> if ch \<in> pn_closed n then Panic else Ret (n\<lparr>pn_buffered := insert ch (pn_buffered n), pn_loop := chs\<rparr>))"

section \<open>Steps\<close>

inductive pstep :: "pgn \<Rightarrow> pgn \<Rightarrow> bool" where
  p_subscribe: "channelName key = Ret name \<Longrightarrow> pstep n (register key name n)"
| p_send: "s \<in> set (pn_live n) \<Longrightarrow> sphase s = Sending \<Longrightarrow> length (pn_cmds n) < cmdCh_capacity \<Longrightarrow>
    pstep n (send_listen (sname s) (schan s) n)"
| p_exec: "pn_loop n = [] \<Longrightarrow> pstep n (exec_cmd err n)"
| p_failed: "s \<in> set (pn_live n) \<Longrightarrow> sphase s = Failed \<Longrightarrow> pstep n (sub_end (sname s) (schan s) n)"
| p_cancel: "s \<in> set (pn_live n) \<Longrightarrow> sphase s = Open \<Longrightarrow> pstep n (cancel (sname s) (schan s) n)"
| p_offer: "name \<in> set (pn_offers n) \<Longrightarrow> pstep n (offer name n)"
| p_notify: "pstep n (pg_notify name n)"
| p_receive: "pn_loop n = [] \<Longrightarrow> pstep n (receive_notification n)"
| p_signal: "signal n = Ret n' \<Longrightarrow> pstep n n'"
| p_take: "pstep n (n\<lparr>pn_buffered := pn_buffered n - {ch}\<rparr>)"

section \<open>Consistency of the registrations\<close>

definition pgn_ok :: "pgn \<Rightarrow> bool" where
  "pgn_ok n \<longleftrightarrow> distinct (map schan (pn_live n)) \<and>
     (\<forall>name. distinct (pn_subs n name) \<and> set (pn_subs n name) = schan ` {s \<in> set (pn_live n). sname s = name}) \<and>
     (\<forall>name. pn_refcount n name = int (length (pn_subs n name))) \<and>
     (\<forall>s \<in> set (pn_live n). schan s < pn_made n \<and> schan s \<notin> pn_closed n) \<and> pn_closed n \<subseteq> {..<pn_made n}"

lemma pgn_okD:
  assumes "pgn_ok n"
  shows "distinct (map schan (pn_live n))" "distinct (pn_subs n name)"
    "set (pn_subs n name) = schan ` {s \<in> set (pn_live n). sname s = name}"
    "pn_refcount n name = int (length (pn_subs n name))"
    "s \<in> set (pn_live n) \<Longrightarrow> schan s < pn_made n \<and> schan s \<notin> pn_closed n" "pn_closed n \<subseteq> {..<pn_made n}"
  using assms by (auto simp: pgn_ok_def)

lemma pgn_okI:
  assumes "distinct (map schan (pn_live n))" "\<And>name. distinct (pn_subs n name)"
    "\<And>name. set (pn_subs n name) = schan ` {s \<in> set (pn_live n). sname s = name}"
    "\<And>name. pn_refcount n name = int (length (pn_subs n name))"
    "\<And>s. s \<in> set (pn_live n) \<Longrightarrow> schan s < pn_made n \<and> schan s \<notin> pn_closed n" "pn_closed n \<subseteq> {..<pn_made n}"
  shows "pgn_ok n"
  using assms by (simp add: pgn_ok_def)

lemma pgn_ok_New: "pgn_ok pgn_New"
  by (simp add: pgn_ok_def pgn_New_def)

text \<open>The parts of the state that consistency does not look at.\<close>

lemma chans_of_name: "schan ` {s \<in> X. sname s = a} = {b. (a, b) \<in> (\<lambda>s. (sname s, schan s)) ` X}"
  by force

lemma pgn_ok_frame:
  assumes "pgn_ok n" "pn_subs n' = pn_subs n" "pn_refcount n' = pn_refcount n" "pn_made n' = pn_made n" "pn_closed n' = pn_closed n"
    "map (\<lambda>s. (sname s, schan s)) (pn_live n') = map (\<lambda>s. (sname s, schan s)) (pn_live n)"
  shows "pgn_ok n'"
proof -
  have c: "map schan (pn_live n') = map schan (pn_live n)"
    using arg_cong [OF assms(6), of "map snd"] by (simp add: comp_def)
  have p: "(\<lambda>s. (sname s, schan s)) ` set (pn_live n') = (\<lambda>s. (sname s, schan s)) ` set (pn_live n)"
    using arg_cong [OF assms(6), of set] by simp
  have "c < pn_made n \<and> c \<notin> pn_closed n" if "c \<in> set (map schan (pn_live n))" for c using that assms(1) by (auto simp: pgn_ok_def)
  then have "\<forall>s \<in> set (pn_live n'). schan s < pn_made n \<and> schan s \<notin> pn_closed n" unfolding c [symmetric] by simp
  with assms(1-5) show ?thesis unfolding pgn_ok_def chans_of_name p c by simp
qed

lemma pgn_ok_updates [simp]:
  "pgn_ok (n\<lparr>pn_buffered := b\<rparr>) = pgn_ok n" "pgn_ok (n\<lparr>pn_offers := os\<rparr>) = pgn_ok n" "pgn_ok (n\<lparr>pn_cmds := cs\<rparr>) = pgn_ok n"
  "pgn_ok (n\<lparr>pn_listening := l\<rparr>) = pgn_ok n" "pgn_ok (n\<lparr>pn_wire := w\<rparr>) = pgn_ok n" "pgn_ok (n\<lparr>pn_loop := chs\<rparr>) = pgn_ok n"
  by (simp_all add: pgn_ok_def)

lemma pgn_ok_phase: "pgn_ok n \<Longrightarrow> pgn_ok (set_phase ch p n)"
  by (erule pgn_ok_frame) (simp_all add: set_phase_def comp_def)

lemma pgn_ok_register:
  assumes "pgn_ok n"
  shows "pgn_ok (register key name n)"
proof -
  note ok = pgn_okD [OF assms]
  have "c \<in> schan ` set (pn_live n) \<Longrightarrow> c < pn_made n" for c using ok(5) by auto
  then have new: "pn_made n \<notin> schan ` set (pn_live n)" using less_irrefl by blast
  with ok(3) [of name] have "pn_made n \<notin> set (pn_subs n name)" by auto
  note new = new this
  let ?n = "register key name n"
  obtain x where x: "pn_live ?n = pn_live n @ [x]" "sname x = name" "schan x = pn_made n" by (auto simp: register_def Let_def)
  have r: "pn_subs ?n = (pn_subs n)(name := pn_subs n name @ [pn_made n])" "pn_made ?n = pn_made n + 1" "pn_closed ?n = pn_closed n"
    "pn_refcount ?n = (pn_refcount n)(name := pn_refcount n name + 1)" by (simp_all add: register_def Let_def)
  show ?thesis
  proof (rule pgn_okI)
    show "distinct (map schan (pn_live ?n))" using ok(1) new(1) by (simp add: x)
    show "distinct (pn_subs ?n a)" for a using ok(2) new(2) by (simp add: r)
    show "set (pn_subs ?n a) = schan ` {s \<in> set (pn_live ?n). sname s = a}" for a
    proof -
      have "{s \<in> set (pn_live ?n). sname s = a} = {s \<in> set (pn_live n). sname s = a} \<union> (if a = name then {x} else {})"
        using x by auto
      then show ?thesis using ok(3) [of a] by (cases "a = name") (simp_all add: r x(3))
    qed
    show "pn_refcount ?n a = int (length (pn_subs ?n a))" for a using ok(4) by (simp add: r)
    show "schan s < pn_made ?n \<and> schan s \<notin> pn_closed ?n" if "s \<in> set (pn_live ?n)" for s
      using that ok(5) [of s] ok(6) by (auto simp: x r)
    show "pn_closed ?n \<subseteq> {..<pn_made ?n}" using ok(6) by (auto simp: r)
  qed
qed

lemma pgn_ok_sub_end:
  assumes "pgn_ok n" "s \<in> set (pn_live n)"
  shows "pgn_ok (sub_end (sname s) (schan s) n)"
proof -
  note ok = pgn_okD [OF assms(1)]
  have s: "schan s \<in> set (pn_subs n (sname s))" using ok(3) assms(2) by auto
  then have l: "int (length (remove1 (schan s) (pn_subs n (sname s)))) = pn_refcount n (sname s) - 1"
    using ok(4) [of "sname s"] length_pos_if_in_set [OF s] by (simp add: length_remove1 of_nat_diff Suc_le_eq)
  have uniq: "t \<in> set (pn_live n) \<Longrightarrow> schan t = schan s \<Longrightarrow> t = s" for t
    using ok(1) assms(2) by (auto simp: distinct_map dest: inj_onD)
  have img: "schan ` {t \<in> set (pn_live n). schan t \<noteq> schan s \<and> sname t = a} = set (pn_subs n a) - {schan s}" for a
    using ok(3) [of a] uniq by auto
  have other: "a \<noteq> sname s \<Longrightarrow> schan s \<notin> set (pn_subs n a)" for a using ok(3) [of a] uniq by auto
  let ?n = "sub_end (sname s) (schan s) n"
  have "pn_subs ?n = (pn_subs n)(sname s := remove1 (schan s) (pn_subs n (sname s)))"
    using l by (auto simp: sub_end_def drop_ref_def removeSub_def Let_def fun_eq_iff)
  moreover have "pn_refcount ?n = (pn_refcount n)(sname s := pn_refcount n (sname s) - 1)"
    by (auto simp: sub_end_def drop_ref_def removeSub_def Let_def fun_eq_iff)
  moreover have "pn_made ?n = pn_made n" "pn_closed ?n = insert (schan s) (pn_closed n)"
    "pn_live ?n = filter (\<lambda>t. schan t \<noteq> schan s) (pn_live n)"
    by (auto simp: sub_end_def drop_ref_def removeSub_def Let_def)
  moreover have "(pn_subs n)(sname s := remove1 (schan s) (pn_subs n (sname s))) = (\<lambda>a. remove1 (schan s) (pn_subs n a))"
    using other by (auto simp: fun_eq_iff remove1_idem)
  moreover have "(pn_refcount n)(sname s := pn_refcount n (sname s) - 1) = (\<lambda>a. int (length (remove1 (schan s) (pn_subs n a))))"
    using other l ok(4) by (auto simp: fun_eq_iff remove1_idem)
  ultimately have e: "pn_subs ?n a = remove1 (schan s) (pn_subs n a)" "pn_refcount ?n a = int (length (remove1 (schan s) (pn_subs n a)))"
    "pn_made ?n = pn_made n" "pn_closed ?n = insert (schan s) (pn_closed n)"
    "pn_live ?n = filter (\<lambda>t. schan t \<noteq> schan s) (pn_live n)" for a by simp_all
  show ?thesis
  proof (rule pgn_okI)
    show "distinct (map schan (pn_live ?n))" using ok(1) by (simp add: e distinct_map_filter)
    show "distinct (pn_subs ?n a)" for a using ok(2) by (simp add: e)
    show "set (pn_subs ?n a) = schan ` {s \<in> set (pn_live ?n). sname s = a}" for a
      using img [of a] ok(2) [of a] by (simp add: e conj_assoc)
    show "pn_refcount ?n a = int (length (pn_subs ?n a))" for a by (simp add: e)
    show "schan t < pn_made ?n \<and> schan t \<notin> pn_closed ?n" if "t \<in> set (pn_live ?n)" for t
      using that ok(5) [of t] by (simp add: e)
    show "pn_closed ?n \<subseteq> {..<pn_made ?n}" using ok(6) ok(5) [OF assms(2)] by (simp add: e)
  qed
qed

lemma pgn_ok_exec: "pgn_ok n \<Longrightarrow> pgn_ok (exec_cmd err n)"
  by (simp add: exec_cmd_def pgn_ok_phase split: list.split listenCmd.split option.split)

lemma pgn_ok_cancel: "pgn_ok n \<Longrightarrow> s \<in> set (pn_live n) \<Longrightarrow> pgn_ok (cancel (sname s) (schan s) n)"
  using pgn_ok_sub_end [of n s] by (simp add: cancel_def Let_def)

lemma pgn_ok_step: "pstep n n' \<Longrightarrow> pgn_ok n \<Longrightarrow> pgn_ok n'"
proof (induction rule: pstep.induct)
  case (p_signal n n')
  then show ?case by (auto simp: signal_def split: list.splits if_splits)
qed (simp_all add: pgn_ok_register pgn_ok_sub_end pgn_ok_cancel pgn_ok_exec pgn_ok_phase send_listen_def offer_def pg_notify_def
    receive_notification_def split: list.split)

lemma pgn_ok_steps: "pstep\<^sup>*\<^sup>* n n' \<Longrightarrow> pgn_ok n \<Longrightarrow> pgn_ok n'"
  by (induction rule: rtranclp_induct) (auto intro: pgn_ok_step)

section \<open>One call at a time\<close>

text \<open>
  The calls when each is over, the loop's part included, before the next begins: the operations
  of the notifier contract. \<open>err\<close> is the server's answer to a \<open>LISTEN\<close>.
\<close>

definition serial_Subscribe :: "(bytes \<Rightarrow> go_err option) \<Rightarrow> pgn \<Rightarrow> bytes \<Rightarrow> (go_err + nat) \<times> pgn" where
  "serial_Subscribe err n key =
     (let name = key_name key; ch = pn_made n; n1 = register key name n in
      if pn_refcount n1 name = 1 then
        (let n2 = exec_cmd (err key) (send_listen name ch n1) in
         case err key of
           None \<Rightarrow> (Inr ch, n2)
         | Some e \<Rightarrow> (Inl (Wrapped (''postgres: listen '' @ name @ '': '') e ''''), sub_end name ch n2))
      else (Inr ch, n1))"

fun signal_all :: "nat list \<Rightarrow> pgn \<Rightarrow> pgn go" where
  "signal_all [] n = Ret n"
| "signal_all (ch # chs) n = (case signal n of Panic \<Rightarrow> Panic | Ret n' \<Rightarrow> signal_all chs n')"

definition serial_Notify :: "pgn \<Rightarrow> bytes \<Rightarrow> pgn go" where
  "serial_Notify n key = (let n1 = receive_notification (pg_notify (key_name key) n) in signal_all (pn_loop n1) n1)"

definition serial_Unsubscribe :: "pgn \<Rightarrow> bytes \<Rightarrow> nat \<Rightarrow> pgn" where
  "serial_Unsubscribe n key ch =
     (let name = key_name key; n1 = cancel name ch n in
      if name \<in> set (pn_offers n1) then exec_cmd None (offer name n1) else n1)"

definition pg_ops :: "(bytes \<Rightarrow> go_err option) \<Rightarrow> pgn NotifierOps" where
  "pg_ops err = \<lparr>Notify = serial_Notify, Subscribe = serial_Subscribe err, HasSignal = (\<lambda>n c. c \<in> pn_buffered n),
     Receive = (\<lambda>n c. n\<lparr>pn_buffered := pn_buffered n - {c}\<rparr>), Unsubscribe = serial_Unsubscribe\<rparr>"

definition quiet :: "pgn \<Rightarrow> bool" where
  "quiet n \<longleftrightarrow> (\<forall>s \<in> set (pn_live n). sphase s = Open) \<and> pn_offers n = [] \<and> pn_cmds n = [] \<and> pn_wire n = [] \<and> pn_loop n = []"

definition pg_serial_ok :: "pgn \<Rightarrow> bool" where
  "pg_serial_ok n \<longleftrightarrow> pgn_ok n \<and> quiet n \<and> (\<forall>name. name \<in> pn_listening n \<longleftrightarrow> pn_subs n name \<noteq> []) \<and>
     (\<forall>s \<in> set (pn_live n). sname s = key_name (pn_key n (schan s)))"

definition pg_listed :: "pgn \<Rightarrow> bytes \<Rightarrow> nat set" where
  "pg_listed n k = {c. \<exists>s \<in> set (pn_live n). schan s = c \<and> pn_key n c = k}"

lemma pg_serial_okD:
  assumes "pg_serial_ok n"
  shows "pgn_ok n" "s \<in> set (pn_live n) \<Longrightarrow> sphase s = Open" "pn_offers n = []" "pn_cmds n = []" "pn_wire n = []" "pn_loop n = []"
    "name \<in> pn_listening n \<longleftrightarrow> pn_subs n name \<noteq> []" "s \<in> set (pn_live n) \<Longrightarrow> sname s = key_name (pn_key n (schan s))"
  using assms by (auto simp: pg_serial_ok_def quiet_def)

lemma pg_serial_ok_New: "pg_serial_ok pgn_New"
  by (simp add: pg_serial_ok_def pgn_ok_New) (simp add: quiet_def pgn_New_def)

text \<open>A new subscription, in both cases.\<close>

lemma made_fresh: "pgn_ok n \<Longrightarrow> s \<in> set (pn_live n) \<Longrightarrow> schan s \<noteq> pn_made n"
  using pgn_okD(5) by fastforce

lemma serial_Subscribe_Inr:
  assumes "pg_serial_ok n" "serial_Subscribe err n key = (Inr ch, n')"
  shows "ch = pn_made n \<and>
    n' = n\<lparr>pn_made := ch + 1, pn_key := (pn_key n)(ch := key),
      pn_refcount := (pn_refcount n)(key_name key := pn_refcount n (key_name key) + 1),
      pn_subs := (pn_subs n)(key_name key := pn_subs n (key_name key) @ [ch]),
      pn_live := pn_live n @ [\<lparr>sname = key_name key, schan = ch, sphase = Open\<rparr>],
      pn_listening := insert (key_name key) (pn_listening n)\<rparr>"
proof -
  note ok = pg_serial_okD [OF assms(1)]
  have keep: "map (\<lambda>s. if schan s = pn_made n then s\<lparr>sphase := p\<rparr> else s) (pn_live n) = pn_live n" for p
    using made_fresh [OF ok(1)] by (simp add: map_idI)
  have sub: "pn_refcount n (key_name key) = int (length (pn_subs n (key_name key)))" by (rule pgn_okD(4) [OF ok(1)])
  have l: "pn_subs n (key_name key) \<noteq> [] \<Longrightarrow> insert (key_name key) (pn_listening n) = pn_listening n" using ok(7) by auto
  show ?thesis
    using assms(2) sub ok(4) l
    by (auto simp: serial_Subscribe_def register_def Let_def send_listen_def exec_cmd_def set_phase_def keep
        split: if_splits option.splits)
qed

lemma serial_Subscribe_Inl:
  assumes "pg_serial_ok n" "serial_Subscribe err n key = (Inl e, n')"
  shows "n' = n\<lparr>pn_made := pn_made n + 1, pn_key := (pn_key n)(pn_made n := key), pn_closed := insert (pn_made n) (pn_closed n)\<rparr>"
proof -
  note ok = pg_serial_okD [OF assms(1)]
  have keep: "map (\<lambda>s. if schan s = pn_made n then s\<lparr>sphase := p\<rparr> else s) (pn_live n) = pn_live n" for p
    using made_fresh [OF ok(1)] by (simp add: map_idI)
  have f: "filter (\<lambda>s. schan s \<noteq> pn_made n) (pn_live n) = pn_live n" using made_fresh [OF ok(1)] by (simp add: filter_id_conv)
  have sub: "pn_refcount n (key_name key) = int (length (pn_subs n (key_name key)))" by (rule pgn_okD(4) [OF ok(1)])
  show ?thesis
    using assms(2) sub ok(4)
    by (auto simp: serial_Subscribe_def register_def Let_def send_listen_def exec_cmd_def set_phase_def keep f sub_end_def drop_ref_def
        removeSub_def fun_upd_idem split: if_splits option.splits)
qed

lemma pgn_ok_serial_Subscribe:
  assumes "pg_serial_ok n" "serial_Subscribe err n key = (r, n')"
  shows "pgn_ok n'"
proof -
  note ok = pg_serial_okD [OF assms(1)]
  have reg: "pgn_ok (register key (key_name key) n)" by (rule pgn_ok_register [OF ok(1)])
  let ?s = "\<lparr>sname = key_name key, schan = pn_made n, sphase = Failed\<rparr>"
  let ?n2 = "exec_cmd (err key) (send_listen (key_name key) (pn_made n) (register key (key_name key) n))"
  have n2: "pgn_ok ?n2" using reg by (simp add: pgn_ok_exec send_listen_def pgn_ok_phase)
  show ?thesis
  proof (cases "pn_refcount (register key (key_name key) n) (key_name key) = 1 \<and> err key \<noteq> None")
    case True
    then have "?s \<in> set (pn_live ?n2)"
      using ok(4) by (auto simp: exec_cmd_def send_listen_def set_phase_def register_def Let_def)
    from pgn_ok_sub_end [OF n2 this] True assms(2) show ?thesis by (auto simp: serial_Subscribe_def Let_def)
  next
    case False
    with assms(2) reg n2 show ?thesis by (auto simp: serial_Subscribe_def Let_def split: if_splits option.splits)
  qed
qed

lemma serial_Subscribe_ok:
  assumes "pg_serial_ok n" "serial_Subscribe err n key = (Inr ch, n')"
  shows "pg_serial_ok n'" "\<forall>k. ch \<notin> pg_listed n k" "pg_listed n' = (pg_listed n)(key := insert ch (pg_listed n key))"
    "pn_buffered n' = pn_buffered n"
proof -
  note ok = pg_serial_okD [OF assms(1)]
  note n' = serial_Subscribe_Inr [OF assms]
  note fresh = made_fresh [OF ok(1)]
  show "\<forall>k. ch \<notin> pg_listed n k" "pn_buffered n' = pn_buffered n" using n' fresh by (auto simp: pg_listed_def)
  show "pg_listed n' = (pg_listed n)(key := insert ch (pg_listed n key))"
    using n' fresh by (auto simp: pg_listed_def fun_eq_iff)
  show "pg_serial_ok n'"
    unfolding pg_serial_ok_def quiet_def
    using pgn_ok_serial_Subscribe [OF assms] n' fresh ok by auto
qed

lemma serial_Subscribe_err:
  assumes "pg_serial_ok n" "serial_Subscribe err n key = (Inl e, n')"
  shows "pg_serial_ok n'" "pg_listed n' = pg_listed n" "pn_buffered n' = pn_buffered n"
proof -
  note ok = pg_serial_okD [OF assms(1)]
  note n' = serial_Subscribe_Inl [OF assms]
  note fresh = made_fresh [OF ok(1)]
  show "pn_buffered n' = pn_buffered n" using n' by simp
  show "pg_listed n' = pg_listed n" using n' fresh by (auto simp: pg_listed_def fun_eq_iff)
  show "pg_serial_ok n'"
    unfolding pg_serial_ok_def quiet_def
    using pgn_ok_serial_Subscribe [OF assms] n' fresh ok by auto
qed

text \<open>A notification reaches every subscriber of its name.\<close>

lemma signal_all_ok:
  assumes "pn_loop n = chs" "set chs \<inter> pn_closed n = {}"
  shows "signal_all chs n = Ret (n\<lparr>pn_buffered := pn_buffered n \<union> set chs, pn_loop := []\<rparr>)"
  using assms
proof (induction chs arbitrary: n)
  case (Cons ch chs)
  from Cons.prems have "signal n = Ret (n\<lparr>pn_buffered := insert ch (pn_buffered n), pn_loop := chs\<rparr>)" by (simp add: signal_def)
  with Cons show ?case by simp
qed simp

lemma serial_Notify_ok:
  assumes "pg_serial_ok n"
  shows "serial_Notify n key = Ret (n\<lparr>pn_buffered := pn_buffered n \<union> set (pn_subs n (key_name key))\<rparr>)"
proof -
  note ok = pg_serial_okD [OF assms]
  have c: "set (pn_subs n (key_name key)) \<inter> pn_closed n = {}"
    using pgn_okD(3,5) [OF ok(1)] by auto
  show ?thesis
  proof (cases "key_name key \<in> pn_listening n")
    case True
    then have "receive_notification (pg_notify (key_name key) n) = n\<lparr>pn_loop := pn_subs n (key_name key)\<rparr>"
      using ok(5) by (simp add: pg_notify_def receive_notification_def)
    with signal_all_ok [of "n\<lparr>pn_loop := pn_subs n (key_name key)\<rparr>"] c ok(6) show ?thesis by (simp add: serial_Notify_def)
  next
    case False
    then have "receive_notification (pg_notify (key_name key) n) = n" "pn_subs n (key_name key) = []"
      using ok(5,7) by (auto simp: pg_notify_def receive_notification_def)
    with ok(6) show ?thesis by (simp add: serial_Notify_def)
  qed
qed

lemma listed_subs: "pg_serial_ok n \<Longrightarrow> c \<in> pg_listed n k \<Longrightarrow> c \<in> set (pn_subs n (key_name k))"
  using pgn_okD(3) [OF pg_serial_okD(1)] pg_serial_okD(8) by (auto simp: pg_listed_def)

lemma serial_Unsubscribe_eq:
  assumes "pg_serial_ok n" "c \<in> pg_listed n k"
  shows "serial_Unsubscribe n k c =
    (sub_end (key_name k) c n)\<lparr>pn_listening := {a \<in> pn_listening n. a = key_name k \<longrightarrow> pn_subs n a \<noteq> [c]}\<rparr>"
proof -
  note ok = pg_serial_okD [OF assms(1)]
  have c: "c \<in> set (pn_subs n (key_name k))" by (rule listed_subs [OF assms])
  have d: "distinct (pn_subs n (key_name k))" by (rule pgn_okD(2) [OF ok(1)])
  have "pn_subs n (key_name k) = [c] \<longleftrightarrow> pn_refcount n (key_name k) - 1 = 0"
    using c pgn_okD(4) [OF ok(1)] by (auto simp: length_Suc_conv)
  moreover have "pn_offers (sub_end (key_name k) c n) = []" "pn_cmds (sub_end (key_name k) c n) = []"
    "pn_listening (sub_end (key_name k) c n) = pn_listening n"
    using ok(3,4) by (simp_all add: sub_end_def drop_ref_def removeSub_def Let_def)
  ultimately show ?thesis
    by (auto simp: serial_Unsubscribe_def cancel_def Let_def offer_def exec_cmd_def cmdCh_capacity_def intro!: pgn.equality)
qed

lemma sub_end_view:
  assumes "pgn_ok n" "c \<in> set (pn_subs n name)"
  shows "pn_subs (sub_end name c n) = (pn_subs n)(name := remove1 c (pn_subs n name))" "pn_buffered (sub_end name c n) = pn_buffered n"
    "pn_live (sub_end name c n) = filter (\<lambda>s. schan s \<noteq> c) (pn_live n)" "pn_key (sub_end name c n) = pn_key n"
    "pn_offers (sub_end name c n) = pn_offers n" "pn_cmds (sub_end name c n) = pn_cmds n" "pn_wire (sub_end name c n) = pn_wire n"
    "pn_loop (sub_end name c n) = pn_loop n"
proof -
  have "pn_refcount n name = int (length (pn_subs n name))" by (rule pgn_okD(4) [OF assms(1)])
  then have "pn_refcount n name - 1 = 0 \<Longrightarrow> remove1 c (pn_subs n name) = []"
    using assms(2) by (auto simp: length_Suc_conv)
  then show "pn_subs (sub_end name c n) = (pn_subs n)(name := remove1 c (pn_subs n name))"
    by (auto simp: sub_end_def drop_ref_def removeSub_def Let_def fun_eq_iff)
qed (simp_all add: sub_end_def drop_ref_def removeSub_def Let_def)

lemma remove1_Nil_iff: "c \<in> set xs \<Longrightarrow> remove1 c xs = [] \<longleftrightarrow> xs = [c]"
  by (cases xs) auto

lemma serial_Unsubscribe_ok:
  assumes "pg_serial_ok n" "c \<in> pg_listed n k"
  shows "pg_serial_ok (serial_Unsubscribe n k c)" "pg_listed (serial_Unsubscribe n k c) = (pg_listed n)(k := pg_listed n k - {c})"
    "pn_buffered (serial_Unsubscribe n k c) = pn_buffered n"
proof -
  note ok = pg_serial_okD [OF assms(1)]
  have c: "c \<in> set (pn_subs n (key_name k))" by (rule listed_subs [OF assms])
  note v = sub_end_view [OF ok(1) c]
  note e = serial_Unsubscribe_eq [OF assms]
  from assms(2) obtain s where s: "s \<in> set (pn_live n)" "schan s = c" "pn_key n c = k" by (auto simp: pg_listed_def)
  then have sn: "sname s = key_name k" using ok(8) by auto
  show "pn_buffered (serial_Unsubscribe n k c) = pn_buffered n" by (simp add: e v)
  show "pg_listed (serial_Unsubscribe n k c) = (pg_listed n)(k := pg_listed n k - {c})"
    using s(3) by (auto simp: e v pg_listed_def fun_eq_iff)
  have "pgn_ok (sub_end (key_name k) c n)" using pgn_ok_sub_end [OF ok(1) s(1)] by (simp add: s sn)
  moreover have "a \<in> pn_listening (serial_Unsubscribe n k c) \<longleftrightarrow> pn_subs (serial_Unsubscribe n k c) a \<noteq> []" for a
    using ok(7) [of a] remove1_Nil_iff [OF c] c by (auto simp: e v)
  ultimately show "pg_serial_ok (serial_Unsubscribe n k c)"
    using ok unfolding pg_serial_ok_def quiet_def by (simp add: e v)
qed

interpretation pgn: notifier_contract "pg_ops err" pg_serial_ok pg_listed for err
proof unfold_locales
  fix n k assume n: "pg_serial_ok n"
  let ?n = "n\<lparr>pn_buffered := pn_buffered n \<union> set (pn_subs n (key_name k))\<rparr>"
  have "pg_serial_ok ?n" using n by (simp add: pg_serial_ok_def quiet_def)
  moreover have "pg_listed ?n = pg_listed n" by (simp add: pg_listed_def fun_eq_iff)
  ultimately show "\<exists>n'. Notify (pg_ops err) n k = Ret n' \<and> pg_serial_ok n' \<and> pg_listed n' = pg_listed n \<and>
      (\<forall>c. HasSignal (pg_ops err) n c \<or> c \<in> pg_listed n k \<longrightarrow> HasSignal (pg_ops err) n' c)"
    using serial_Notify_ok [OF n, of k] listed_subs [OF n] by (simp add: pg_ops_def)
next
  fix n c k assume n: "pg_serial_ok n"
  have "pg_serial_ok (n\<lparr>pn_buffered := pn_buffered n - {c}\<rparr>)" using n by (simp add: pg_serial_ok_def quiet_def)
  then show "pg_serial_ok (Receive (pg_ops err) n c) \<and> pg_listed (Receive (pg_ops err) n c) = pg_listed n \<and>
      (\<forall>d. HasSignal (pg_ops err) (Receive (pg_ops err) n c) d \<longleftrightarrow> d \<noteq> c \<and> HasSignal (pg_ops err) n d)"
    by (auto simp: pg_ops_def pg_listed_def fun_eq_iff)
next
  fix n k c n' assume n: "pg_serial_ok n" and "Subscribe (pg_ops err) n k = (Inr c, n')"
  then have "serial_Subscribe err n k = (Inr c, n')" by (simp add: pg_ops_def)
  from serial_Subscribe_ok [OF n this] show "pg_serial_ok n' \<and> (\<forall>k'. c \<notin> pg_listed n k') \<and>
      pg_listed n' = (pg_listed n)(k := insert c (pg_listed n k)) \<and> (\<forall>d. HasSignal (pg_ops err) n' d \<longleftrightarrow> HasSignal (pg_ops err) n d)"
    by (simp add: pg_ops_def)
next
  fix n k e n' assume n: "pg_serial_ok n" and "Subscribe (pg_ops err) n k = (Inl e, n')"
  then have "serial_Subscribe err n k = (Inl e, n')" by (simp add: pg_ops_def)
  from serial_Subscribe_err [OF n this] show "pg_serial_ok n' \<and> pg_listed n' = pg_listed n \<and>
      (\<forall>d. HasSignal (pg_ops err) n' d \<longleftrightarrow> HasSignal (pg_ops err) n d)"
    by (simp add: pg_ops_def)
next
  fix n c k assume "pg_serial_ok n" "c \<in> pg_listed n k"
  from serial_Unsubscribe_ok [OF this] show "pg_serial_ok (Unsubscribe (pg_ops err) n k c) \<and>
      pg_listed (Unsubscribe (pg_ops err) n k c) = (pg_listed n)(k := pg_listed n k - {c}) \<and>
      (\<forall>d. HasSignal (pg_ops err) (Unsubscribe (pg_ops err) n k c) d \<longleftrightarrow> HasSignal (pg_ops err) n d)"
    by (simp add: pg_ops_def)
qed

text \<open>Each of these calls is a run of the interleaved steps.\<close>

lemma channelName_key: "31 \<le> length key \<Longrightarrow> channelName key = Ret (key_name key)"
  by (simp add: channelName_def go_slice_def key_name_def)

lemma serial_Subscribe_run:
  assumes "pg_serial_ok n" "31 \<le> length key" "serial_Subscribe err n key = (r, n')"
  shows "pstep\<^sup>*\<^sup>* n n'"
proof -
  note ok = pg_serial_okD [OF assms(1)]
  let ?a = "key_name key"
  let ?n1 = "register key ?a n"
  let ?n2 = "send_listen ?a (pn_made n) ?n1"
  let ?n3 = "exec_cmd (err key) ?n2"
  have 1: "pstep n ?n1" by (rule p_subscribe [OF channelName_key [OF assms(2)]])
  show ?thesis
  proof (cases "pn_refcount ?n1 ?a = 1")
    case True
    have live: "\<lparr>sname = ?a, schan = pn_made n, sphase = Sending\<rparr> \<in> set (pn_live ?n1)" "pn_cmds ?n1 = []" "pn_loop ?n1 = []"
      using True ok(4,6) by (simp_all add: register_def Let_def)
    have 2: "pstep ?n1 ?n2" using p_send [OF live(1)] live(2) by (simp add: cmdCh_capacity_def)
    have 3: "pstep ?n2 ?n3" using live(3) by (intro p_exec) (simp add: send_listen_def set_phase_def)
    from 1 2 3 have run: "pstep\<^sup>*\<^sup>* n ?n3" by (meson converse_rtranclp_into_rtranclp r_into_rtranclp)
    show ?thesis
    proof (cases "err key")
      case None
      with assms(3) True run show ?thesis by (simp add: serial_Subscribe_def Let_def)
    next
      case (Some e)
      then have "\<lparr>sname = ?a, schan = pn_made n, sphase = Failed\<rparr> \<in> set (pn_live ?n3)"
        using live by (force simp: exec_cmd_def send_listen_def set_phase_def image_iff)
      from p_failed [OF this] run Some True assms(3) show ?thesis
        by (auto simp: serial_Subscribe_def Let_def intro: rtranclp.rtrancl_into_rtrancl)
    qed
  next
    case False
    with assms(3) 1 show ?thesis by (auto simp: serial_Subscribe_def Let_def)
  qed
qed

lemma signal_all_run: "signal_all chs n = Ret n' \<Longrightarrow> pstep\<^sup>*\<^sup>* n n'"
  by (induction chs n rule: signal_all.induct)
     (auto split: go.splits intro: converse_rtranclp_into_rtranclp p_signal)

lemma serial_Notify_run:
  assumes "pg_serial_ok n" "serial_Notify n key = Ret n'"
  shows "pstep\<^sup>*\<^sup>* n n'"
proof -
  let ?n1 = "pg_notify (key_name key) n"
  have "pn_loop ?n1 = []" using pg_serial_okD(6) [OF assms(1)] by (simp add: pg_notify_def)
  then have "pstep ?n1 (receive_notification ?n1)" by (rule p_receive)
  moreover have "pstep\<^sup>*\<^sup>* (receive_notification ?n1) n'" using assms(2) by (auto simp: serial_Notify_def Let_def intro: signal_all_run)
  ultimately show ?thesis using p_notify [of n "key_name key"] by (meson converse_rtranclp_into_rtranclp)
qed

lemma serial_Unsubscribe_run:
  assumes "pg_serial_ok n" "c \<in> pg_listed n k"
  shows "pstep\<^sup>*\<^sup>* n (serial_Unsubscribe n k c)"
proof -
  note ok = pg_serial_okD [OF assms(1)]
  from assms(2) obtain s where s: "s \<in> set (pn_live n)" "schan s = c" "pn_key n c = k" by (auto simp: pg_listed_def)
  let ?n1 = "cancel (key_name k) c n"
  have 1: "pstep n ?n1" using p_cancel [OF s(1) ok(2) [OF s(1)]] ok(8) [OF s(1)] s by simp
  show ?thesis
  proof (cases "key_name k \<in> set (pn_offers ?n1)")
    case True
    have l: "pn_loop (offer (key_name k) ?n1) = []"
      using ok(6) by (simp add: offer_def cancel_def Let_def sub_end_def drop_ref_def removeSub_def)
    from 1 p_offer [OF True] p_exec [OF l, of None] True show ?thesis
      by (simp add: serial_Unsubscribe_def Let_def)
  next
    case False
    with 1 show ?thesis by (auto simp: serial_Unsubscribe_def Let_def)
  qed
qed

section \<open>Properties\<close>

text \<open>
  C30 (registrations are consistent). However subscriptions, failed \<open>LISTEN\<close>s, teardowns and
  notifications interleave: the reference count of a name is the number of its channels, the
  channels listed under a name are those of its subscriptions in progress or open, each once, and
  none of them is closed.
\<close>

theorem pg_registrations_consistent:
  assumes "pstep\<^sup>*\<^sup>* pgn_New n"
  shows "pn_refcount n name = int (length (pn_subs n name)) \<and> distinct (pn_subs n name) \<and>
    set (pn_subs n name) = schan ` {s \<in> set (pn_live n). sname s = name} \<and> set (pn_subs n name) \<inter> pn_closed n = {}"
  using pgn_okD [OF pgn_ok_steps [OF assms pgn_ok_New]] by auto

text \<open>
  The first subscription of a key is established; it is cancelled, and a new one is established
  between the teardown's section under the lock and its \<open>UNLISTEN\<close>.
\<close>

definition race_key :: bytes where "race_key = replicate 32 7"
definition race_name :: string where "race_name = key_name race_key"

definition first_open :: pgn where
  "first_open = exec_cmd None (send_listen race_name 0 (register race_key race_name pgn_New))"

definition second_open :: pgn where
  "second_open = exec_cmd None (send_listen race_name 1 (register race_key race_name (cancel race_name 0 first_open)))"

definition deaf :: pgn where
  "deaf = exec_cmd None (offer race_name second_open)"

lemmas pgn_defs = register_def send_listen_def exec_cmd_def cancel_def sub_end_def drop_ref_def removeSub_def offer_def set_phase_def
  pgn_New_def Let_def cmdCh_capacity_def

lemma race_name: "channelName race_key = Ret race_name"
  by (simp add: race_name_def channelName_key race_key_def)

lemma first_open_run: "pstep\<^sup>*\<^sup>* pgn_New first_open"
proof -
  let ?n1 = "register race_key race_name pgn_New"
  let ?n2 = "send_listen race_name 0 ?n1"
  have "pstep pgn_New ?n1" by (rule p_subscribe [OF race_name])
  moreover have "pstep ?n1 ?n2" using p_send [of "\<lparr>sname = race_name, schan = 0, sphase = Sending\<rparr>" ?n1] by (simp add: pgn_defs)
  moreover have "pstep ?n2 first_open" unfolding first_open_def by (rule p_exec) (simp add: pgn_defs)
  ultimately show ?thesis by (meson converse_rtranclp_into_rtranclp r_into_rtranclp)
qed

lemma deaf_run: "pstep\<^sup>*\<^sup>* pgn_New deaf"
proof -
  let ?n3 = "cancel race_name 0 first_open"
  let ?n4 = "register race_key race_name ?n3"
  let ?n5 = "send_listen race_name 1 ?n4"
  have "pstep first_open ?n3"
    using p_cancel [of "\<lparr>sname = race_name, schan = 0, sphase = Open\<rparr>" first_open] by (simp add: first_open_def pgn_defs)
  moreover have "pstep ?n3 ?n4" by (rule p_subscribe [OF race_name])
  moreover have "pstep ?n4 ?n5"
    using p_send [of "\<lparr>sname = race_name, schan = 1, sphase = Sending\<rparr>" ?n4] by (simp add: first_open_def pgn_defs)
  moreover have "pstep ?n5 second_open" unfolding second_open_def by (rule p_exec) (simp add: first_open_def pgn_defs)
  moreover have "pstep second_open (offer race_name second_open)" by (rule p_offer) (simp add: second_open_def first_open_def pgn_defs)
  moreover have "pstep (offer race_name second_open) deaf"
    unfolding deaf_def by (rule p_exec) (simp add: second_open_def first_open_def pgn_defs)
  ultimately show ?thesis using first_open_run by (meson rtranclp.rtrancl_into_rtrancl)
qed


theorem pg_registrations_consistent_witness:
  "pstep\<^sup>*\<^sup>* pgn_New first_open \<and> pn_refcount first_open race_name = 1 \<and> set (pn_subs first_open race_name) = {0}"
proof -
  have "pn_subs first_open race_name = [0]" by (simp add: first_open_def pgn_defs)
  with pg_registrations_consistent [OF first_open_run, of race_name] first_open_run show ?thesis by simp
qed

end
