(* ===== verification/Postgres_Relay.thy ===== *)
theory Postgres_Relay
  imports Delivery Postgres_Cluster Postgres_Notifier
begin

text \<open>
  One node on the Postgres backend, which is both its store and its notifier (\<open>serve\<close> in
  \<open>cmd/trueseal-relay/main.go\<close>). The delivery contract is interpreted on the two Postgres models, so
  what was proved of the relay from the contracts alone holds here too, as long as the calls
  of the store and of the notifier do not overlap each other. \<open>Postgres_Cluster\<close> and
  \<open>Postgres_Notifier\<close> show what can go wrong when they do.
\<close>

interpretation pgrelay: delivery_contract postgres_store pg_invar pg_rows pg_seq "pg_ops err" pg_serial_ok pg_listed
  for err
  by unfold_locales

definition pg_relay_start :: "(bytes \<Rightarrow> go_err option) \<Rightarrow> pg_db \<Rightarrow> int \<Rightarrow> int \<Rightarrow> Limits \<Rightarrow> (pg_db, pgn) system" where
  "pg_relay_start err d ttl' maxEnvelopeBytes' limits =
     \<lparr>router = NewRouterWithLimits postgres_store d (pg_ops err) pgn_New ttl' maxEnvelopeBytes' limits, sessions = [], pushing = []\<rparr>"

lemma pg_reachable_ok:
  assumes "pg_invar d" "dstep\<^sup>*\<^sup>* (pg_relay_start err d ttl' m limits) y"
  shows "pgrelay.sys_ok err y"
proof -
  have "pgrelay.sys_ok err (pg_relay_start err d ttl' m limits)"
    using assms(1) by (intro pgrelay.sys_ok_I) (simp_all add: pg_relay_start_def NewRouterWithLimits_def pg_serial_ok_New)
  with assms(2) show ?thesis using pgrelay.sys_ok_reachable by blast
qed


text \<open>A device with one blob in its Inbox connects.\<close>

definition pg_sample :: pg_db where
  "pg_sample = \<lparr>pg_inbox = Some \<lparr>pt_rows = [race_row 1], pt_seq = 1\<rparr>\<rparr>"

lemma pg_connects:
  "\<exists>s r'. OnReceiveConnect (router (pg_relay_start (\<lambda>_. None) pg_sample 0 0 sample_limits)) sample_key = (Inr s, r') \<and>
     device s = sample_key \<and> store_state r' = pg_sample"
proof -
  let ?r = "router (pg_relay_start (\<lambda>_. None) pg_sample 0 0 sample_limits)"
  obtain c where c: "acquire (session_cap ?r) sample_key = (True, c)"
    by (auto simp: pg_relay_start_def NewRouterWithLimits_def sample_limits_def acquire_def newSessionCap_def count_of_def)
  have n: "notifier ?r = pg_ops (\<lambda>_. None)" "notifier_state ?r = pgn_New" "store_state ?r = pg_sample"
    by (simp_all add: pg_relay_start_def NewRouterWithLimits_def)
  obtain ch n' where "serial_Subscribe (\<lambda>_. None) pgn_New sample_key = (Inr ch, n')"
    by (fastforce simp: serial_Subscribe_def Let_def)
  with c n show ?thesis by (simp add: OnReceiveConnect_def pg_ops_def)
qed


end
