(* ===== verification/Command.thy ===== *)
theory Command
  imports Server Keypair Receive_Session Go_Flag Hostile_Control Sqlite_Version Postgres_Relay
begin

text \<open>
  The program of \<open>cmd/trueseal-relay/main.go\<close>: the subcommands with their flags, and \<open>serve\<close>, which
  loads the configuration, resolves the key, opens the store and wires router, reaper and
  server; with \<open>hostile_enabled.go\<close> and \<open>hostile_disabled.go\<close>, the two halves that the build
  chooses between. A \<open>log.Fatalf\<close> is a value here. What a process finds on its machine (the
  environment, failures of the file system and the drivers, the random source) is a record.
\<close>

section \<open>The Relay Address\<close>

datatype cmd_error = HostRequired | InvalidHost string | NoPort string | NoFixedPort string

definition validateHost :: "string \<Rightarrow> cmd_error option" where
  "validateHost host = (if \<exists>c \<in> set host. c \<in> set '':@?'' then Some (InvalidHost host) else None)"

definition listenPort :: "string \<Rightarrow> cmd_error + string" where
  "listenPort addr =
     (case SplitHostPort addr of
        None \<Rightarrow> Inl (NoPort addr)
      | Some (_, port) \<Rightarrow> if port = [] \<or> port = ''0'' then Inl (NoFixedPort addr) else Inr port)"

definition address_line :: "bytes \<Rightarrow> string \<Rightarrow> string \<Rightarrow> string \<Rightarrow> string" where
  "address_line pub host receivePort pushPort =
     ''trueseal://'' @ EncodeToString pub @ ''@'' @ host @ '':'' @ receivePort @ ''?push='' @ pushPort @ [newline]"

text \<open>The grammar's reading of an address: the text up to each separator in turn.\<close>

definition upto :: "char \<Rightarrow> string \<Rightarrow> string \<times> string" where
  "upto c s = (takeWhile (\<lambda>x. x \<noteq> c) s, drop 1 (dropWhile (\<lambda>x. x \<noteq> c) s))"

definition read_address :: "string \<Rightarrow> string \<times> string \<times> string \<times> string" where
  "read_address s =
     (let (key, r1) = upto (CHR ''@'') (drop 11 s); (host, r2) = upto (CHR '':'') r1;
          (receivePort, r3) = upto (CHR ''?'') r2
      in (key, host, receivePort, takeWhile (\<lambda>x. x \<noteq> newline) (drop 5 r3)))"

lemma upto_append: "c \<notin> set s \<Longrightarrow> upto c (s @ c # t) = (s, t)"
proof -
  assume "c \<notin> set s"
  then have "\<forall>x \<in> set s. x \<noteq> c" by blast
  then show ?thesis by (simp add: upto_def takeWhile_append2 dropWhile_append2)
qed

lemma at_notin_hex: "CHR ''@'' \<notin> set (EncodeToString bs)"
proof -
  have "hex_digit d \<noteq> CHR ''@''" if "unat d < 16" for d
  proof
    assume "hex_digit d = CHR ''@''"
    with fromHexChar_hex_digit [OF that] have "fromHexChar (CHR ''@'') \<noteq> None" by simp
    then show False by (simp add: fromHexChar_def Let_def)
  qed
  from this [OF high_nibble] this [OF low_nibble] show ?thesis by (induction bs) (auto dest: sym)
qed

text \<open>
  A printed address reads back into its parts when the host passed its check and the ports hold
  no separator: with the check on the host alone, a listen address such as \<open>:70?x\<close> would not.
\<close>

lemma address_reads_back:
  assumes "validateHost host = None" "CHR ''?'' \<notin> set receivePort" "newline \<notin> set pushPort"
  shows "read_address (address_line pub host receivePort pushPort) = (EncodeToString pub, host, receivePort, pushPort)"
proof -
  from assms(1) have h: "CHR '':'' \<notin> set host" by (auto simp: validateHost_def split: if_splits)
  have "takeWhile (\<lambda>x. x \<noteq> newline) (pushPort @ [newline]) = pushPort"
    using assms(3) by (subst takeWhile_append2) auto
  then show ?thesis
    by (simp add: read_address_def address_line_def upto_append [OF at_notin_hex] upto_append [OF h] upto_append [OF assms(2)])
qed

section \<open>Wiring\<close>

text \<open>\<open>Load\<close> lets only finite rates through; \<open>float64(int)\<close> rounds.\<close>

fun rate_value :: "float64 \<Rightarrow> rat" where
  "rate_value (Fin r) = r"
| "rate_value _ = 0"

definition serve_router :: "RelayConfig \<Rightarrow> 'st InboxStore \<Rightarrow> 'st \<Rightarrow> 'n NotifierOps \<Rightarrow> 'n \<Rightarrow> ('st, 'n) Router" where
  "serve_router cfg inbox' st ops nt =
     NewRouterWithLimits inbox' st ops nt (cfg_TTL cfg) (cfg_MaxEnvelopeBytes cfg)
       \<lparr>MaxBlobsPerInbox = cfg_MaxBlobsPerInbox cfg, MaxBytesPerInbox = cfg_MaxBytesPerInbox cfg,
        PushRatePerSecond = rate_value (cfg_PushRatePerSecond cfg), PushRateBurst = fl64 (of_int (cfg_PushRateBurst cfg)),
        MaxReceiveSessionsPerDevice = cfg_MaxReceiveSessionsPerDevice cfg\<rparr>"

text \<open>The reaper and the server of a relay that starts.\<close>

definition serve_reaper :: "RelayConfig \<Rightarrow> 'st InboxStore \<Rightarrow> 'st Reaper" where
  "serve_reaper cfg inbox' = NewReaper inbox' (cfg_ReapInterval cfg)"

section \<open>A process and its machine\<close>

datatype build = Release | Hostile

record host =
  toml :: decoder
  environment :: environ
  x25519 :: "bytes \<Rightarrow> go_err + bytes"
  random_key :: "go_err + bytes"
  key_faults :: fs_faults
  reload_faults :: fs_faults
  other_processes :: "fs \<Rightarrow> fs"
  temp_name :: string
  temp_part :: string
  sqlite_faults :: open_faults
  reset_declared :: string
  pg_faults :: "pg_open_step \<Rightarrow> go_err option"
  pg_listen_err :: "bytes \<Rightarrow> go_err option"
  slice_growth :: "nat \<Rightarrow> nat"
  push_listen :: "go_err option"
  receive_listen :: "go_err option"
  control_listen :: "go_err option"
  lookup_ip :: "string \<Rightarrow> go_err + bytes list"

record disk =
  keys :: fs
  dbs :: "string \<Rightarrow> db option"
  pgdb :: pg_db

datatype fatal =
    UnexpectedArgument string
  | ConfigErr config_error
  | KeypairErr go_err
  | AddressErr cmd_error
  | GenkeyErr go_err
  | GenkeyLoadErr go_err
  | SqliteErr open_error
  | PostgresErr go_err
  | UnsupportedStore string
  | HostileErr listen_error
  | ListenErr go_err

text \<open>The lifecycle lines of \<open>serve\<close>.\<close>

datatype life_line =
    DevWarning | KeyGenerated string | PublicKey string | StoreWasReset | StoreVersionIs int
  | HostileInert | HostileActive string | Up_on string string string

datatype wired = OnSqlite "(db, notifier) Router" "db Reaper" | OnPostgres "(pg_db, pgn) Router" "pg_db Reaper"

record running_relay =
  up_cfg :: Config
  up_key :: KeyPair
  up_wired :: wired
  up_wrapper :: "Engine option"
  up_server :: server
  up_lines :: "life_line list"

datatype process = Usage | Printed string | FlagExit flag_error | Fatal fatal | Up running_relay

fun exit_code :: "process \<Rightarrow> nat option" where
  "exit_code (FlagExit e) = Some (flag_exit e)"
| "exit_code (Fatal e) = Some 1"
| "exit_code (Up r) = None"
| "exit_code _ = Some 0"

section \<open>Flags\<close>

definition config_flags :: flags where
  "config_flags = [''config'' \<mapsto> StrV ''relay.toml'', ''no-config'' \<mapsto> BoolV False]"

text \<open>\<open>fs.Parse\<close> under \<open>ExitOnError\<close>, and the check for arguments left over.\<close>

definition parse_args :: "flags \<Rightarrow> string list \<Rightarrow> process + flags" where
  "parse_args fs args =
     (case parseFlags fs args of
        Inl e \<Rightarrow> Inl (FlagExit e)
      | Inr (fs, []) \<Rightarrow> Inr fs
      | Inr (fs, a # _) \<Rightarrow> Inl (Fatal (UnexpectedArgument a)))"

definition config_path :: "flags \<Rightarrow> string" where
  "config_path fs = (if bool_flag fs ''no-config'' then [] else string_flag fs ''config'')"

definition configFlags :: "string list \<Rightarrow> process + string" where
  "configFlags args = attempt (parse_args config_flags args) (\<lambda>fs. Inr (config_path fs))"

section \<open>The subcommands\<close>

definition resolve_key :: "host \<Rightarrow> string \<Rightarrow> disk \<Rightarrow> (go_err + KeyPair \<times> bool) \<times> disk" where
  "resolve_key h path d =
     (case Resolve (environment h ''TRUESEAL_RELAY_KEYPAIR_HEX'') (x25519 h) (key_faults h) (reload_faults h) (other_processes h)
             (random_key h) (temp_name h) (temp_part h) path (keys d) of
        (r, fs) \<Rightarrow> (r, d\<lparr>keys := fs\<rparr>))"

definition runPubkey :: "host \<Rightarrow> string list \<Rightarrow> disk \<Rightarrow> process \<times> disk" where
  "runPubkey h args d =
     (case configFlags args of Inl p \<Rightarrow> (p, d) | Inr path \<Rightarrow>
     (case Load (toml h) (environment h) path of Inl e \<Rightarrow> (Fatal (ConfigErr e), d) | Inr cfg \<Rightarrow>
     (case resolve_key h (KeypairPath (Relay cfg)) d of
        (Inl e, d) \<Rightarrow> (Fatal (KeypairErr e), d)
      | (Inr (kp, _), d) \<Rightarrow> (Printed (EncodeToString (Public kp) @ [newline]), d))))"

definition runAddress :: "host \<Rightarrow> string list \<Rightarrow> disk \<Rightarrow> process \<times> disk" where
  "runAddress h args d =
     (case parse_args (config_flags(''host'' \<mapsto> StrV [])) args of Inl p \<Rightarrow> (p, d) | Inr fs \<Rightarrow>
      let host' = string_flag fs ''host'' in
      if host' = [] then (Fatal (AddressErr HostRequired), d)
      else (case validateHost host' of Some e \<Rightarrow> (Fatal (AddressErr e), d) | None \<Rightarrow>
     (case Load (toml h) (environment h) (config_path fs) of Inl e \<Rightarrow> (Fatal (ConfigErr e), d) | Inr cfg \<Rightarrow>
     (case resolve_key h (KeypairPath (Relay cfg)) d of
        (Inl e, d) \<Rightarrow> (Fatal (KeypairErr e), d)
      | (Inr (kp, _), d) \<Rightarrow>
     (case listenPort (ListenReceive (Relay cfg)) of Inl e \<Rightarrow> (Fatal (AddressErr e), d) | Inr receivePort \<Rightarrow>
     (case listenPort (ListenPush (Relay cfg)) of Inl e \<Rightarrow> (Fatal (AddressErr e), d) | Inr pushPort \<Rightarrow>
        (Printed (address_line (Public kp) host' receivePort pushPort), d)))))))"

definition runGenkey :: "host \<Rightarrow> string list \<Rightarrow> disk \<Rightarrow> process \<times> disk" where
  "runGenkey h args d =
     (case parse_args [''keyout'' \<mapsto> StrV ''keypair.hex''] args of Inl p \<Rightarrow> (p, d) | Inr fs \<Rightarrow>
      let keyOut = string_flag fs ''keyout'' in
     (case Generate (key_faults h) (other_processes h) (random_key h) (temp_name h) (temp_part h) keyOut (keys d) of
        (Some e, _, ks) \<Rightarrow> (Fatal (GenkeyErr e), d\<lparr>keys := ks\<rparr>)
      | (None, _, ks) \<Rightarrow>
          (case LoadKey (x25519 h) (reload_faults h) ks keyOut of
             Inl e \<Rightarrow> (Fatal (GenkeyLoadErr e), d\<lparr>keys := ks\<rparr>)
           | Inr kp \<Rightarrow>
               (Printed (''keypair written to '' @ keyOut @ [newline] @
                  ''relay public key (share with clients): '' @ EncodeToString (Public kp) @ [newline]), d\<lparr>keys := ks\<rparr>))))"

section \<open>Serve\<close>

text \<open>The two halves of the hostile hook. In a release build there is no flag and no engine.\<close>

definition registerHostileFlag_disabled :: "flags \<Rightarrow> flags" where
  "registerHostileFlag_disabled fs = fs"

definition registerHostileFlag_enabled :: "flags \<Rightarrow> flags" where
  "registerHostileFlag_enabled fs = fs(''hostile-control'' \<mapsto> StrV [])"

definition maybeStartHostile_disabled :: "host \<Rightarrow> string \<Rightarrow> fatal + Engine option \<times> life_line list" where
  "maybeStartHostile_disabled h flagVal = Inr (None, [])"

definition maybeStartHostile_enabled :: "host \<Rightarrow> string \<Rightarrow> fatal + Engine option \<times> life_line list" where
  "maybeStartHostile_enabled h flagVal =
     (let env = environment h ''TRUESEAL_RELAY_HOSTILE_CONTROL''; addr = (if env \<noteq> [] then env else flagVal);
          wrapper = SetDeliveryWrapper (Some NewEngine) None in
      if addr = [] then Inr (wrapper, [HostileInert])
      else (case ListenControl (lookup_ip h) (control_listen h) addr of
          Some err \<Rightarrow> Inl (HostileErr err)
        | None \<Rightarrow> Inr (wrapper, [HostileActive addr])))"

text \<open>The build tag chooses.\<close>

fun registerHostileFlag :: "build \<Rightarrow> flags \<Rightarrow> flags" where
  "registerHostileFlag Release = registerHostileFlag_disabled"
| "registerHostileFlag Hostile = registerHostileFlag_enabled"

fun maybeStartHostile :: "build \<Rightarrow> host \<Rightarrow> string \<Rightarrow> fatal + Engine option \<times> life_line list" where
  "maybeStartHostile Release = maybeStartHostile_disabled"
| "maybeStartHostile Hostile = maybeStartHostile_enabled"

lemmas hostile_halves [simp] = registerHostileFlag_disabled_def registerHostileFlag_enabled_def maybeStartHostile_disabled_def
  maybeStartHostile_enabled_def

text \<open>The store of the configured type, with the router and the reaper on it.\<close>

definition open_store :: "host \<Rightarrow> Config \<Rightarrow> bool \<Rightarrow> disk \<Rightarrow> (fatal + wired \<times> life_line list) \<times> disk" where
  "open_store h cfg reset d =
     (if StoreType (StoreCfg cfg) = ''sqlite'' then
        (let path = SQLitePath (StoreCfg cfg) in
         case NewWithOptions (sqlite_faults h) path (dbs d path)
                \<lparr>ResetRequested = reset, ResetDeclared = StoreResetDeclared (reset_declared h)\<rparr> of
           (Inl e, fl) \<Rightarrow> (Inl (SqliteErr e), d\<lparr>dbs := (dbs d)(path := fl)\<rparr>)
         | (Inr s, fl) \<Rightarrow>
             (Inr (OnSqlite (serve_router (Relay cfg) sqlite_store (store_db s) (inprocess_ops (slice_growth h)) inprocess_New)
                     (serve_reaper (Relay cfg) sqlite_store),
                   (if WasReset s then [StoreWasReset] else []) @ [StoreVersionIs (StoreVersion s)]),
              d\<lparr>dbs := (dbs d)(path := fl)\<rparr>))
      else if StoreType (StoreCfg cfg) = ''postgres'' then
        (case pg_New (pg_faults h) (pgdb d) of
           (Some e, p) \<Rightarrow> (Inl (PostgresErr e), d\<lparr>pgdb := p\<rparr>)
         | (None, p) \<Rightarrow>
             (Inr (OnPostgres (serve_router (Relay cfg) postgres_store p (pg_ops (pg_listen_err h)) pgn_New)
                     (serve_reaper (Relay cfg) postgres_store), []), d\<lparr>pgdb := p\<rparr>))
      else (Inl (UnsupportedStore (StoreType (StoreCfg cfg))), d))"

definition serve_flags :: "build \<Rightarrow> flags" where
  "serve_flags b = registerHostileFlag b (config_flags(''reset-store'' \<mapsto> BoolV False, ''dev'' \<mapsto> BoolV False))"

text \<open>\<open>-dev\<close> switches dev mode on, never off.\<close>

definition dev_config :: "flags \<Rightarrow> Config \<Rightarrow> Config" where
  "dev_config fs cfg = (if bool_flag fs ''dev'' then cfg\<lparr>Relay := (Relay cfg)\<lparr>Dev := True\<rparr>\<rparr> else cfg)"

definition serve :: "build \<Rightarrow> host \<Rightarrow> string list \<Rightarrow> disk \<Rightarrow> process \<times> disk" where
  "serve b h args d =
     (case parse_args (serve_flags b) args of Inl p \<Rightarrow> (p, d) | Inr fs \<Rightarrow>
     (case Load (toml h) (environment h) (config_path fs) of Inl e \<Rightarrow> (Fatal (ConfigErr e), d) | Inr cfg \<Rightarrow>
      let cfg = dev_config fs cfg; devLines = (if Dev (Relay cfg) then [DevWarning] else []) in
     (case resolve_key h (KeypairPath (Relay cfg)) d of
        (Inl e, d) \<Rightarrow> (Fatal (KeypairErr e), d)
      | (Inr (kp, generated), d) \<Rightarrow>
      let keyLines = (if generated then [KeyGenerated (KeypairPath (Relay cfg))] else []) @ [PublicKey (EncodeToString (Public kp))] in
     (case open_store h cfg (bool_flag fs ''reset-store'') d of
        (Inl e, d) \<Rightarrow> (Fatal e, d)
      | (Inr (wired, storeLines), d) \<Rightarrow>
     (case maybeStartHostile b h (string_flag fs ''hostile-control'') of Inl e \<Rightarrow> (Fatal e, d) | Inr (wrapper, hostileLines) \<Rightarrow>
     (case start (push_listen h) (receive_listen h) (newServer (Relay cfg)) of
        (Some e, _) \<Rightarrow> (Fatal (ListenErr e), d)
      | (None, srv) \<Rightarrow>
          (Up \<lparr>up_cfg = cfg, up_key = kp, up_wired = wired, up_wrapper = wrapper, up_server = srv,
               up_lines = devLines @ keyLines @ storeLines @ hostileLines @
                 [Up_on (ListenPush (Relay cfg)) (ListenReceive (Relay cfg)) (ListenHealth (Relay cfg))]\<rparr>, d)))))))"

text \<open>\<open>args\<close> is \<open>os.Args[1:]\<close>.\<close>

definition main :: "build \<Rightarrow> host \<Rightarrow> string list \<Rightarrow> disk \<Rightarrow> process \<times> disk" where
  "main b h args d =
     (case args of
        [] \<Rightarrow> serve b h args d
      | a # rest \<Rightarrow>
          if a = ''pubkey'' then runPubkey h rest d
          else if a = ''address'' then runAddress h rest d
          else if a = ''genkey'' then runGenkey h rest d
          else if a = ''help'' \<or> a = ''-h'' \<or> a = ''--help'' then (Usage, d)
          else serve b h args d)"

section \<open>The stored rows across commands\<close>

definition stored :: "db option \<Rightarrow> inbox_row list" where
  "stored fl = (case fl of None \<Rightarrow> [] | Some d \<Rightarrow> db_rows d)"

lemma stored_contents: "contents fl' = contents fl \<Longrightarrow> stored fl' = stored fl"
  by (auto simp: stored_def contents_def db_rows_def split: option.splits)

lemma rows_simps [simp]:
  "db_rows (d\<lparr>wal := w\<rparr>) = db_rows d" "db_rows (d\<lparr>user_version := v\<rparr>) = db_rows d" "db_rows (schema d) = db_rows d"
  "db_rows empty_db = []"
  by (simp_all add: db_rows_def schema_def empty_db_def fresh_inbox_def split: option.split)

lemma openers_keep_rows:
  "createFresh f path fl target = (r, fl') \<Longrightarrow> stored fl' = stored fl"
  "adoptUnversioned f path fl target = (r, fl') \<Longrightarrow> stored fl' = stored fl"
  "openCurrent f path fl target = (r, fl') \<Longrightarrow> stored fl' = stored fl"
  by (cases r; auto simp: stored_def split: option.splits dest: opener_err [THEN conjunct1, THEN stored_contents]
      openCurrent_err [THEN conjunct1, THEN stored_contents] dest!: opener_ok openCurrent_ok)+

lemma no_migration:
  assumes "migrateForward f path fl v 1 [] opts = (r, fl')" "v \<noteq> 1" "\<not> v > 1"
  shows "fl' = fl"
proof -
  obtain n where "nat (1 - v) = Suc n" using assms(2,3) by (cases "nat (1 - v)") auto
  with assms(1) show ?thesis by (simp add: migrateForward_def)
qed

lemma open_keeps_rows:
  assumes "NewWithOptions f path fl opts = (r, fl')" "\<not> (ResetRequested opts \<and> ResetDeclared opts)"
  shows "stored fl' = stored fl"
  using assms
  by (auto simp: NewWithOptions_def openStore_def migrations_def CurrentStoreVersion_def split: if_splits sum.splits
      dest: openers_keep_rows no_migration)

lemma pg_New_rows: "pg_New f p = (r, p') \<Longrightarrow> pg_rows p' = pg_rows p"
  by (auto simp: pg_New_def pg_rows_def pg_schema_def split: option.splits)

text \<open>Where a command may write.\<close>

lemma resolve_key_disk: "resolve_key h path d = (r, d') \<Longrightarrow> dbs d' = dbs d \<and> pgdb d' = pgdb d"
  by (auto simp: resolve_key_def split: prod.splits)

lemma subcommands_disk:
  "runPubkey h args d = (p, d') \<Longrightarrow> dbs d' = dbs d \<and> pgdb d' = pgdb d"
  "runAddress h args d = (p, d') \<Longrightarrow> dbs d' = dbs d \<and> pgdb d' = pgdb d"
  "runGenkey h args d = (p, d') \<Longrightarrow> dbs d' = dbs d \<and> pgdb d' = pgdb d"
  by (auto simp: runPubkey_def runAddress_def runGenkey_def Let_def split: sum.splits prod.splits option.splits if_splits
      dest: resolve_key_disk)

lemma open_store_rows:
  assumes "open_store h cfg reset d = (r, d')" "\<not> (reset \<and> reset_declared h = ''true'')"
  shows "stored (dbs d' q) = stored (dbs d q) \<and> pg_rows (pgdb d') = pg_rows (pgdb d) \<and> keys d' = keys d"
  using assms
  by (auto simp: open_store_def Let_def StoreResetDeclared_def split: if_splits prod.splits sum.splits option.splits
      dest: open_keeps_rows pg_New_rows)

lemma open_store_keys: "open_store h cfg reset d = (r, d') \<Longrightarrow> keys d' = keys d"
  by (auto simp: open_store_def Let_def split: if_splits prod.splits sum.splits option.splits)

lemma parse_args_flags:
  assumes "parse_args fs args = Inr fs'" "fs' n \<noteq> fs n"
  shows "\<exists>a \<in> set args. flag_name a = Some n"
  using assms parseFlags_changed [of fs args fs' "[]" n]
  by (auto simp: parse_args_def split: sum.splits prod.splits list.splits)

lemma serve_reset_flag:
  assumes "parse_args (serve_flags b) args = Inr fs" "bool_flag fs ''reset-store''"
  shows "\<exists>a \<in> set args. flag_name a = Some ''reset-store''"
proof -
  have "serve_flags b ''reset-store'' = Some (BoolV False)" by (cases b) (simp_all add: serve_flags_def)
  with assms show ?thesis by (intro parse_args_flags) (auto simp: bool_flag_def)
qed

text \<open>How far \<open>serve\<close> came: it stopped before or after it opened the store, or it is up.\<close>

lemma serve_cases:
  assumes "serve b h args d = (p, d')"
  obtains (flags) "parse_args (serve_flags b) args = Inl p" "d' = d"
  | (config) fs e where "parse_args (serve_flags b) args = Inr fs" "Load (toml h) (environment h) (config_path fs) = Inl e"
      "p = Fatal (ConfigErr e)" "d' = d"
  | (key) fs cfg e where "parse_args (serve_flags b) args = Inr fs" "Load (toml h) (environment h) (config_path fs) = Inr cfg"
      "resolve_key h (KeypairPath (Relay cfg)) d = (Inl e, d')" "p = Fatal (KeypairErr e)"
  | (store) fs cfg kp generated d1 r where "parse_args (serve_flags b) args = Inr fs"
      "Load (toml h) (environment h) (config_path fs) = Inr cfg"
      "resolve_key h (KeypairPath (Relay cfg)) d = (Inr (kp, generated), d1)"
      "open_store h (dev_config fs cfg) (bool_flag fs ''reset-store'') d1 = (r, d')"
      "\<And>u. p = Up u \<Longrightarrow> \<exists>wired lines hlines. r = Inr (wired, lines) \<and> up_key u = kp \<and> up_cfg u = dev_config fs cfg \<and>
         up_wired u = wired \<and> maybeStartHostile b h (string_flag fs ''hostile-control'') = Inr (up_wrapper u, hlines)"
proof -
  have dc: "KeypairPath (Relay (dev_config fs cfg)) = KeypairPath (Relay cfg)" for fs cfg by (simp add: dev_config_def)
  note s = assms [unfolded serve_def]
  show thesis
  proof (cases "parse_args (serve_flags b) args")
    case (Inl q)
    with s show ?thesis by (intro flags) simp_all
  next
    case fs: (Inr fs)
    show ?thesis
    proof (cases "Load (toml h) (environment h) (config_path fs)")
      case (Inl e)
      with s fs show ?thesis by (intro config) auto
    next
      case cfg: (Inr cfg)
      obtain kr d1 where k: "resolve_key h (KeypairPath (Relay cfg)) d = (kr, d1)" by (cases "resolve_key h (KeypairPath (Relay cfg)) d")
      show ?thesis
      proof (cases kr)
        case (Inl e)
        with s fs cfg k dc show ?thesis by (intro key) (auto simp: Let_def)
      next
        case (Inr kg)
        obtain kp g where kg: "kg = (kp, g)" by (cases kg)
        obtain r d2 where o: "open_store h (dev_config fs cfg) (bool_flag fs ''reset-store'') d1 = (r, d2)"
          by (cases "open_store h (dev_config fs cfg) (bool_flag fs ''reset-store'') d1")
        from s fs cfg k Inr kg o dc have "d' = d2 \<and> (\<forall>u. p = Up u \<longrightarrow> (\<exists>wired lines hlines. r = Inr (wired, lines) \<and> up_key u = kp \<and>
            up_cfg u = dev_config fs cfg \<and> up_wired u = wired \<and>
            maybeStartHostile b h (string_flag fs ''hostile-control'') = Inr (up_wrapper u, hlines)))"
          by (auto simp: Let_def split: sum.splits prod.splits option.splits)
        with fs cfg k Inr kg o show ?thesis by (intro store) auto
      qed
    qed
  qed
qed

text \<open>
  C14 (only a declared reset drops rows). Whatever the command line, whatever fails on the way:
  after a run of the program every SQLite file and the Postgres database hold the rows they held
  before it, unless this is a release that declares a store reset and an argument names
  \<open>-reset-store\<close>.
\<close>

theorem rows_survive_commands:
  assumes "main b h args d = (p, d')"
    and "\<not> (reset_declared h = ''true'' \<and> (\<exists>a \<in> set args. flag_name a = Some ''reset-store''))"
  shows "stored (dbs d' q) = stored (dbs d q) \<and> pg_rows (pgdb d') = pg_rows (pgdb d)"
proof -
  have "stored (dbs d' q) = stored (dbs d q) \<and> pg_rows (pgdb d') = pg_rows (pgdb d)" if "serve b h args d = (p, d')"
    using that
  proof (cases rule: serve_cases)
    case (key fs cfg e)
    then show ?thesis using resolve_key_disk by metis
  next
    case (store fs cfg kp generated d1 r)
    with assms(2) serve_reset_flag have "\<not> (bool_flag fs ''reset-store'' \<and> reset_declared h = ''true'')" by blast
    from open_store_rows [OF store(4) this] resolve_key_disk [OF store(3)] show ?thesis by simp
  qed auto
  with assms(1) show ?thesis
    by (auto simp: main_def split: list.splits if_splits dest: subcommands_disk)
qed

text \<open>A machine where nothing fails, and a store with one row; the relay starts there.\<close>

definition sample_host :: host where
  "sample_host = \<lparr>toml = no_toml, environment = sample_environ, x25519 = Inr, random_key = Inr sample_priv,
     key_faults = (\<lambda>_. None), reload_faults = (\<lambda>_. None), other_processes = id, temp_name = ''k.hex.tmp'', temp_part = [],
     sqlite_faults = no_open_faults, reset_declared = [], pg_faults = (\<lambda>_. None), pg_listen_err = (\<lambda>_. None),
     slice_growth = (\<lambda>n. 2 * n), push_listen = None, receive_listen = None, control_listen = None,
     lookup_ip = (\<lambda>_. Inr [])\<rparr>"

definition one_row_db :: db where
  "one_row_db = \<lparr>user_version = 1, wal = True, inbox = Some (fresh_inbox\<lparr>trows := [race_row 1], seq := 1\<rparr>)\<rparr>"

definition sample_disk :: disk where
  "sample_disk = \<lparr>keys = Map.empty, dbs = (\<lambda>_. None)(''r.db'' := Some one_row_db), pgdb = \<lparr>pg_inbox = None\<rparr>\<rparr>"

lemma sample_paths:
  obtains cfg where "Load no_toml sample_environ ''relay.toml'' = Inr cfg" "KeypairPath (Relay cfg) = ''k.hex''"
    "StoreType (StoreCfg cfg) = ''sqlite''" "SQLitePath (StoreCfg cfg) = ''r.db''"
proof -
  have "case Load no_toml sample_environ ''relay.toml'' of Inl e \<Rightarrow> False
      | Inr cfg \<Rightarrow> KeypairPath (Relay cfg) = ''k.hex'' \<and> StoreType (StoreCfg cfg) = ''sqlite'' \<and> SQLitePath (StoreCfg cfg) = ''r.db''"
    by code_simp
  then show thesis using that by (auto split: sum.splits)
qed

lemma one_row_opens: "\<exists>s fl. NewWithOptions no_open_faults ''r.db'' (Some one_row_db) \<lparr>ResetRequested = False, ResetDeclared = x\<rparr> = (Inr s, fl)"
  by (simp add: NewWithOptions_def openStore_def probe_def probe_db_def inboxSchemaMatches_def no_open_faults_def one_row_db_def
      fresh_inbox_def inbox_columns_def openCurrent_def openRW_def apply_schema_def CurrentStoreVersion_def Let_def)

lemma sample_serves:
  "\<exists>u d'. main Release sample_host [] sample_disk = (Up u, d') \<and> up_key u = \<lparr>Private = sample_priv, Public = sample_priv\<rparr> \<and>
     KeypairPath (Relay (up_cfg u)) = ''k.hex''"
proof -
  obtain cfg where c: "Load no_toml sample_environ ''relay.toml'' = Inr cfg" "KeypairPath (Relay cfg) = ''k.hex''"
    "StoreType (StoreCfg cfg) = ''sqlite''" "SQLitePath (StoreCfg cfg) = ''r.db''" by (rule sample_paths)
  have f: "parse_args (serve_flags Release) [] = Inr (serve_flags Release)" "config_path (serve_flags Release) = ''relay.toml''"
    "dev_config (serve_flags Release) cfg = cfg" "\<not> bool_flag (serve_flags Release) ''reset-store''"
    by (simp_all add: parse_args_def config_path_def serve_flags_def config_flags_def bool_flag_def string_flag_def dev_config_def)
  have e: "sample_environ ''TRUESEAL_RELAY_KEYPAIR_HEX'' = []" by (simp add: sample_environ_def)
  have k: "\<exists>d1. resolve_key sample_host ''k.hex'' sample_disk = (Inr (\<lparr>Private = sample_priv, Public = sample_priv\<rparr>, True), d1) \<and> dbs d1 = dbs sample_disk"
    using first_start [of Map.empty "''k.hex''" sample_priv Inr sample_priv "''k.hex.tmp''" "[]"]
    by (simp add: resolve_key_def sample_host_def sample_disk_def e) (simp add: sample_priv_def)
  then obtain d1 where d1: "resolve_key sample_host ''k.hex'' sample_disk = (Inr (\<lparr>Private = sample_priv, Public = sample_priv\<rparr>, True), d1)"
      "dbs d1 ''r.db'' = Some one_row_db" by (auto simp: sample_disk_def)
  have o: "\<exists>w ls d2. open_store sample_host cfg False d1 = (Inr (w, ls), d2)"
    using one_row_opens [of "StoreResetDeclared []"] by (auto simp: open_store_def c d1 sample_host_def Let_def)
  obtain srv where st: "start None None (newServer (Relay cfg)) = (None, srv)" by (simp add: start_def Let_def)
  have h: "toml sample_host = no_toml" "environment sample_host = sample_environ" "push_listen sample_host = None" "receive_listen sample_host = None"
    by (simp_all add: sample_host_def)
  from o st show ?thesis by (auto simp: main_def serve_def f c d1 h Let_def)
qed

theorem rows_survive_commands_witness:
  "\<exists>u d'. main Release sample_host [] sample_disk = (Up u, d') \<and> stored (dbs d' ''r.db'') = [race_row 1]"
proof -
  obtain u d' where m: "main Release sample_host [] sample_disk = (Up u, d')" using sample_serves by blast
  from rows_survive_commands [OF m, of "''r.db''"] m show ?thesis
    by (simp add: sample_disk_def stored_def one_row_db_def db_rows_def)
qed

section \<open>The relay's key across commands\<close>

lemma LoadKey_reads: "fs path = Some c \<Longrightarrow> ParseHex x c = Inr kp \<Longrightarrow> f ReadKey = None \<Longrightarrow> LoadKey x f fs path = Inr kp"
  by (simp add: LoadKey_def ReadFile_def)

text \<open>A later process on the same configuration, which can read the key file.\<close>

definition same_setup :: "host \<Rightarrow> host \<Rightarrow> bool" where
  "same_setup h h' \<longleftrightarrow> toml h' = toml h \<and> environment h' = environment h \<and> x25519 h' = x25519 h \<and> key_faults h' ReadKey = None"

definition well_behaved :: "host \<Rightarrow> string \<Rightarrow> bool" where
  "well_behaved h path \<longleftrightarrow> temp_name h \<noteq> path \<and> (\<forall>g. kept_or_installed (g path) (other_processes h g path))"

lemma resolve_key_again:
  assumes "resolve_key h path d = (Inr (kp, generated), d1)" "same_setup h h'" "keys d2 = keys d1"
  shows "resolve_key h' path d2 = (Inr (kp, False), d2)"
proof (cases "environment h ''TRUESEAL_RELAY_KEYPAIR_HEX'' = []")
  case True
  with assms(1) obtain fs where r: "LoadOrGenerate (x25519 h) (key_faults h) (reload_faults h) (other_processes h) (random_key h)
      (temp_name h) (temp_part h) path (keys d) = (Inr (kp, generated), fs)" "keys d1 = fs"
    by (auto simp: resolve_key_def Resolve_def split: prod.splits)
  then obtain c where "keys d2 path = Some c" "ParseHex (x25519 h) c = Inr kp"
    using LoadOrGenerate_Inr [OF r(1)] LoadKey_Inr assms(3) by metis
  with assms(2) True LoadKey_reads show ?thesis
    by (simp add: resolve_key_def Resolve_def LoadOrGenerate_def same_setup_def)
qed (use assms in \<open>auto simp: resolve_key_def Resolve_def same_setup_def split: sum.splits prod.splits\<close>)

lemma resolve_key_keeps:
  assumes "resolve_key h path d = (Inr (kp, generated), d1)" "well_behaved h path" "keys d path = Some c"
  shows "keys d1 path = Some c"
proof -
  from assms(2) have w: "temp_name h \<noteq> path" "\<And>g. kept_or_installed (g path) (other_processes h g path)"
    by (simp_all add: well_behaved_def)
  show ?thesis
  proof (cases "environment h ''TRUESEAL_RELAY_KEYPAIR_HEX'' = []")
    case True
    with assms(1) have r: "LoadOrGenerate (x25519 h) (key_faults h) (reload_faults h) (other_processes h) (random_key h)
        (temp_name h) (temp_part h) path (keys d) = (Inr (kp, generated), keys d1)"
      by (auto simp: resolve_key_def Resolve_def split: prod.splits)
    have "fs' path = Some c" if "Generate f (other_processes h) g (temp_name h) part path (keys d) = (err, trace, fs')" for f g part err trace fs'
      using Generate_existing [of "keys d", OF assms(3) that] w by blast
    with LoadOrGenerate_Inr [OF r] assms(3) show ?thesis by metis
  qed (use assms in \<open>auto simp: resolve_key_def Resolve_def split: sum.splits prod.splits\<close>)
qed

lemma genkey_refuses:
  assumes "parse_args [''keyout'' \<mapsto> StrV ''keypair.hex''] args = Inr fs" "keys d (string_flag fs ''keyout'') = Some c"
    "well_behaved h (string_flag fs ''keyout'')"
  shows "\<exists>e d'. runGenkey h args d = (Fatal (GenkeyErr e), d') \<and> keys d' (string_flag fs ''keyout'') = Some c"
proof -
  let ?p = "string_flag fs ''keyout''"
  obtain err trace ks where g: "Generate (key_faults h) (other_processes h) (random_key h) (temp_name h) (temp_part h) ?p (keys d) = (err, trace, ks)"
    by (cases "Generate (key_faults h) (other_processes h) (random_key h) (temp_name h) (temp_part h) ?p (keys d)")
  from Generate_existing [OF assms(2) g] assms(3) obtain e where "err = Some e" "ks ?p = Some c"
    by (auto simp: well_behaved_def)
  with assms(1) g show ?thesis by (simp add: runGenkey_def Let_def)
qed

text \<open>What the relay that is up has resolved.\<close>

lemma up_key_resolved:
  assumes "main b h args d = (Up u, d')" "parse_args (serve_flags b) args = Inr fs" "path = KeypairPath (Relay (up_cfg u))"
  obtains cfg generated d1 where "Load (toml h) (environment h) (config_path fs) = Inr cfg"
    "resolve_key h path d = (Inr (up_key u, generated), d1)" "keys d' = keys d1" "KeypairPath (Relay cfg) = path"
proof -
  have "serve b h args d = (Up u, d')"
    using assms(1)
    by (auto simp: main_def runPubkey_def runAddress_def runGenkey_def Let_def parse_args_def configFlags_def attempt_def
        split: list.splits if_splits sum.splits prod.splits option.splits)
  then show thesis
  proof (cases rule: serve_cases)
    case (store fs' cfg kp generated d1 r)
    then have "fs' = fs" using assms(2) by simp
    from store(5) [OF refl] have "up_key u = kp" "up_cfg u = dev_config fs' cfg" by auto
    with store \<open>fs' = fs\<close> assms(3) open_store_keys [OF store(4)] show ?thesis
      by (intro that [of cfg generated d1]) (simp_all add: dev_config_def split: if_splits)
  qed (auto simp: assms(2))
qed

lemma address_carries_key:
  assumes "parse_args (config_flags(''host'' \<mapsto> StrV [])) args = Inr fs" "Load (toml h) (environment h) (config_path fs) = Inr cfg"
    "resolve_key h (KeypairPath (Relay cfg)) d = (Inr (kp, g), d)" "main b h (''address'' # args) d = (Printed out, d')"
  shows "d' = d \<and> (\<exists>host ports. out = ''trueseal://'' @ EncodeToString (Public kp) @ ''@'' @ host @ '':'' @ ports)"
proof -
  from assms have "\<exists>host p1 p2. out = address_line (Public kp) host p1 p2 \<and> d' = d"
    by (auto simp: main_def runAddress_def Let_def split: if_splits option.splits sum.splits)
  then show ?thesis by (auto simp: address_line_def)
qed

text \<open>
  C3 (one key for all commands). Let the relay be up, and another command run later on the same
  configuration. A key file that existed when the relay started is untouched. \<open>pubkey\<close> prints the
  public key of the pair the relay serves with, and \<open>address\<close>, if it prints an address, one that
  starts with that key. \<open>genkey\<close> onto an existing key file fails and leaves it as it is.
\<close>

theorem one_relay_key:
  assumes "main b h args d = (Up u, d')" and "path = KeypairPath (Relay (up_cfg u))" and "well_behaved h path"
    and "parse_args (serve_flags b) args = Inr fs" and "same_setup h h'"
  shows "(\<forall>c. keys d path = Some c \<longrightarrow> keys d' path = Some c) \<and>
    (\<forall>args'. configFlags args' = Inr (config_path fs) \<longrightarrow>
       main b h' (''pubkey'' # args') d' = (Printed (EncodeToString (Public (up_key u)) @ [newline]), d')) \<and>
    (\<forall>args' fs' out d''. parse_args (config_flags(''host'' \<mapsto> StrV [])) args' = Inr fs' \<longrightarrow> config_path fs' = config_path fs \<longrightarrow>
       main b h' (''address'' # args') d' = (Printed out, d'') \<longrightarrow>
       d'' = d' \<and> (\<exists>host ports. out = ''trueseal://'' @ EncodeToString (Public (up_key u)) @ ''@'' @ host @ '':'' @ ports)) \<and>
    (\<forall>args' fs' c. parse_args [''keyout'' \<mapsto> StrV ''keypair.hex''] args' = Inr fs' \<longrightarrow> string_flag fs' ''keyout'' = path \<longrightarrow>
       keys d' path = Some c \<longrightarrow>
       (\<exists>e d''. main b h (''genkey'' # args') d' = (Fatal (GenkeyErr e), d'') \<and> keys d'' path = Some c))"
proof -
  obtain cfg generated d1 where s: "Load (toml h) (environment h) (config_path fs) = Inr cfg"
      "resolve_key h path d = (Inr (up_key u, generated), d1)" "keys d' = keys d1" "KeypairPath (Relay cfg) = path"
    by (rule up_key_resolved [OF assms(1,4,2)])
  note again = resolve_key_again [OF s(2) assms(5) s(3)]
  have load: "Load (toml h') (environment h') (config_path fs) = Inr cfg" using s(1) assms(5) by (simp add: same_setup_def)
  show ?thesis
  proof (intro conjI allI impI)
    fix c assume "keys d path = Some c"
    with resolve_key_keeps [OF s(2) assms(3)] s(3) show "keys d' path = Some c" by simp
  next
    fix args' assume "configFlags args' = Inr (config_path fs)"
    with again load s(4) show "main b h' (''pubkey'' # args') d' = (Printed (EncodeToString (Public (up_key u)) @ [newline]), d')"
      by (simp add: main_def runPubkey_def)
  next
    fix args' fs' out d''
    assume "parse_args (config_flags(''host'' \<mapsto> StrV [])) args' = Inr fs'" "config_path fs' = config_path fs"
      "main b h' (''address'' # args') d' = (Printed out, d'')"
    with address_carries_key [of args' fs' h' cfg d' "up_key u" False b out d''] again load s(4)
    show "d'' = d'" "\<exists>host ports. out = ''trueseal://'' @ EncodeToString (Public (up_key u)) @ ''@'' @ host @ '':'' @ ports"
      by simp_all
  next
    fix args' fs' c
    assume "parse_args [''keyout'' \<mapsto> StrV ''keypair.hex''] args' = Inr fs'" "string_flag fs' ''keyout'' = path" "keys d' path = Some c"
    with genkey_refuses [of args' fs' d' c h] assms(3)
    show "\<exists>e d''. main b h (''genkey'' # args') d' = (Fatal (GenkeyErr e), d'') \<and> keys d'' path = Some c"
      by (simp add: main_def)
  qed
qed

theorem one_relay_key_witness:
  "\<exists>u d'. main Release sample_host [] sample_disk = (Up u, d') \<and>
     main Release sample_host [''pubkey''] d' = (Printed (EncodeToString sample_priv @ [newline]), d')"
proof -
  obtain u d' where m: "main Release sample_host [] sample_disk = (Up u, d')"
      "up_key u = \<lparr>Private = sample_priv, Public = sample_priv\<rparr>" "KeypairPath (Relay (up_cfg u)) = ''k.hex''"
    using sample_serves by blast
  have w: "well_behaved sample_host ''k.hex''" "same_setup sample_host sample_host"
    by (simp_all add: well_behaved_def same_setup_def sample_host_def)
  have f: "parse_args (serve_flags Release) [] = Inr (serve_flags Release)" "configFlags [] = Inr (config_path (serve_flags Release))"
    by (simp_all add: parse_args_def configFlags_def attempt_def config_path_def serve_flags_def config_flags_def
        bool_flag_def string_flag_def)
  from one_relay_key [OF m(1) m(3) [symmetric] w(1) f(1) w(2), THEN conjunct2, THEN conjunct1, rule_format, OF f(2)] m
  show ?thesis by auto
qed

section \<open>Builds\<close>

text \<open>
  A release build has no hostile surface: no process of it carries an engine, and the flag of the
  hostile build is refused like any undefined flag.
\<close>

lemma release_has_no_engine:
  assumes "serve Release h args d = (Up u, d')"
  shows "up_wrapper u = None"
  using assms
proof (cases rule: serve_cases)
  case (store fs cfg kp generated d1 r)
  from store(5) [OF refl] show ?thesis by auto
qed (auto simp: parse_args_def split: sum.splits prod.splits list.splits)

lemma hostile_flag_refused:
  "main Release h (''-hostile-control'' # args) d = (FlagExit (NotDefined ''hostile-control''), d)"
proof -
  have "serve_flags Release ''hostile-control'' = None" by (simp add: serve_flags_def config_flags_def)
  then have "parse_args (serve_flags Release) (''-hostile-control'' # args) = Inl (FlagExit (NotDefined ''hostile-control''))"
    by (simp add: parse_args_def flag_text_def split_eq_def)
  then show ?thesis by (simp add: main_def serve_def)
qed

text \<open>A hostile build opens its control port only on a host whose addresses are all loopback ones.\<close>

lemma hostile_control_is_local:
  assumes "maybeStartHostile b h flagVal = Inr (w, ls)" "HostileActive addr \<in> set ls"
  shows "b = Hostile \<and> w = Some NewEngine \<and> (\<exists>host port ips. SplitHostPort addr = Some (host, port) \<and> lookup_ip h host = Inr ips \<and>
     (\<forall>ip \<in> set ips. IsLoopback ip))"
  using assms
  by (cases b) (auto simp: Let_def SetDeliveryWrapper_def split: if_splits option.splits dest!: ListenControl_loopback)

text \<open>The default case of the store switch is dead code: \<open>Load\<close> lets no other type through.\<close>

lemma store_type_supported:
  assumes "Load dec env path = Inr cfg"
  shows "fst (open_store h (dev_config fs cfg) reset d) \<noteq> Inl (UnsupportedStore s)"
proof -
  from Load_sound [OF assms] have "StoreType (StoreCfg cfg) = ''sqlite'' \<or> StoreType (StoreCfg cfg) = ''postgres''"
    by (auto simp: settings_present_def)
  then show ?thesis by (auto simp: open_store_def dev_config_def Let_def split: prod.splits sum.splits option.splits)
qed

end
