(* ===== verification/Session_Deadlines.thy ===== *)
theory Session_Deadlines
  imports Server
begin

text \<open>
  The liveness deadlines of \<open>internal/session/deadlines.go\<close> and the code that arms them
  (\<open>push.go\<close>, \<open>receive.go\<close>, \<open>writer.go\<close>), on a clock. A session is the sequence of its blocking
  calls on the connection. When the peer lets the \<open>i\<close>-th of them finish is up to the peer:
  \<open>Ready t\<close>, \<open>Broken t\<close> (the call fails then) or never. A call that has not finished before its
  deadline times out at the deadline, at once when that has passed.
\<close>

record Deadlines =
  Handshake :: int
  PushSession :: int
  ReceiveIdle :: int
  WriteTimeout :: int

text \<open>What \<open>newServer\<close> passes to the sessions.\<close>

definition session_deadlines :: "server \<Rightarrow> Deadlines" where
  "session_deadlines s =
     (case deadlines s of (h, p, i, w) \<Rightarrow> \<lparr>Handshake = h, PushSession = p, ReceiveIdle = i, WriteTimeout = w\<rparr>)"

section \<open>Calls that block\<close>

datatype peer_act = Ready int | Broken int | Silent

datatype io_result = Done | Failed | TimedOut | Stuck

record tconn =
  clock :: int
  ncalls :: nat
  read_deadline :: "int option"
  write_deadline :: "int option"

definition new_tconn :: "int \<Rightarrow> tconn" where
  "new_tconn t0 = \<lparr>clock = t0, ncalls = 0, read_deadline = None, write_deadline = None\<rparr>"

definition SetDeadline :: "int option \<Rightarrow> tconn \<Rightarrow> tconn" where
  "SetDeadline t c = c\<lparr>read_deadline := t, write_deadline := t\<rparr>"

definition SetReadDeadline :: "int option \<Rightarrow> tconn \<Rightarrow> tconn" where
  "SetReadDeadline t c = c\<lparr>read_deadline := t\<rparr>"

definition SetWriteDeadline :: "int option \<Rightarrow> tconn \<Rightarrow> tconn" where
  "SetWriteDeadline t c = c\<lparr>write_deadline := t\<rparr>"

definition expires :: "int option \<Rightarrow> int \<Rightarrow> bool" where
  "expires deadline t \<longleftrightarrow> (case deadline of None \<Rightarrow> False | Some d \<Rightarrow> d \<le> t)"

fun block :: "int option \<Rightarrow> peer_act \<Rightarrow> int \<Rightarrow> io_result \<times> int" where
  "block deadline (Ready t) t0 = (if expires deadline (max t0 t) then (TimedOut, max t0 (the deadline)) else (Done, max t0 t))"
| "block deadline (Broken t) t0 = (if expires deadline (max t0 t) then (TimedOut, max t0 (the deadline)) else (Failed, max t0 t))"
| "block deadline Silent t0 = (case deadline of None \<Rightarrow> (Stuck, t0) | Some d \<Rightarrow> (TimedOut, max t0 d))"

definition tread :: "(nat \<Rightarrow> peer_act) \<Rightarrow> tconn \<Rightarrow> io_result \<times> tconn" where
  "tread peer c = (case block (read_deadline c) (peer (ncalls c)) (clock c) of (r, t) \<Rightarrow> (r, c\<lparr>clock := t, ncalls := ncalls c + 1\<rparr>))"

definition twrite :: "(nat \<Rightarrow> peer_act) \<Rightarrow> tconn \<Rightarrow> io_result \<times> tconn" where
  "twrite peer c = (case block (write_deadline c) (peer (ncalls c)) (clock c) of (r, t) \<Rightarrow> (r, c\<lparr>clock := t, ncalls := ncalls c + 1\<rparr>))"

text \<open>Calls one after the other, until one does not succeed.\<close>

definition and_then :: "io_result \<times> tconn \<Rightarrow> (tconn \<Rightarrow> io_result \<times> tconn) \<Rightarrow> io_result \<times> tconn" where
  "and_then x k = (case x of (Done, c) \<Rightarrow> k c | (r, c) \<Rightarrow> (r, c))"

definition tread_msg :: "(nat \<Rightarrow> peer_act) \<Rightarrow> tconn \<Rightarrow> io_result \<times> tconn" where
  "tread_msg peer c = and_then (tread peer c) (tread peer)"

section \<open>The sessions\<close>

text \<open>\<open>after d t0\<close> is \<open>t0.Add(d)\<close>, armed only for a deadline that is switched on.\<close>

definition after :: "int \<Rightarrow> int \<Rightarrow> int option" where
  "after d t0 = Some (t0 + d)"

definition arm_handshake :: "Deadlines \<Rightarrow> int \<Rightarrow> tconn" where
  "arm_handshake d t0 =
     (if Handshake d > 0 then SetDeadline (after (Handshake d) t0) (new_tconn t0) else new_tconn t0)"

text \<open>Push: prefix, its answer, the initiator's message, the response; then the session deadline.\<close>

definition push_start :: "Deadlines \<Rightarrow> (nat \<Rightarrow> peer_act) \<Rightarrow> int \<Rightarrow> io_result \<times> tconn" where
  "push_start d peer t0 =
     and_then (tread peer (arm_handshake d t0)) (\<lambda>c. and_then (twrite peer c) (\<lambda>c.
     and_then (tread_msg peer c) (\<lambda>c. and_then (twrite peer c) (\<lambda>c.
       (Done, if PushSession d > 0 then SetDeadline (after (PushSession d) t0) c
              else if Handshake d > 0 then SetDeadline None c else c)))))"

text \<open>
  One frame: read it, handle it, answer. An \<open>Ack\<close> that cannot be written ends the session, a
  refusal is sent on a best effort.
\<close>

definition push_round :: "(nat \<Rightarrow> peer_act) \<Rightarrow> int \<Rightarrow> bool \<Rightarrow> tconn \<Rightarrow> io_result \<times> tconn" where
  "push_round peer work acked c =
     and_then (tread_msg peer c) (\<lambda>c.
       case twrite peer (c\<lparr>clock := clock c + work\<rparr>) of
         (r, c) \<Rightarrow> if acked \<or> r = Stuck then (r, c) else (Done, c))"

primrec push_rounds ::
    "Deadlines \<Rightarrow> (nat \<Rightarrow> peer_act) \<Rightarrow> (nat \<Rightarrow> int) \<Rightarrow> (nat \<Rightarrow> bool) \<Rightarrow> int \<Rightarrow> nat \<Rightarrow> io_result \<times> tconn" where
  "push_rounds d peer work acked t0 0 = push_start d peer t0"
| "push_rounds d peer work acked t0 (Suc n) =
     and_then (push_rounds d peer work acked t0 n) (push_round peer (work n) (acked n))"

text \<open>Receive: prefix, answer and the three flights; the deadline is taken off before registration.\<close>

definition recv_start :: "Deadlines \<Rightarrow> (nat \<Rightarrow> peer_act) \<Rightarrow> int \<Rightarrow> int \<Rightarrow> io_result \<times> tconn" where
  "recv_start d peer registration t0 =
     and_then (tread peer (arm_handshake d t0)) (\<lambda>c. and_then (twrite peer c) (\<lambda>c.
     and_then (tread_msg peer c) (\<lambda>c. and_then (twrite peer c) (\<lambda>c. and_then (tread_msg peer c) (\<lambda>c.
       let c = (if Handshake d > 0 then SetDeadline None c else c) in (Done, c\<lparr>clock := clock c + registration\<rparr>))))))"

definition recv_round :: "Deadlines \<Rightarrow> (nat \<Rightarrow> peer_act) \<Rightarrow> int \<Rightarrow> tconn \<Rightarrow> io_result \<times> tconn" where
  "recv_round d peer work c =
     (let c = (if ReceiveIdle d > 0 then SetReadDeadline (after (ReceiveIdle d) (clock c)) c else c)
      in and_then (tread_msg peer c) (\<lambda>c. (Done, c\<lparr>clock := clock c + work\<rparr>)))"

primrec recv_rounds ::
    "Deadlines \<Rightarrow> (nat \<Rightarrow> peer_act) \<Rightarrow> (nat \<Rightarrow> int) \<Rightarrow> int \<Rightarrow> int \<Rightarrow> nat \<Rightarrow> io_result \<times> tconn" where
  "recv_rounds d peer work registration t0 0 = recv_start d peer registration t0"
| "recv_rounds d peer work registration t0 (Suc n) =
     and_then (recv_rounds d peer work registration t0 n) (recv_round d peer (work n))"

text \<open>One frame of the writer goroutine, which has a clock and calls of its own.\<close>

definition writer_round :: "Deadlines \<Rightarrow> (nat \<Rightarrow> peer_act) \<Rightarrow> tconn \<Rightarrow> io_result \<times> tconn" where
  "writer_round d peer c =
     twrite peer (if WriteTimeout d > 0 then SetWriteDeadline (after (WriteTimeout d) (clock c)) c else c)"

section \<open>Facts about blocking calls\<close>

lemma block_deadline:
  assumes "block (Some D) a t0 = (r, t)"
  shows "r \<noteq> Stuck \<and> t0 \<le> t \<and> t \<le> max t0 D \<and> (r = Done \<longrightarrow> t < D \<and> a \<noteq> Silent) \<and> (r = TimedOut \<longrightarrow> t = max t0 D)"
  using assms by (cases a) (auto simp: expires_def split: if_splits)

lemma and_then_assoc: "and_then (and_then x f) g = and_then x (\<lambda>c. and_then (f c) g)"
  by (cases x; cases "fst x = Done") (auto simp: and_then_def split: io_result.splits prod.splits)

text \<open>What a read of a message, header and body, leaves behind under a read deadline.\<close>

definition read_by :: "(nat \<Rightarrow> peer_act) \<Rightarrow> int \<Rightarrow> tconn \<Rightarrow> io_result \<times> tconn \<Rightarrow> bool" where
  "read_by peer D c x \<longleftrightarrow> (case x of (r, c') \<Rightarrow>
     r \<noteq> Stuck \<and> clock c \<le> clock c' \<and> clock c' \<le> max (clock c) D \<and> ncalls c < ncalls c' \<and>
     read_deadline c' = read_deadline c \<and> write_deadline c' = write_deadline c \<and>
     (r = Done \<longrightarrow> clock c' < D \<and> peer (ncalls c) \<noteq> Silent) \<and> (r = TimedOut \<longrightarrow> clock c' = max (clock c) D))"

lemma tread_by: "read_deadline c = Some D \<Longrightarrow> read_by peer D c (tread peer c)"
  using block_deadline [of D "peer (ncalls c)" "clock c"] by (auto simp: tread_def read_by_def split: prod.splits)

lemma twrite_by: "write_deadline c = Some D \<Longrightarrow> read_by peer D c (twrite peer c)"
  using block_deadline [of D "peer (ncalls c)" "clock c"] by (auto simp: twrite_def read_by_def split: prod.splits)

lemma and_then_simps [simp]:
  "and_then (Done, c) k = k c" "r \<noteq> Done \<Longrightarrow> and_then (r, c) k = (r, c)"
  by (auto simp: and_then_def split: io_result.splits)

lemma and_then_Done: "and_then x k = (Done, c') \<longleftrightarrow> (\<exists>c. x = (Done, c) \<and> k c = (Done, c'))"
  by (auto simp: and_then_def split: prod.splits io_result.splits)

lemma tread_msg_by:
  assumes "read_deadline c = Some D"
  shows "read_by peer D c (tread_msg peer c)"
proof -
  obtain r1 c1 where t: "tread peer c = (r1, c1)" by (cases "tread peer c")
  from tread_by [OF assms, of peer] have b: "read_by peer D c (r1, c1)" by (simp add: t)
  show ?thesis
  proof (cases "r1 = Done")
    case True
    from b have "read_deadline c1 = Some D" by (simp add: read_by_def assms)
    from tread_by [OF this, of peer] b True show ?thesis
      by (auto simp: tread_msg_def t read_by_def split: prod.splits)
  qed (use b in \<open>simp add: tread_msg_def t\<close>)
qed

text \<open>A connection with both deadlines at \<open>D\<close>, at a time within \<open>B\<close>, stays so through its calls.\<close>

definition armed :: "int \<Rightarrow> int \<Rightarrow> tconn \<Rightarrow> bool" where
  "armed D B c \<longleftrightarrow> read_deadline c = Some D \<and> write_deadline c = Some D \<and> clock c \<le> B"

definition timely :: "int \<Rightarrow> (tconn \<Rightarrow> bool) \<Rightarrow> io_result \<times> tconn \<Rightarrow> bool" where
  "timely B P x \<longleftrightarrow> (case x of (r, c) \<Rightarrow> r \<noteq> Stuck \<and> clock c \<le> B \<and> (r = Done \<longrightarrow> P c))"

lemma timely_and_then: "timely B P x \<Longrightarrow> (\<And>c. P c \<Longrightarrow> timely B Q (k c)) \<Longrightarrow> timely B Q (and_then x k)"
  by (cases x; cases "fst x = Done") (auto simp: timely_def)

lemma timely_mono: "timely B P x \<Longrightarrow> (\<And>c. P c \<Longrightarrow> Q c) \<Longrightarrow> timely B Q x"
  by (auto simp: timely_def)

lemma armed_call:
  assumes "armed D B c" "D \<le> B" "read_by peer D c x"
  shows "timely B (\<lambda>c'. armed D B c' \<and> clock c' < D) x"
  using assms by (auto simp: timely_def armed_def read_by_def)

lemma armed_calls:
  assumes "armed D B c" "D \<le> B"
  shows "timely B (armed D B) (tread peer c)" "timely B (armed D B) (twrite peer c)" "timely B (armed D B) (tread_msg peer c)"
    "timely B (\<lambda>c'. armed D B c' \<and> clock c' < D) (tread_msg peer c)"
    "timely B (\<lambda>c'. armed D B c' \<and> clock c' < D) (twrite peer c)"
proof -
  from assms(1) have "read_deadline c = Some D" "write_deadline c = Some D" by (simp_all add: armed_def)
  note * = armed_call [OF assms tread_by [OF this(1)]] armed_call [OF assms twrite_by [OF this(2)]]
    armed_call [OF assms tread_msg_by [OF this(1)]]
  from * show "timely B (\<lambda>c'. armed D B c' \<and> clock c' < D) (tread_msg peer c)"
    "timely B (\<lambda>c'. armed D B c' \<and> clock c' < D) (twrite peer c)" by blast+
  from * show "timely B (armed D B) (tread peer c)" "timely B (armed D B) (twrite peer c)" "timely B (armed D B) (tread_msg peer c)"
    by (blast intro: timely_mono)+
qed

lemma armed_handshake: "0 < Handshake d \<Longrightarrow> t0 + Handshake d \<le> B \<Longrightarrow> armed (t0 + Handshake d) B (arm_handshake d t0)"
  by (simp add: armed_def arm_handshake_def SetDeadline_def after_def new_tconn_def)

section \<open>The sessions end\<close>

lemma push_start_timely:
  assumes "0 < Handshake d" "0 < PushSession d" "t0 + Handshake d \<le> B"
  shows "timely B (armed (t0 + PushSession d) B) (push_start d peer t0)"
  unfolding push_start_def
  by (rule timely_and_then [OF armed_calls(1) [OF armed_handshake [OF assms(1,3)] assms(3)]],
      rule timely_and_then [OF armed_calls(2) [OF _ assms(3)]], assumption,
      rule timely_and_then [OF armed_calls(3) [OF _ assms(3)]], assumption,
      rule timely_and_then [OF armed_calls(2) [OF _ assms(3)]], assumption)
    (simp add: assms timely_def armed_def SetDeadline_def after_def)

lemma push_round_timely:
  assumes "armed D B c" "D + work \<le> B" "0 \<le> work"
  shows "timely B (armed D B) (push_round peer work acked c)"
proof -
  have D: "D \<le> B" using assms(2,3) by simp
  have "timely B (armed D B) (case twrite peer (c'\<lparr>clock := clock c' + work\<rparr>) of (r, c) \<Rightarrow> if acked \<or> r = Stuck then (r, c) else (Done, c))"
    if "armed D B c' \<and> clock c' < D" for c'
  proof -
    let ?c = "c'\<lparr>clock := clock c' + work\<rparr>"
    from that assms have a: "armed D B ?c" by (simp add: armed_def)
    then have "write_deadline ?c = Some D" by (simp add: armed_def)
    from twrite_by [OF this, of peer] a D show ?thesis
      by (auto simp: timely_def armed_def read_by_def split: prod.splits)
  qed
  with armed_calls(4) [OF assms(1) D] show ?thesis
    unfolding push_round_def by (rule timely_and_then)
qed

lemma push_rounds_timely:
  assumes "0 < Handshake d" "0 < PushSession d" "\<forall>i. 0 \<le> work i \<and> work i \<le> W" "B = t0 + max (Handshake d) (PushSession d + W)"
  shows "timely B (armed (t0 + PushSession d) B) (push_rounds d peer work acked t0 n)"
proof (induction n)
  case 0
  then show ?case using push_start_timely [OF assms(1,2), of t0 B] assms(4) by simp
next
  case (Suc n)
  have "t0 + PushSession d + work n \<le> B" using spec [OF assms(3), of n] assms(4) by (simp add: max_def)
  with Suc push_round_timely assms(3) show ?case by (auto intro: timely_and_then)
qed

text \<open>A receive round, from the moment the idle deadline is armed.\<close>

lemma recv_start_timely:
  assumes "0 < Handshake d" "0 \<le> registration" "recv_start d peer registration t0 = (r, c)"
  shows "r \<noteq> Stuck \<and> clock c \<le> t0 + Handshake d + registration"
proof -
  let ?B = "t0 + Handshake d"
  have "timely ?B (armed ?B ?B) (and_then (tread peer (arm_handshake d t0)) (\<lambda>c. and_then (twrite peer c) (\<lambda>c.
     and_then (tread_msg peer c) (\<lambda>c. and_then (twrite peer c) (tread_msg peer)))))"
    by (rule timely_and_then [OF armed_calls(1) [OF armed_handshake [OF assms(1) order_refl] order_refl]],
        rule timely_and_then [OF armed_calls(2) [OF _ order_refl]], assumption,
        rule timely_and_then [OF armed_calls(3) [OF _ order_refl]], assumption,
        rule timely_and_then [OF armed_calls(2) [OF _ order_refl]], assumption,
        rule armed_calls(3) [OF _ order_refl])
  then have "timely (?B + registration) (\<lambda>c. clock c \<le> ?B) (and_then (tread peer (arm_handshake d t0)) (\<lambda>c. and_then (twrite peer c) (\<lambda>c.
     and_then (tread_msg peer c) (\<lambda>c. and_then (twrite peer c) (tread_msg peer)))))"
    using assms(2) by (auto simp: timely_def armed_def)
  from timely_and_then [OF this, of "\<lambda>_. True" "\<lambda>c. let c = (if Handshake d > 0 then SetDeadline None c else c) in (Done, c\<lparr>clock := clock c + registration\<rparr>)"]
  have "timely (?B + registration) (\<lambda>_. True) (recv_start d peer registration t0)"
    by (simp add: recv_start_def and_then_assoc timely_def SetDeadline_def)
  with assms(3) show ?thesis by (simp add: timely_def)
qed

lemma recv_round_idle:
  assumes "0 < ReceiveIdle d" "recv_round d peer work c = (r, c')"
  shows "r \<noteq> Stuck \<and> ncalls c < ncalls c' \<and> (if r = Done then clock c' < clock c + ReceiveIdle d + work \<and> peer (ncalls c) \<noteq> Silent
    else clock c' \<le> clock c + ReceiveIdle d) \<and> (r = TimedOut \<longrightarrow> clock c' = clock c + ReceiveIdle d)"
proof -
  let ?c = "c\<lparr>read_deadline := Some (clock c + ReceiveIdle d)\<rparr>"
  obtain r1 c1 where m: "tread_msg peer ?c = (r1, c1)" by (cases "tread_msg peer ?c")
  with tread_msg_by [of ?c "clock c + ReceiveIdle d" peer] have "read_by peer (clock c + ReceiveIdle d) ?c (r1, c1)" by simp
  with assms m show ?thesis
    by (cases "r1 = Done") (auto simp: recv_round_def SetReadDeadline_def after_def read_by_def max_def split: if_splits)
qed

text \<open>A frame that is there in time is read: header and body before the idle deadline.\<close>

lemma recv_round_in_time:
  assumes "0 < ReceiveIdle d" "peer (ncalls c) = Ready t1" "peer (Suc (ncalls c)) = Ready t2"
    "t1 < clock c + ReceiveIdle d" "t2 < clock c + ReceiveIdle d"
  shows "fst (recv_round d peer work c) = Done"
  using assms
  by (simp add: recv_round_def SetReadDeadline_def after_def tread_msg_def tread_def expires_def not_le split: prod.split)

lemma writer_round_bounded:
  assumes "0 < WriteTimeout d" "writer_round d peer c = (r, c')"
  shows "r \<noteq> Stuck \<and> clock c' \<le> clock c + WriteTimeout d"
  using twrite_by [of "c\<lparr>write_deadline := Some (clock c + WriteTimeout d)\<rparr>" "clock c + WriteTimeout d" peer] assms
  by (auto simp: writer_round_def SetWriteDeadline_def after_def read_by_def)

text \<open>A session with \<open>n\<close> rounds behind it has made at least \<open>n\<close> calls.\<close>

lemma push_round_calls:
  assumes "read_deadline c = Some D" "write_deadline c = Some D" "push_round peer work acked c = (Done, c')"
  shows "ncalls c < ncalls c' \<and> peer (ncalls c) \<noteq> Silent"
proof -
  from assms(3) obtain c1 where m: "tread_msg peer c = (Done, c1)"
    and w: "(case twrite peer (c1\<lparr>clock := clock c1 + work\<rparr>) of (r, c) \<Rightarrow> if acked \<or> r = Stuck then (r, c) else (Done, c)) = (Done, c')"
    by (auto simp: push_round_def and_then_Done)
  from tread_msg_by [OF assms(1), of peer] m have b: "read_by peer D c (Done, c1)" by simp
  have "write_deadline (c1\<lparr>clock := clock c1 + work\<rparr>) = Some D" using b assms(2) by (simp add: read_by_def)
  from twrite_by [OF this, of peer] b w show ?thesis by (auto simp: read_by_def split: prod.splits if_splits)
qed

lemma push_rounds_calls:
  assumes "0 < Handshake d" "0 < PushSession d" "\<forall>i. 0 \<le> work i \<and> work i \<le> W"
  shows "push_rounds d peer work acked t0 n = (Done, c) \<Longrightarrow> n \<le> ncalls c"
    "push_rounds d peer work acked t0 (Suc n) = (Done, c') \<Longrightarrow> \<exists>i \<ge> n. peer i \<noteq> Silent"
proof -
  have step: "ncalls c < ncalls c' \<and> peer (ncalls c) \<noteq> Silent"
    if "push_rounds d peer work acked t0 n = (Done, c)" "push_round peer (work n) (acked n) c = (Done, c')" for n c c'
    using push_rounds_timely [OF assms refl, where peer = peer and acked = acked and ?t0.0 = t0 and n = n] that push_round_calls
    by (auto simp: timely_def armed_def)
  have calls: "n \<le> ncalls c" if "push_rounds d peer work acked t0 n = (Done, c)" for n c
    using that
  proof (induction n arbitrary: c)
    case (Suc n)
    from Suc(2) obtain c1 where c1: "push_rounds d peer work acked t0 n = (Done, c1)" "push_round peer (work n) (acked n) c1 = (Done, c)"
      by (auto simp: and_then_Done)
    from Suc(1) [OF c1(1)] step [OF c1] show ?case by simp
  qed simp
  show "push_rounds d peer work acked t0 n = (Done, c) \<Longrightarrow> n \<le> ncalls c" by (rule calls)
  show "\<exists>i \<ge> n. peer i \<noteq> Silent" if "push_rounds d peer work acked t0 (Suc n) = (Done, c')"
    using that calls step by (fastforce simp: and_then_Done)
qed

lemma recv_rounds_calls:
  assumes "0 < ReceiveIdle d"
  shows "recv_rounds d peer work registration t0 n = (Done, c) \<Longrightarrow> n \<le> ncalls c"
    "recv_rounds d peer work registration t0 (Suc n) = (Done, c') \<Longrightarrow> \<exists>i \<ge> n. peer i \<noteq> Silent"
proof -
  have calls: "n \<le> ncalls c" if "recv_rounds d peer work registration t0 n = (Done, c)" for n c
    using that
  proof (induction n arbitrary: c)
    case (Suc n)
    from Suc(2) obtain c1 where c1: "recv_rounds d peer work registration t0 n = (Done, c1)" "recv_round d peer (work n) c1 = (Done, c)"
      by (auto simp: and_then_Done)
    from Suc(1) [OF c1(1)] recv_round_idle [OF assms c1(2)] show ?case by simp
  qed simp
  show "recv_rounds d peer work registration t0 n = (Done, c) \<Longrightarrow> n \<le> ncalls c" by (rule calls)
  show "\<exists>i \<ge> n. peer i \<noteq> Silent" if "recv_rounds d peer work registration t0 (Suc n) = (Done, c')"
    using that calls recv_round_idle [OF assms] by (fastforce simp: and_then_Done)
qed

lemma loaded_deadlines:
  assumes "Load dec env path = Inr cfg"
  shows "0 < Handshake (session_deadlines (newServer (Relay cfg)))" "0 < PushSession (session_deadlines (newServer (Relay cfg)))"
    "0 < ReceiveIdle (session_deadlines (newServer (Relay cfg)))" "0 < WriteTimeout (session_deadlines (newServer (Relay cfg)))"
  using Load_sound [OF assms] by (simp_all add: session_deadlines_def newServer_def Let_def knobs_sound_def)



end
