(* ===== verification/Logging.thy ===== *)
theory Logging
  imports Relay_Prelude
begin

text \<open>
  The logging seam, \<open>internal/logging/logging.go\<close>, and the setters that install it
  (\<open>SetLogger\<close> in \<open>internal/relay/router.go\<close>, \<open>internal/store/reaper.go\<close> and
  \<open>internal/session/receive.go\<close>). A line is given as it is formatted; the date the standard logger
  puts before it is left out.
\<close>

record Logger =
  written :: "string list"
  discards :: bool
  dev :: bool

definition Logger_New :: "bool \<Rightarrow> bool \<Rightarrow> Logger" where
  "Logger_New to_discard dev' = \<lparr>written = [], discards = to_discard, dev = dev'\<rparr>"

definition Nop :: Logger where "Nop = Logger_New True False"

definition out_Printf :: "string \<Rightarrow> Logger \<Rightarrow> Logger" where
  "out_Printf line l = (if discards l then l else l\<lparr>written := written l @ [line]\<rparr>)"

definition Printf :: "string \<Rightarrow> Logger \<Rightarrow> Logger" where
  "Printf line l = out_Printf line l"

definition Debugf :: "string \<Rightarrow> Logger \<Rightarrow> Logger" where
  "Debugf line l = (if \<not> dev l then l else out_Printf line l)"

text \<open>A nil logger is replaced by one that drops everything; so is one that was never set.\<close>

definition SetLogger :: "Logger option \<Rightarrow> Logger" where
  "SetLogger l = (case l of None \<Rightarrow> Nop | Some l \<Rightarrow> l)"

definition logg :: "Logger option \<Rightarrow> Logger" where
  "logg stored = (case stored of Some l \<Rightarrow> l | None \<Rightarrow> Nop)"

section \<open>What is written\<close>

text \<open>The calls of a run, in order.\<close>

datatype log_call = is_Print: Print (line: string) | Debug (line: string)

fun log_step :: "log_call \<Rightarrow> Logger \<Rightarrow> Logger" where
  "log_step (Print s) l = Printf s l"
| "log_step (Debug s) l = Debugf s l"

text \<open>
  In normal mode a run writes exactly its \<open>Printf\<close> lines, in dev mode all of them, in order; the
  mode never changes.
\<close>

lemma logged:
  "fold log_step cs l =
     (if discards l then l else l\<lparr>written := written l @ map line (filter (\<lambda>c. is_Print c \<or> dev l) cs)\<rparr>)"
proof (induction cs arbitrary: l)
  case (Cons c cs)
  then show ?case by (cases c) (simp_all add: Printf_def Debugf_def out_Printf_def)
qed simp

lemma normal_mode_hides_detail: "written (fold log_step (map Debug ss) (Logger_New discard False)) = []"
  by (simp add: logged Logger_New_def)

lemma nop_writes_nothing: "fold log_step cs (SetLogger None) = Nop" "fold log_step cs (logg None) = Nop"
  by (simp_all add: logged SetLogger_def logg_def) (simp_all add: Nop_def Logger_New_def)

end
