(* ===== verification/Postgres_Close.thy ===== *)
theory Postgres_Close
  imports Postgres_Notifier
begin

text \<open>
  How \<open>listenLoop\<close> of \<open>internal/store/postgres/store.go\<close> ends: \<open>Close\<close> cancels its context and the
  loop returns where it waits for a notification, or the listener connection is lost and the
  node exits. \<open>pstep\<close> is split into the steps of the loop and those of its clients, since the
  clients go on when the loop is gone.
\<close>

section \<open>The loop and its clients\<close>

inductive loop_step :: "pgn \<Rightarrow> pgn \<Rightarrow> bool" where
  "pn_loop n = [] \<Longrightarrow> loop_step n (exec_cmd err n)"
| "pn_loop n = [] \<Longrightarrow> loop_step n (receive_notification n)"
| "signal n = Ret n' \<Longrightarrow> loop_step n n'"

inductive client_step :: "pgn \<Rightarrow> pgn \<Rightarrow> bool" where
  c_subscribe: "channelName key = Ret name \<Longrightarrow> client_step n (register key name n)"
| c_send: "s \<in> set (pn_live n) \<Longrightarrow> sphase s = Sending \<Longrightarrow> length (pn_cmds n) < cmdCh_capacity \<Longrightarrow>
    client_step n (send_listen (sname s) (schan s) n)"
| c_failed: "s \<in> set (pn_live n) \<Longrightarrow> sphase s = Failed \<Longrightarrow> client_step n (sub_end (sname s) (schan s) n)"
| c_cancel: "s \<in> set (pn_live n) \<Longrightarrow> sphase s = Open \<Longrightarrow> client_step n (cancel (sname s) (schan s) n)"
| c_offer: "name \<in> set (pn_offers n) \<Longrightarrow> client_step n (offer name n)"
| c_notify: "client_step n (pg_notify name n)"
| c_take: "client_step n (n\<lparr>pn_buffered := pn_buffered n - {ch}\<rparr>)"

lemma pstep_split: "pstep n n' \<longleftrightarrow> loop_step n n' \<or> client_step n n'"
proof
  show "pstep n n' \<Longrightarrow> loop_step n n' \<or> client_step n n'"
    by (induction rule: pstep.induct) (blast intro: loop_step.intros client_step.intros)+
  show "loop_step n n' \<or> client_step n n' \<Longrightarrow> pstep n n'"
    by (auto elim!: loop_step.cases client_step.cases intro: pstep.intros)
qed

section \<open>The node\<close>

record pg_node =
  node :: pgn
  loop_ctx_done :: bool
  loop_returned :: bool
  died :: bool

definition pg_start :: pg_node where
  "pg_start = \<lparr>node = pgn_New, loop_ctx_done = False, loop_returned = False, died = False\<rparr>"

definition pg_Close :: "pg_node \<Rightarrow> pg_node" where
  "pg_Close c = c\<lparr>loop_ctx_done := True\<rparr>"

text \<open>\<open>log.Fatalf\<close> ends the process: nothing steps any more.\<close>

inductive nodestep :: "pg_node \<Rightarrow> pg_node \<Rightarrow> bool" where
  n_loop: "\<not> died c \<Longrightarrow> \<not> loop_returned c \<Longrightarrow> loop_step (node c) n \<Longrightarrow> nodestep c (c\<lparr>node := n\<rparr>)"
| n_client: "\<not> died c \<Longrightarrow> client_step (node c) n \<Longrightarrow> nodestep c (c\<lparr>node := n\<rparr>)"
| n_close: "\<not> died c \<Longrightarrow> nodestep c (pg_Close c)"
| n_return: "\<not> died c \<Longrightarrow> \<not> loop_returned c \<Longrightarrow> pn_loop (node c) = [] \<Longrightarrow> loop_ctx_done c \<Longrightarrow> nodestep c (c\<lparr>loop_returned := True\<rparr>)"
| n_lost: "\<not> died c \<Longrightarrow> \<not> loop_returned c \<Longrightarrow> pn_loop (node c) = [] \<Longrightarrow> \<not> loop_ctx_done c \<Longrightarrow> nodestep c (c\<lparr>died := True\<rparr>)"

section \<open>After the loop\<close>

lemma nodestep_node: "nodestep c c' \<Longrightarrow> node c' = node c \<or> pstep (node c) (node c')"
  by (induction rule: nodestep.induct) (auto simp: pstep_split pg_Close_def)

lemma nodesteps_ok: "nodestep\<^sup>*\<^sup>* c c' \<Longrightarrow> pgn_ok (node c) \<Longrightarrow> pgn_ok (node c')"
  by (induction rule: rtranclp_induct) (auto dest!: nodestep_node intro: pgn_ok_step)

text \<open>A subscription that waits for the loop's reply.\<close>

definition waiting :: "nat \<Rightarrow> pgn \<Rightarrow> bool" where
  "waiting ch n \<longleftrightarrow> (\<exists>s \<in> set (pn_live n). schan s = ch \<and> sphase s = Replying)"

lemma client_step_waiting:
  assumes "client_step n n'" "pgn_ok n" "waiting ch n"
  shows "waiting ch n'"
proof -
  from assms(3) obtain s where s: "s \<in> set (pn_live n)" "schan s = ch" "sphase s = Replying" by (auto simp: waiting_def)
  have "inj_on schan (set (pn_live n))" using pgn_okD(1) [OF assms(2)] by (simp add: distinct_map)
  then have uniq: "t \<in> set (pn_live n) \<Longrightarrow> schan t = ch \<Longrightarrow> t = s" for t
    using s by (metis inj_onD)
  have other: "schan t \<noteq> schan s" if "t \<in> set (pn_live n)" "sphase t \<noteq> Replying" for t
    using uniq [OF that(1)] s(2,3) that(2) by metis
  have keep: "waiting ch (sub_end (sname t) (schan t) n)" if "t \<in> set (pn_live n)" "sphase t \<noteq> Replying" for t
  proof -
    have "pn_live (sub_end (sname t) (schan t) n) = filter (\<lambda>u. schan u \<noteq> schan t) (pn_live n)"
      by (simp add: sub_end_def drop_ref_def removeSub_def Let_def)
    with other [OF that] show ?thesis using s by (auto simp: waiting_def intro!: bexI [of _ s])
  qed
  from assms(1) show ?thesis
  proof cases
    case (c_subscribe key name)
    with s show ?thesis by (auto simp: waiting_def register_def Let_def)
  next
    case (c_send t)
    then have "schan t \<noteq> schan s" using other [of t] by simp
    with s c_send(1) show ?thesis by (auto simp: waiting_def send_listen_def set_phase_def intro!: bexI [of _ s])
  next
    case (c_cancel t)
    with keep [of t] show ?thesis by (auto simp: cancel_def Let_def waiting_def)
  qed (use keep assms(3) in \<open>auto simp: waiting_def offer_def pg_notify_def\<close>)
qed

text \<open>
  \<open>Subscribe\<close> on a closed store hangs: once the loop has returned, nothing answers a subscription
  that waits for its reply. The same goes for the reply to an \<open>UNLISTEN\<close>.
\<close>

lemma closed_store_answers_nobody:
  assumes "nodestep\<^sup>*\<^sup>* c c'" "loop_returned c" "pgn_ok (node c)" "waiting ch (node c)"
  shows "waiting ch (node c') \<and> loop_returned c'"
proof -
  from assms have "loop_returned c' \<and> pgn_ok (node c') \<and> waiting ch (node c')"
  proof (induction rule: rtranclp_induct)
    case (step y z)
    from step(2) show ?case
    proof cases
      case (n_client n)
      with step client_step_waiting [of "node y" n ch] pgn_ok_step [of "node y" n] show ?thesis by (simp add: pstep_split)
    qed (use step in \<open>auto simp: pg_Close_def\<close>)
  qed simp
  then show ?thesis by blast
qed

lemma subscribe_after_close_hangs:
  "\<exists>c. nodestep\<^sup>*\<^sup>* pg_start c \<and> loop_returned c \<and> (\<forall>c'. nodestep\<^sup>*\<^sup>* c c' \<longrightarrow> waiting 0 (node c'))"
proof -
  let ?c1 = "pg_Close pg_start" let ?c2 = "?c1\<lparr>loop_returned := True\<rparr>"
  let ?n1 = "register race_key race_name pgn_New" let ?c3 = "?c2\<lparr>node := ?n1\<rparr>"
  let ?n2 = "send_listen race_name 0 ?n1" let ?c4 = "?c3\<lparr>node := ?n2\<rparr>"
  have "nodestep pg_start ?c1" by (rule n_close) (simp add: pg_start_def)
  moreover have "nodestep ?c1 ?c2" by (rule n_return) (simp_all add: pg_Close_def pg_start_def pgn_New_def)
  moreover have "nodestep ?c2 ?c3" using n_client [of ?c2 ?n1] c_subscribe [OF race_name, of pgn_New] by (simp add: pg_Close_def pg_start_def)
  moreover have "client_step ?n1 ?n2"
    using c_send [of "\<lparr>sname = race_name, schan = 0, sphase = Sending\<rparr>" ?n1] by (simp add: pgn_defs)
  then have "nodestep ?c3 ?c4" using n_client [of ?c3 ?n2] by (simp add: pg_Close_def pg_start_def)
  ultimately have r: "nodestep\<^sup>*\<^sup>* pg_start ?c4" by (meson converse_rtranclp_into_rtranclp rtranclp.rtrancl_refl)
  have "pgn_ok (node ?c4)" using nodesteps_ok [OF r] pgn_ok_New by (simp add: pg_start_def)
  moreover have "waiting 0 (node ?c4)" by (simp add: waiting_def send_listen_def set_phase_def register_def pgn_New_def Let_def)
  ultimately have "\<forall>c'. nodestep\<^sup>*\<^sup>* ?c4 c' \<longrightarrow> waiting 0 (node c')"
    using closed_store_answers_nobody [of ?c4 _ 0] by (simp add: pg_Close_def)
  with r show ?thesis by (intro exI [of _ ?c4]) simp
qed

end
