(* ===== verification/Vectors.thy ===== *)
theory Vectors
  imports Push_Session Config Go_Hex
begin

text \<open>
  The vendored protocol vectors, \<open>internal/vectors/vectors.go\<close> and \<open>sync-v1.json\<close>: loading them, and
  what the repository's tests check of them (\<open>session/vectors_test.go\<close>, \<open>relay/vectors_test.go\<close>),
  evaluated on the definitions of this development. SHA-256 and the JSON decoder are arguments.
\<close>

section \<open>Loading\<close>

definition SyncV1FormatVersion :: int where "SyncV1FormatVersion = 1"

definition SyncV1SHA256 :: string where
  "SyncV1SHA256 = ''0506d5a80a9485f612d4d38a2530b70296a1e022e0539f3a001b6298a3dc3b37''"

text \<open>Entries of the frames section are kept undecoded.\<close>

record Vectors =
  Format :: string
  FormatVersion :: int
  v_TransportVersion :: int
  v_ProtocolSizeLimit :: int
  v_MaxEnvelopeBytes :: int
  v_NoiseFramePlaintextMax :: int
  ClientPrefixHex :: string
  AcceptReplyHex :: string
  RefusalLine :: string
  RefusalMin :: int
  RefusalMax :: int
  Frames :: "string \<rightharpoonup> string"
  RecipientNoisePub :: string
  EnvelopeProtoHex :: string

record FrameVector =
  fv_Type :: int
  BodyLayout :: string
  BlobIDHex :: string
  FrameHex :: string

record Rejection =
  Layer :: string
  Case :: string
  Input :: string
  Expect :: string

datatype vectors_error =
  ChecksumMismatch string | VectorsParse go_err | UnsupportedFormat string int | NoFrame string | FrameParse string go_err

definition Vectors_Load ::
    "(bytes \<Rightarrow> bytes) \<Rightarrow> (bytes \<Rightarrow> go_err + Vectors \<times> Rejection list) \<Rightarrow> bytes \<Rightarrow> vectors_error + Vectors \<times> Rejection list" where
  "Vectors_Load sha256 unmarshal syncV1 =
     (let got = EncodeToString (sha256 syncV1) in
      if got \<noteq> SyncV1SHA256 then Inl (ChecksumMismatch got)
      else (case unmarshal syncV1 of
          Inl e \<Rightarrow> Inl (VectorsParse e)
        | Inr (v, rejections) \<Rightarrow>
            if Format v \<noteq> ''trueseal-sync-vectors'' \<or> FormatVersion v \<noteq> SyncV1FormatVersion
            then Inl (UnsupportedFormat (Format v) (FormatVersion v))
            else Inr (v, rejections)))"

definition Vectors_Frame :: "(string \<Rightarrow> go_err + FrameVector) \<Rightarrow> Vectors \<Rightarrow> string \<Rightarrow> vectors_error + FrameVector" where
  "Vectors_Frame unmarshal v name =
     (case Frames v name of
        None \<Rightarrow> Inl (NoFrame name)
      | Some raw \<Rightarrow> (case unmarshal raw of Inl e \<Rightarrow> Inl (FrameParse name e) | Inr fv \<Rightarrow> Inr fv))"

text \<open>Vectors that load are the pinned file, in the pinned format.\<close>

lemma loaded_vectors_pinned:
  assumes "Vectors_Load sha256 unmarshal syncV1 = Inr (v, rejections)"
  shows "EncodeToString (sha256 syncV1) = SyncV1SHA256 \<and> unmarshal syncV1 = Inr (v, rejections) \<and> FormatVersion v = 1"
  using assms by (auto simp: Vectors_Load_def Let_def SyncV1FormatVersion_def split: if_splits sum.splits prod.splits)

section \<open>The pinned bytes\<close>

definition recipientNoisePub :: bytes where
  "recipientNoisePub =
     [0xad, 0x43, 0x8b, 0xfa, 0xe3, 0x1f, 0x6c, 0x09, 0x3d, 0x61, 0xd4, 0x33, 0x92, 0x55, 0xea, 0x79, 0x80, 0x92, 0xc9, 0xfa,
      0xdd, 0x07, 0xb9, 0x78, 0x27, 0xf4, 0xb0, 0xae, 0x9d, 0xee, 0x7c, 0x1c]"

definition payload :: bytes where
  "payload =
     [0x02, 0x33, 0xf0, 0x06, 0xef, 0x4b, 0xed, 0x14, 0x4e, 0xa0, 0xa5, 0xbb, 0x46, 0xc7, 0x06, 0x7c, 0x7c, 0x2a, 0xce, 0xc5,
      0xf8, 0xcc, 0x81, 0x1f, 0x3d, 0xf5, 0x9f, 0xdc, 0xd5, 0xac, 0x76, 0x14, 0x00, 0x00, 0x00, 0x00, 0x00, 0x00, 0x00, 0x00,
      0x00, 0x00, 0x00, 0x00, 0xb3, 0x42, 0x81, 0x0a, 0x1e, 0x1b, 0x1a, 0x57, 0x8e, 0x12, 0xdd, 0xac, 0x38, 0xf5, 0x8d, 0x63,
      0xb5, 0xcc, 0xc3, 0x51, 0x68, 0x44, 0xb5, 0xd2, 0x43, 0x32, 0x84, 0xd4, 0x23, 0xce, 0xf4, 0x3a, 0x56, 0x58, 0xc4, 0x11,
      0x53, 0x6d, 0xa0, 0xeb, 0x83, 0x41, 0x80, 0xf6, 0x98, 0x2c, 0xb5, 0xa7, 0xc3, 0xe3, 0xdf, 0x9d, 0x60, 0x3e, 0xb6, 0xcf,
      0x64, 0xd2, 0xd4, 0xd5, 0x5a, 0xe7, 0xf3, 0x59, 0x8a, 0xde, 0x2a, 0xce, 0x4c, 0x5c, 0x76, 0xb6, 0x61, 0x29, 0x65, 0xf8,
      0x02, 0xe7, 0xd5, 0xeb, 0x32, 0xf1, 0x55, 0xe5, 0x7b, 0x52, 0xd1, 0x7f, 0x61, 0xff, 0x0c, 0x98, 0x8f, 0x92, 0x72, 0x59,
      0xf1, 0xca, 0x75, 0x03, 0xd9, 0x71, 0x05, 0x86, 0x2c, 0xca, 0x79, 0xde, 0x2c, 0xee, 0xe5, 0x07, 0xbb, 0xb0, 0x94, 0x4e,
      0x0f, 0x7f, 0x67, 0x4d, 0x53, 0xd5, 0x62, 0xb6, 0x7c, 0x81, 0x36, 0xd3, 0xa8, 0x3b, 0xff, 0xc8, 0x0a, 0x93, 0xb7, 0xc5,
      0xbb, 0x53, 0xec, 0xbf, 0xdc, 0x3c, 0x44, 0x51, 0xb6, 0x51, 0xf1, 0x54, 0x14, 0xc8, 0x78, 0xa2, 0xe0, 0xc2, 0xf8, 0xa6,
      0x12, 0x61, 0xaf, 0xa2, 0xb9, 0x8e, 0xf5, 0x9e, 0x1d, 0x68, 0xdb, 0xd2, 0xed, 0xed, 0x00, 0x62, 0xfa, 0xfa, 0x3b, 0x6e]"

definition envelopeProto :: bytes where
  "envelopeProto = [0x1a, 0x20] @ recipientNoisePub @ [0x32, 0xdc, 0x01] @ payload @ [0x38, 0x01]"

text \<open>The frames of the vectors: the type, the body as its layout describes it, and the pinned bytes.\<close>

definition blob_42 :: bytes where "blob_42 = [0, 0, 0, 0, 0, 0, 0, 0x2a]"

definition frame_vectors :: "(MsgType \<times> bytes \<times> bytes) list" where
  "frame_vectors =
     [(1, recipientNoisePub @ envelopeProto, [1, 0, 0, 0x01, 0x23] @ recipientNoisePub @ envelopeProto),
      (2, blob_42 @ envelopeProto, [2, 0, 0, 0x01, 0x0b] @ blob_42 @ envelopeProto),
      (3, [], [3, 0, 0, 0, 0]), (4, [], [4, 0, 0, 0, 0]), (5, [], [5, 0, 0, 0, 0]), (6, blob_42, [6, 0, 0, 0, 8] @ blob_42)]"

section \<open>Agreement\<close>

lemma vector_lengths: "length recipientNoisePub = 32" "length payload = 220" "length envelopeProto = 259"
  by (simp_all add: recipientNoisePub_def payload_def envelopeProto_def)

text \<open>\<open>TestVectors_Frames\<close>: \<open>Frame\<close> makes exactly the pinned bytes, and \<open>Parse\<close> reads them back.\<close>

lemma vectors_frames:
  assumes "(t, body, pinned) \<in> set frame_vectors"
  shows "Frame t body = pinned \<and> Parse pinned = Ret (t, body, True)"
proof -
  have "Frame t body = pinned \<and> known_type t \<and> length body < 1000"
    using assms
    by (auto simp: frame_vectors_def Frame_eq header_def byte_at_def vector_lengths blob_42_def known_type_def msg_types)
  with Parse_Frame [of t body "[]"] length_Frame [of t body] show ?thesis by auto
qed

text \<open>The Deliver frame carries blob 42 and the envelope, and the DeliverAck echoes the ID.\<close>

lemma vectors_bodies:
  "DecodeDeliverBody (blob_42 @ envelopeProto) = (42, envelopeProto, True)" "DecodeDeliverAckBody blob_42 = (42, True)"
  by (simp_all add: DecodeDeliverBody_def DecodeDeliverAckBody_def blob_42_def getU64BE_def put_byte_def)

text \<open>The envelope's recipient, as the relay reads it, is the routing prefix of the Push frame.\<close>

lemma vectors_recipient: "extractEnvelopeRecipient envelopeProto = Inr recipientNoisePub"
proof -
  let ?fs = "[FLen 3 recipientNoisePub, FLen 6 payload, FVarint 7 1]"
  have f: "field_wire (FLen 3 recipientNoisePub) ([0x1a, 0x20] @ recipientNoisePub)"
    "field_wire (FLen 6 payload) ([0x32, 0xdc, 0x01] @ payload)" "field_wire (FVarint 7 1) [0x38, 0x01]"
    unfolding field_wire.simps
    by (intro exI [of _ "[0x1a]"] exI [of _ "[0x20]"], simp add: is_tag_def is_varint_def vector_lengths)
      (intro exI [of _ "[0x32]"] exI [of _ "[0xdc, 0x01]"], simp add: is_tag_def is_varint_def vector_lengths,
       intro exI [of _ "[0x38]"] exI [of _ "[0x01]"], simp add: is_tag_def is_varint_def)
  have "wire_message [0x38, 0x01] [FVarint 7 1]"
    using f(3) by (simp only: wire_message.simps) (metis append.right_neutral)
  then have "wire_message (([0x32, 0xdc, 0x01] @ payload) @ [0x38, 0x01]) [FLen 6 payload, FVarint 7 1]"
    using f(2) by (simp only: wire_message.simps(2) [of _ "FLen 6 payload"]) blast
  then have "wire_message (([0x1a, 0x20] @ recipientNoisePub) @ ([0x32, 0xdc, 0x01] @ payload) @ [0x38, 0x01]) ?fs"
    using f(1) by (simp only: wire_message.simps(2) [of _ "FLen 3 recipientNoisePub"]) blast
  then have "wire_message (drop 0 envelopeProto) ?fs" by (simp add: envelopeProto_def del: wire_message.simps)
  from extract_loop_complete [OF _ this, of "replicate 32 0" 0] show ?thesis
    by (simp add: extractEnvelopeRecipient_def vector_lengths)
qed

text \<open>The version exchange: the pinned prefix is accepted with the pinned byte, the next version refused.\<close>

lemma vectors_exchange:
  "case exchangeTransportVersion \<lparr>inb = [0x54, 0x53, 0x50, 0x00, 0x01], fin = EOF, outs = [], wfail = (\<lambda>_. None)\<rparr> of
     (r, c) \<Rightarrow> r = Inr [0x54, 0x53, 0x50, 0x00, 0x01] \<and> outs c = [[0x01]]"
  "outs (snd (exchangeTransportVersion \<lparr>inb = [0x54, 0x53, 0x50, 0x00, 0x02], fin = EOF, outs = [], wfail = (\<lambda>_. None)\<rparr>)) =
     [map of_char (''unsupported 1..1'' @ [CHR 0x0A])]"
  by code_simp+

text \<open>The unknown frame type of the rejections is refused; the numbers are those of the code.\<close>

lemma vectors_limits:
  "Parse [0x7f, 0, 0, 0, 0] = Ret (0, [], False)" "DefaultMaxEnvelopeBytes = 65482" "unat TransportVersion = 1"
  by (simp_all add: Parse_def known_type_def msg_types DefaultMaxEnvelopeBytes_def ProtocolMaxEnvelopeBytes_def TransportVersion_def)

end
