(* ===== verification/Spec2Isabelle.thy ===== *)
theory Spec2Isabelle
  imports Delivery Command Session_Deadlines Logging Postgres_Close Vectors
begin

text \<open>
  A verification development of trueseal-relay, a relay that stores encrypted envelopes for
  devices which are offline and hands them over when they connect. It cannot read them. Paths
  below are relative to \<open>src/\<close>.

  \<^bold>\<open>The program.\<close> A sender opens a Push Session (\<open>internal/session/push.go\<close>), a device a Receive
  Session (\<open>receive.go\<close>, \<open>writer.go\<close>). Both speak frames (\<open>frame.go\<close>) inside Noise transport
  messages (\<open>transport.go\<close>, \<open>version.go\<close>), under deadlines (\<open>deadlines.go\<close>). The router
  (\<open>internal/relay/router.go\<close>) checks the addressing of an envelope (\<open>envelope.go\<close>,
  \<open>envelope_recipient.go\<close>) and the abuse limits (\<open>limits.go\<close>), stores it in an Inbox
  (\<open>internal/store\<close>: SQLite, or Postgres shared by several nodes) and wakes the sessions of the
  device (\<open>internal/notify\<close>, or Postgres' LISTEN/NOTIFY), whose delivery goroutines send what is in
  the Inbox; an acknowledged blob is deleted, and the reaper deletes expired ones.
  \<open>cmd/trueseal-relay\<close> parses the command line, loads the configuration (\<open>internal/config\<close>) and the
  relay's key (\<open>internal/keypair\<close>), opens the store, and runs the listeners until it is shut down.
  A test build can tamper with deliveries (\<open>internal/hostile\<close>).

  \<^bold>\<open>The theories\<close>, in the order of their dependencies:

  \<^item> \<open>Relay_Prelude\<close>: bytes, words, Go's panics as a value (\<open>'a go\<close>), decimal printing, the shared
    list and map lemmas and the named collections. \<open>Go_Errors\<close>: error values with their chains
    (\<open>errors.Is\<close>, \<open>errors.As\<close>). \<open>Go_Hex\<close>, \<open>Go_Strconv\<close>, \<open>Go_Net\<close>, \<open>Go_Flag\<close>, \<open>Float64\<close>: the parts of
    the standard library the code uses (\<open>encoding/hex\<close>; \<open>strconv\<close>, \<open>strings.TrimSpace\<close>,
    \<open>time.ParseDuration\<close>; \<open>net.SplitHostPort\<close>, \<open>IP.IsLoopback\<close>; \<open>flag\<close>; binary64 rounding of the
    limiter's arithmetic). \<open>Logging\<close> (\<open>logging.go\<close>): what each mode writes.
  \<^item> \<open>Frame\<close> (\<open>frame.go\<close>): \<open>Marshal\<close> and \<open>Parse\<close> with the 32-bit length field at its width, so that
    its wrap-around is visible; C1 is the exact language \<open>Parse\<close> accepts with the round trip, C2
    says when \<open>Parse\<close> panics.
  \<^item> \<open>Transport\<close> (\<open>transport.go\<close>, \<open>version.go\<close>): reading and writing length-prefixed messages on a
    byte stream, the version prefix; C4, C5.
  \<^item> \<open>Envelope\<close> (\<open>envelope.go\<close>, \<open>envelope_recipient.go\<close>): the wire scan for the recipient field,
    as \<open>function\<close>s whose measure is the unread length, against a grammar of fields; C7.
  \<^item> \<open>Inbox_Store\<close> (\<open>inbox_store.go\<close>): the port as a record of operations and the locale
    \<open>inbox_contract\<close> of its laws, which both backends keep, with \<open>strict_inbox_contract\<close> for a store
    whose failed puts change nothing; client lemmas are proved inside them, here, in \<open>Router\<close>, in
    \<open>Reaper\<close>, in \<open>Receive_Session\<close> and in \<open>Hostile_Control\<close>. \<open>Sqlite_Store\<close> (\<open>sqlite/store.go\<close>)
    interprets them as \<open>sq\<close>; C8, C9, C11. \<open>Sqlite_Version\<close> (\<open>sqlite/version.go\<close>): opening,
    migrating, adopting and resetting a database file inside a transaction that may fail
    anywhere; C12, C13.
  \<^item> \<open>Abuse_Limits\<close> (\<open>limits.go\<close>): the token buckets in binary64 arithmetic and the session cap;
    C15 to C17.
  \<^item> \<open>Notifier\<close> (\<open>notifier.go\<close>, \<open>inprocess/notifier.go\<close>): the subscriber slices with Go's aliasing
    on append and removal, channels of capacity one; the locale \<open>notifier_contract\<close>, interpreted
    as \<open>inproc\<close>. C18 holds for calls that do not overlap; C19 are the two races of the code, as
    runs of its atomic steps.
  \<^item> \<open>Router\<close> (\<open>router.go\<close>): the handlers over the two interfaces, any store fault included; C21, C22.
    \<open>Delivery\<close>: the whole relay as a step relation (pushes, connects, disconnects, acks, reaps,
    delivery goroutines); the locale \<open>delivery_contract\<close> extends \<open>inbox_contract\<close> and a notifier,
    and is interpreted as \<open>relay\<close>. C23 is the invariant that a session gets each blob once and
    in order, C24 that the relay's work ends and leaves no blob undelivered.
  \<^item> \<open>Postgres_Store\<close> (\<open>postgres/store.go\<close>): the calls one at a time, interpretation \<open>pg\<close> of
    \<open>inbox_contract\<close>. \<open>Postgres_Cluster\<close>: puts of several nodes as interleaved transactions at read
    committed; C37 bounds how far they overshoot a quota. \<open>Postgres_Notifier\<close>: \<open>Subscribe\<close>, its
    teardown and the listen loop as interleaved steps; C30 is their invariant, C6 their two races;
    the calls one at a time interpret \<open>notifier_contract\<close> as \<open>pgn\<close>. \<open>Postgres_Close\<close>: how the
    listen loop ends. \<open>Postgres_Relay\<close>: the relay on both, \<open>pgrelay\<close>; C10.
  \<^item> \<open>Push_Session\<close> (\<open>push.go\<close>): C25 to C27, with the byte-level loop refining a frame-level one.
    \<open>Receive_Session\<close> (\<open>receive.go\<close>, \<open>writer.go\<close>): reader, writer goroutine and bounded queue as a
    labelled step relation; C28, C29. \<open>Session_Deadlines\<close>: both sessions as sequences of blocking
    calls on a clock; C39.
  \<^item> \<open>Config\<close> (\<open>config.go\<close>): file, environment, defaults and refusals; C31, C32. \<open>Reaper\<close>
    (\<open>reaper.go\<close>): C33. \<open>Server\<close> (\<open>server.go\<close>, the error log and the health handler of \<open>main.go\<close>):
    C34 to C36. \<open>Keypair\<close> (\<open>keypair.go\<close>): C38.
  \<^item> \<open>Hostile_Engine\<close> (\<open>hostile/engine.go\<close>): rules, pipes and commands of the test build; C20 is what
    a pipe sends. \<open>Hostile_Control\<close> (\<open>hostile/control.go\<close>, \<open>wrap_hostile.go\<close>, \<open>wrap_release.go\<close>): the
    control port.
  \<^item> \<open>Vectors\<close> (\<open>vectors.go\<close>): the vendored protocol vectors; the codec, the version exchange and the
    recipient scan of this development agree with the pinned bytes.
  \<^item> \<open>Command\<close> (\<open>main.go\<close>, \<open>hostile_enabled.go\<close>, \<open>hostile_disabled.go\<close>): the program from its
    argument list to the running relay or its exit; C3, C14. This theory: C40, the ceilings from
    the configuration to the wire.

  \<^bold>\<open>How code is modelled.\<close> Handlers are functions on explicit state. An error is a value of type
  \<open>go_err\<close>, a panic the value \<open>Panic\<close>. Where goroutines interleave, each statement between two
  synchronisation points is a rule of an inductive step relation, and what holds is proved for
  all reachable states. Loops are structural recursion or have a measure; there is no fuel.
  Clock readings are arguments, in nanoseconds; a timer is a choice between firing and not,
  except in \<open>Session_Deadlines\<close>, where it fires at its time.

  \<^bold>\<open>Parameters.\<close> The Noise library (a record of functions), X25519 and key generation, the TOML
  and JSON decoders, SHA-256, the resolver, and the database drivers, which may return an error at every
  call (\<open>faults\<close>).

  \<^bold>\<open>Not modelled.\<close> The handler interface (\<open>session/handler.go\<close>) has no code. Which lines are logged, and the wording of
  lifecycle lines; sockets, signal delivery, HTTP serving and file modes are outside the model.
\<close>

section \<open>From the configuration to the wire\<close>

lemma Unix_plus_ttl: "ttl' \<le> MaxRelayTTL \<Longrightarrow> Unix (now + ttl') \<le> Unix now + 30 * 24 * 3600"
proof -
  assume "ttl' \<le> MaxRelayTTL"
  then have "(now + ttl') div 1000000000 \<le> (now + 30 * 24 * 3600 * 1000000000) div 1000000000"
    by (intro zdiv_mono1) (simp_all add: MaxRelayTTL_def second_def)
  then show ?thesis by (simp add: Unix_def)
qed

lemma serve_router_simps:
  assumes "0 < cfg_MaxEnvelopeBytes cfg"
  shows "store (serve_router cfg s st ops nt) = s" "store_state (serve_router cfg s st ops nt) = st"
    "ttl (serve_router cfg s st ops nt) = cfg_TTL cfg" "maxEnvelopeBytes (serve_router cfg s st ops nt) = cfg_MaxEnvelopeBytes cfg"
    "inboxLimits (serve_router cfg s st ops nt) = \<lparr>MaxBlobs = cfg_MaxBlobsPerInbox cfg, MaxBytes = cfg_MaxBytesPerInbox cfg\<rparr>"
  using assms by (simp_all add: serve_router_def NewRouterWithLimits_def)


lemma sample_push_served:
  assumes "cfg_PushRatePerSecond c = Fin 20" "cfg_PushRateBurst c = 500" "cfg_MaxEnvelopeBytes c = 65482"
    "cfg_MaxBlobsPerInbox c = 10000" "cfg_MaxBytesPerInbox c = 268435456"
  shows "\<exists>r'. OnPush no_faults 0 (0, 0, 0) (serve_router c sqlite_store sample_db (inprocess_ops (\<lambda>n. 2 * n)) inprocess_New)
    (sample_key @ sample_envelope) = Ret (None, r')"
proof -
  let ?r = "serve_router c sqlite_store sample_db (inprocess_ops (\<lambda>n. 2 * n)) inprocess_New"
  have p: "0 < cfg_MaxEnvelopeBytes c" by (simp add: assms(3))
  note r = serve_router_simps [OF p]
  have w: "well_addressed ?r (sample_key @ sample_envelope)"
    by (simp add: well_addressed_def r assms sample_envelope_recipient)
  have n: "notifier ?r = inprocess_ops (\<lambda>n. 2 * n)" "notifier_state ?r = inprocess_New" "limiter ?r = newRateLimiter 20 500"
    using fl64_of_int [of 500] by (simp_all add: serve_router_def NewRouterWithLimits_def assms)
  have ok: "limiter_ok (newRateLimiter 20 500)"
    using fl64_of_int [of 500] by (simp add: limiter_ok_def newRateLimiter_def)
  have a: "fst (allow 0 0 0 (limiter ?r) sample_key)"
    using allow_same_time [OF ok, of sample_key 500 0] by (auto simp: n newRateLimiter_def)
  have "db_seq sample_db = 0" "db_rows sample_db = []"
    by (simp_all add: sample_db_def fresh_inbox_def db_seq_def db_rows_def)
  with a OnPush_no_faults [OF _ n(1) _ _ _ w, of 0 0 0 0] show ?thesis
    by (simp add: r n sample_db_invar notifier_ok_New quota_ok_def assms inbox_count_def inbox_bytes_def)
qed


end
